(* ===== verification/Prelude.thy ===== *)
theory Prelude
  imports Main "HOL-Library.Word" "HOL-Library.Char_ord" "HOL-Library.List_Lexorder"
    "HOL-Library.Sublist"
begin

unbundle bit_operations_syntax

text \<open>
  What every component of the development shares: the types of the model, the parts of Rust's
  standard library the sources use on strings, integers and ordered maps, and the generic lemmas
  about them.

  A Rust \<open>String\<close> is its UTF-8 bytes and a \<open>Vec<u8>\<close> is a list of bytes; HOL's \<^typ>\<open>char\<close> is
  exactly an 8-bit value, so both are lists of \<^typ>\<open>char\<close> here. Rates, which saturate at their
  width, are 8-bit words, and the hashes are computed on 64-bit words. A counter that goes up by
  one per round, item or file is a \<^typ>\<open>nat\<close>; it meets the 64-bit hash through \<^const>\<open>of_nat\<close>.
  A \<open>BTreeMap\<close> is an association list sorted by its key, so its iteration order is the list's.
\<close>

named_theorems text_simps \<open>the string library\<close>
named_theorems store_simps \<open>reading an ordered map after an update\<close>

type_synonym byte = char
type_synonym bytes = "char list"
type_synonym u8 = "8 word"
type_synonym u64 = "64 word"

section \<open>Integers\<close>

text \<open>\<open>u8::saturating_mul\<close>: the product, or the type's maximum.\<close>

definition saturating_mul_u8 :: "u8 \<Rightarrow> u8 \<Rightarrow> u8" where
  "saturating_mul_u8 a b = (if unat a * unat b \<le> 255 then a * b else 255)"

lemma unat_saturating_mul_u8: "unat (saturating_mul_u8 a b) = min (unat a * unat b) 255"
  by (auto simp: saturating_mul_u8_def unat_word_ariths)

section \<open>Numbers as text\<close>

definition digit_char :: "nat \<Rightarrow> char" where
  "digit_char d = char_of (48 + d)"

definition is_digit :: "char \<Rightarrow> bool" where
  "is_digit c \<longleftrightarrow> 48 \<le> (of_char c :: nat) \<and> (of_char c :: nat) \<le> 57"

definition digit_value :: "char \<Rightarrow> nat" where
  "digit_value c = of_char c - 48"

text \<open>What \<open>Display\<close> writes for an unsigned integer.\<close>

fun decimal :: "nat \<Rightarrow> string" where
  "decimal n = (if n < 10 then [digit_char n] else decimal (n div 10) @ [digit_char (n mod 10)])"

declare decimal.simps [simp del]

text \<open>\<open>{:0w}\<close>: the number padded with zeros to \<open>w\<close> characters.\<close>

definition padded :: "nat \<Rightarrow> nat \<Rightarrow> string" where
  "padded w n = replicate (w - length (decimal n)) (CHR ''0'') @ decimal n"

definition digits_value :: "string \<Rightarrow> nat" where
  "digits_value s = foldl (\<lambda>a c. 10 * a + digit_value c) 0 s"

text \<open>
  \<open>str::parse\<close> at an unsigned type of \<open>w\<close> bits: an optional plus sign, then one or more digits,
  and an error on overflow.
\<close>

definition parse_unsigned :: "nat \<Rightarrow> string \<Rightarrow> nat option" where
  "parse_unsigned w s =
     (let ds = (case s of c # cs \<Rightarrow> if c = CHR ''+'' then cs else s | [] \<Rightarrow> s) in
      if ds = [] \<or> \<not> list_all is_digit ds then None
      else if digits_value ds < 2 ^ w then Some (digits_value ds) else None)"

lemma of_char_digit_char: "d < 10 \<Longrightarrow> (of_char (digit_char d) :: nat) = 48 + d"
  by (simp add: digit_char_def)

lemma is_digit_digit_char [simp]: "d < 10 \<Longrightarrow> is_digit (digit_char d)"
  by (simp add: is_digit_def of_char_digit_char)

lemma digit_value_digit_char [simp]: "d < 10 \<Longrightarrow> digit_value (digit_char d) = d"
  by (simp add: digit_value_def of_char_digit_char)

lemma decimal_not_Nil [simp]: "decimal n \<noteq> []"
  by (subst decimal.simps) simp

lemma list_all_is_digit_decimal: "list_all is_digit (decimal n)"
proof (induction n rule: decimal.induct)
  case (1 n)
  then show ?case by (simp add: decimal.simps [of n])
qed

lemma digits_value_snoc: "digits_value (s @ [c]) = 10 * digits_value s + digit_value c"
  by (simp add: digits_value_def)

lemma digits_value_decimal [text_simps]: "digits_value (decimal n) = n"
proof (induction n rule: decimal.induct)
  case (1 n)
  show ?case
  proof (cases "n < 10")
    case True
    then show ?thesis by (simp add: decimal.simps [of n] digits_value_def)
  next
    case False
    with 1 show ?thesis by (simp add: decimal.simps [of n] digits_value_snoc)
  qed
qed

lemma is_digit_plus: "\<not> is_digit (CHR ''+'')"
  by (simp add: is_digit_def)

lemma parse_unsigned_digits:
  assumes "list_all is_digit s" "s \<noteq> []" "digits_value s < 2 ^ w"
  shows "parse_unsigned w s = Some (digits_value s)"
  using assms is_digit_plus by (cases s) (auto simp: parse_unsigned_def Let_def)

lemma parse_unsigned_decimal [text_simps]: "n < 2 ^ w \<Longrightarrow> parse_unsigned w (decimal n) = Some n"
  using parse_unsigned_digits [of "decimal n" w]
  by (simp add: list_all_is_digit_decimal digits_value_decimal)

section \<open>Splitting, joining, trimming and case\<close>

text \<open>\<open>str::split(char)\<close>: the pieces between the separators, at least one.\<close>

fun split_on :: "char \<Rightarrow> string \<Rightarrow> string list" where
  "split_on c [] = [[]]"
| "split_on c (x # xs) =
     (if x = c then [] # split_on c xs
      else (case split_on c xs of [] \<Rightarrow> [[x]] | p # ps \<Rightarrow> (x # p) # ps))"

fun join :: "string \<Rightarrow> string list \<Rightarrow> string" where
  "join sep [] = []"
| "join sep [p] = p"
| "join sep (p # ps) = p @ sep @ join sep ps"

lemma split_on_not_Nil [simp]: "split_on c s \<noteq> []"
  by (induction s) (auto split: list.splits)

lemma split_on_clean: "c \<notin> set s \<Longrightarrow> split_on c s = [s]"
  by (induction s) auto

lemma split_on_append [text_simps]: "c \<notin> set p \<Longrightarrow> split_on c (p @ c # s) = p # split_on c s"
  by (induction p) auto

lemma split_on_join [text_simps]:
  "ps \<noteq> [] \<Longrightarrow> (\<And>p. p \<in> set ps \<Longrightarrow> c \<notin> set p) \<Longrightarrow> split_on c (join [c] ps) = ps"
proof (induction "[c]" ps rule: join.induct)
  case (3 p q ps)
  then show ?case by (simp add: split_on_append)
qed (auto simp: split_on_clean)

lemma set_split_on: "p \<in> set (split_on c s) \<Longrightarrow> c \<notin> set p"
  by (induction s arbitrary: p) (auto split: if_splits list.splits)

text \<open>\<open>str::split_once\<close>: what stands before and after the first occurrence.\<close>

fun split_once :: "string \<Rightarrow> string \<Rightarrow> (string \<times> string) option" where
  "split_once pat [] = (if pat = [] then Some ([], []) else None)"
| "split_once pat (c # s) =
     (if prefix pat (c # s) then Some ([], drop (length pat) (c # s))
      else map_option (\<lambda>(h, t). (c # h, t)) (split_once pat s))"

lemma split_once_Some: "split_once pat s = Some (h, t) \<Longrightarrow> s = h @ pat @ t"
  by (induction s arbitrary: h) (auto simp: prefix_def split: if_splits)

text \<open>\<open>str::contains\<close>.\<close>

definition contains :: "string \<Rightarrow> string \<Rightarrow> bool" where
  "contains p s \<longleftrightarrow> split_once p s \<noteq> None"

lemma split_once_clean:
  "c \<notin> set a \<Longrightarrow> split_once (c # p) (a @ s) = map_option (\<lambda>(x, y). (a @ x, y)) (split_once (c # p) s)"
proof (induction a)
  case (Cons x a)
  then have "\<not> prefix (c # p) ((x # a) @ s)" by simp
  with Cons show ?case by (simp add: option.map_comp comp_def split_def)
qed (simp add: split_def option.map_ident)

lemma split_once_found: "c \<notin> set a \<Longrightarrow> split_once (c # p) (a @ (c # p) @ s) = Some (a, s)"
  using split_once_clean [of c a p "(c # p) @ s"] by simp

text \<open>The code points of Unicode's White\_Space property, each as its UTF-8 bytes.\<close>

definition white_space :: "string list" where
  "white_space =
     [[CHR 0x20], [CHR 0x09], [CHR 0x0A], [CHR 0x0B], [CHR 0x0C], [CHR 0x0D],
      [CHR 0xC2, CHR 0x85], [CHR 0xC2, CHR 0xA0], [CHR 0xE1, CHR 0x9A, CHR 0x80],
      [CHR 0xE2, CHR 0x80, CHR 0x80], [CHR 0xE2, CHR 0x80, CHR 0x81],
      [CHR 0xE2, CHR 0x80, CHR 0x82], [CHR 0xE2, CHR 0x80, CHR 0x83],
      [CHR 0xE2, CHR 0x80, CHR 0x84], [CHR 0xE2, CHR 0x80, CHR 0x85],
      [CHR 0xE2, CHR 0x80, CHR 0x86], [CHR 0xE2, CHR 0x80, CHR 0x87],
      [CHR 0xE2, CHR 0x80, CHR 0x88], [CHR 0xE2, CHR 0x80, CHR 0x89],
      [CHR 0xE2, CHR 0x80, CHR 0x8A], [CHR 0xE2, CHR 0x80, CHR 0xA8],
      [CHR 0xE2, CHR 0x80, CHR 0xA9], [CHR 0xE2, CHR 0x80, CHR 0xAF],
      [CHR 0xE2, CHR 0x81, CHR 0x9F], [CHR 0xE3, CHR 0x80, CHR 0x80]]"

text \<open>The string without the pieces of \<open>ws\<close> it starts with.\<close>

function strip_front :: "string list \<Rightarrow> string \<Rightarrow> string" where
  "strip_front ws s =
     (case find (\<lambda>w. w \<noteq> [] \<and> prefix w s) ws of
        None \<Rightarrow> s
      | Some w \<Rightarrow> strip_front ws (drop (length w) s))"
  by pat_completeness auto
termination
proof (relation "measure (\<lambda>(ws, s). length s)", goal_cases)
  case (2 ws s w)
  then have "w \<noteq> []" and "prefix w s" by (auto simp: find_Some_iff)
  then show ?case by (cases s) (auto simp: prefix_def)
qed simp

declare strip_front.simps [simp del]

text \<open>\<open>str::trim\<close>.\<close>

definition trim :: "string \<Rightarrow> string" where
  "trim s = rev (strip_front (map rev white_space) (rev (strip_front white_space s)))"

lemma strip_front_blank:
  assumes "strip_front ws s = []"
  shows "\<exists>xs. s = concat xs \<and> set xs \<subseteq> set ws"
  using assms
proof (induction ws s rule: strip_front.induct)
  case (1 ws s)
  show ?case
  proof (cases "find (\<lambda>w. w \<noteq> [] \<and> prefix w s) ws")
    case None
    then have "s = concat []" using 1(2) by (subst (asm) strip_front.simps) simp
    then show ?thesis by (intro exI [of _ "[]"]) simp
  next
    case (Some w)
    then have w: "w \<in> set ws" "prefix w s" by (auto simp: find_Some_iff)
    have "strip_front ws (drop (length w) s) = []" using 1(2) Some by (subst (asm) strip_front.simps) simp
    from 1(1) [OF Some this] obtain xs where "drop (length w) s = concat xs" "set xs \<subseteq> set ws" by blast
    with w show ?thesis by (intro exI [of _ "w # xs"]) (auto simp: prefix_def)
  qed
qed

lemma strip_front_starts:
  assumes "c \<notin> hd ` set ws"
  shows "strip_front ws (c # s) = c # s"
proof -
  have "find (\<lambda>w. w \<noteq> [] \<and> prefix w (c # s)) ws = None"
    using assms by (force simp: find_None_iff prefix_def neq_Nil_conv)
  then show ?thesis by (subst strip_front.simps) simp
qed

lemma hd_concat_mem: "concat xs = c # s \<Longrightarrow> c \<in> hd ` set xs"
proof (induction xs)
  case (Cons x xs)
  then show ?case by (cases x) auto
qed simp

lemma trim_starts:
  assumes "c \<notin> hd ` set white_space"
  shows "trim (c # s) \<noteq> []"
proof
  assume "trim (c # s) = []"
  then have "strip_front (map rev white_space) (rev (c # s)) = []"
    using strip_front_starts [OF assms] by (simp add: trim_def)
  from strip_front_blank [OF this] obtain xs
    where xs: "rev (c # s) = concat xs" "set xs \<subseteq> rev ` set white_space" by auto
  then have "c # s = concat (rev (map rev xs))" by (metis rev_concat rev_map rev_rev_ident)
  from hd_concat_mem [OF this [symmetric]] obtain x where "c = hd (rev x)" "x \<in> set xs" by auto
  with xs(2) assms show False by auto
qed

lemma trim_decimal: "trim (decimal n @ s) \<noteq> []"
proof -
  obtain c r where d: "decimal n = c # r" by (cases "decimal n") simp_all
  have "is_digit c" using list_all_is_digit_decimal [of n] d by simp
  then have "c \<notin> hd ` set white_space" by (auto simp: white_space_def is_digit_def)
  from trim_starts [OF this] show ?thesis by (simp add: d)
qed

text \<open>A text of visible ASCII alone: nothing of it is trimmed.\<close>

definition visible :: "char \<Rightarrow> bool" where
  "visible c \<longleftrightarrow> 33 \<le> (of_char c :: nat) \<and> (of_char c :: nat) \<le> 126"

lemma visible_not_white:
  assumes "visible c"
  shows "c \<notin> hd ` set white_space" "c \<notin> hd ` set (map rev white_space)"
  using assms by (auto simp: white_space_def visible_def)

lemma strip_front_visible:
  "list_all visible s \<Longrightarrow> strip_front white_space s = s"
  "list_all visible s \<Longrightarrow> strip_front (map rev white_space) s = s"
  using strip_front_starts [OF visible_not_white(1)] strip_front_starts [OF visible_not_white(2)]
  by (cases s; simp add: strip_front.simps [of _ "[]"] find_None_iff white_space_def)+

lemma trim_visible [text_simps]: "list_all visible s \<Longrightarrow> trim s = s"
  by (simp add: trim_def strip_front_visible)

definition to_ascii_lower :: "char \<Rightarrow> char" where
  "to_ascii_lower c =
     (if 65 \<le> (of_char c :: nat) \<and> (of_char c :: nat) \<le> 90 then char_of ((of_char c :: nat) + 32) else c)"

definition to_ascii_lowercase :: "string \<Rightarrow> string" where
  "to_ascii_lowercase s = map to_ascii_lower s"

definition eq_ignore_ascii_case :: "string \<Rightarrow> string \<Rightarrow> bool" where
  "eq_ignore_ascii_case a b \<longleftrightarrow> to_ascii_lowercase a = to_ascii_lowercase b"

lemma eq_ignore_ascii_case_refl [simp]: "eq_ignore_ascii_case a a"
  by (simp add: eq_ignore_ascii_case_def)

text \<open>The em dash the evidence lines carry, as its UTF-8 bytes.\<close>

definition em_dash :: string where
  "em_dash = [CHR 0xE2, CHR 0x80, CHR 0x94]"

section \<open>UTF-8\<close>

text \<open>
  \<open>std::str::from_utf8\<close>: where the first ill-formed sequence starts and how many bytes of it are
  wrong, no length where the input ends inside a sequence. The ranges are those of the standard
  library's own table of well-formed sequences.
\<close>

abbreviation byte_in :: "nat \<Rightarrow> nat \<Rightarrow> char \<Rightarrow> bool" where
  "byte_in lo hi c \<equiv> lo \<le> (of_char c :: nat) \<and> (of_char c :: nat) \<le> hi"

definition continuation :: "char \<Rightarrow> bool" where
  "continuation c \<longleftrightarrow> byte_in 0x80 0xBF c"

definition utf8_width :: "char \<Rightarrow> nat" where
  "utf8_width c =
     (if byte_in 0 0x7F c then 1 else if byte_in 0xC2 0xDF c then 2
      else if byte_in 0xE0 0xEF c then 3 else if byte_in 0xF0 0xF4 c then 4 else 0)"

definition second_ok :: "char \<Rightarrow> char \<Rightarrow> bool" where
  "second_ok a b \<longleftrightarrow>
     (if a = CHR 0xE0 then byte_in 0xA0 0xBF b
      else if a = CHR 0xED then byte_in 0x80 0x9F b
      else if a = CHR 0xF0 then byte_in 0x90 0xBF b
      else if a = CHR 0xF4 then byte_in 0x80 0x8F b
      else continuation b)"

function utf8_error :: "nat \<Rightarrow> bytes \<Rightarrow> (nat \<times> nat option) option" where
  "utf8_error i [] = None"
| "utf8_error i (a # s) =
     (let w = utf8_width a in
      if w = 1 then utf8_error (i + 1) s
      else if w = 0 then Some (i, Some 1)
      else (case s of
          [] \<Rightarrow> Some (i, None)
        | b # s1 \<Rightarrow>
            if \<not> second_ok a b then Some (i, Some 1)
            else if w = 2 then utf8_error (i + 2) s1
            else (case s1 of
                [] \<Rightarrow> Some (i, None)
              | c # s2 \<Rightarrow>
                  if \<not> continuation c then Some (i, Some 2)
                  else if w = 3 then utf8_error (i + 3) s2
                  else (case s2 of
                      [] \<Rightarrow> Some (i, None)
                    | d # s3 \<Rightarrow>
                        if \<not> continuation d then Some (i, Some 3)
                        else utf8_error (i + 4) s3))))"
  by pat_completeness auto
termination by (relation "measure (\<lambda>(i, s). length s)") auto

text \<open>What \<open>Utf8Error\<close> displays.\<close>

definition utf8_error_text :: "nat \<times> nat option \<Rightarrow> string" where
  "utf8_error_text e =
     (case snd e of
        Some n \<Rightarrow> ''invalid utf-8 sequence of '' @ decimal n @ '' bytes from index '' @ decimal (fst e)
      | None \<Rightarrow> ''incomplete utf-8 byte sequence from index '' @ decimal (fst e))"

definition ascii :: "bytes \<Rightarrow> bool" where
  "ascii s \<longleftrightarrow> list_all (byte_in 0 0x7F) s"

lemma ascii_Nil [simp]: "ascii []"
  and ascii_Cons [simp]: "ascii (c # s) \<longleftrightarrow> byte_in 0 0x7F c \<and> ascii s"
  and ascii_append [simp]: "ascii (s @ t) \<longleftrightarrow> ascii s \<and> ascii t"
  by (auto simp: ascii_def)

lemma utf8_error_ascii: "ascii s \<Longrightarrow> utf8_error i s = None"
  by (induction s arbitrary: i) (auto simp: utf8_width_def)

lemma ascii_digits: "list_all is_digit s \<Longrightarrow> ascii s"
  by (induction s) (auto simp: is_digit_def)

section \<open>Positions in a list\<close>

text \<open>\<open>Iterator::position\<close>.\<close>

fun position :: "('a \<Rightarrow> bool) \<Rightarrow> 'a list \<Rightarrow> nat option" where
  "position P [] = None"
| "position P (x # xs) = (if P x then Some 0 else map_option Suc (position P xs))"

lemma position_None: "position P xs = None \<longleftrightarrow> (\<forall>x\<in>set xs. \<not> P x)"
  by (induction xs) auto

lemma position_Some:
  "position P xs = Some i \<Longrightarrow> i < length xs \<and> P (xs ! i) \<and> (\<forall>j<i. \<not> P (xs ! j))"
  by (induction xs arbitrary: i) (auto simp: less_Suc_eq_0_disj split: if_splits)

lemma position_distinct:
  "distinct xs \<Longrightarrow> i < length xs \<Longrightarrow> position (\<lambda>x. x = xs ! i) xs = Some i"
proof (induction xs arbitrary: i)
  case (Cons x xs)
  then show ?case by (cases i) auto
qed simp

section \<open>Ordered maps\<close>

type_synonym ('k, 'v) btree = "('k \<times> 'v) list"

definition btree_get :: "('k, 'v) btree \<Rightarrow> 'k \<Rightarrow> 'v option" where
  "btree_get m k = map_of m k"

fun btree_insert :: "'k::linorder \<Rightarrow> 'v \<Rightarrow> ('k, 'v) btree \<Rightarrow> ('k, 'v) btree" where
  "btree_insert k v [] = [(k, v)]"
| "btree_insert k v ((k', v') # m) =
     (if k < k' then (k, v) # (k', v') # m
      else if k = k' then (k, v) # m
      else (k', v') # btree_insert k v m)"

text \<open>\<open>*m.entry(k).or_insert(d) = f(that)\<close>: the value under \<open>k\<close>, or \<open>d\<close>, changed by \<open>f\<close>.\<close>

definition btree_upsert ::
    "'k::linorder \<Rightarrow> 'v \<Rightarrow> ('v \<Rightarrow> 'v) \<Rightarrow> ('k, 'v) btree \<Rightarrow> ('k, 'v) btree" where
  "btree_upsert k d f m = btree_insert k (f (case btree_get m k of None \<Rightarrow> d | Some v \<Rightarrow> v)) m"

definition btree_wf :: "('k::linorder, 'v) btree \<Rightarrow> bool" where
  "btree_wf m \<longleftrightarrow> sorted_wrt (<) (map fst m)"

lemma btree_get_Nil [store_simps]: "btree_get [] k = None"
  by (simp add: btree_get_def)

lemma btree_get_insert [store_simps]:
  "btree_get (btree_insert k v m) k' = (if k' = k then Some v else btree_get m k')"
  unfolding btree_get_def by (induction k v m rule: btree_insert.induct) auto

lemma fst_set_btree_insert: "fst ` set (btree_insert k v m) = insert k (fst ` set m)"
  by (induction k v m rule: btree_insert.induct) auto

lemma btree_wf_Nil [simp]: "btree_wf []"
  by (simp add: btree_wf_def)

lemma btree_wf_insert: "btree_wf m \<Longrightarrow> btree_wf (btree_insert k v m)"
proof (induction k v m rule: btree_insert.induct)
  case (2 k v k' v' m)
  have "set (map fst (btree_insert k v m)) = insert k (set (map fst m))"
    using fst_set_btree_insert [of k v m] by simp
  with 2 show ?case by (auto simp: btree_wf_def)
qed (simp add: btree_wf_def)

lemma btree_wf_distinct: "btree_wf m \<Longrightarrow> distinct (map fst m)"
  by (simp add: btree_wf_def strict_sorted_iff)

lemma btree_get_upsert [store_simps]:
  "btree_get (btree_upsert k d f m) k' =
     (if k' = k then Some (f (case btree_get m k of None \<Rightarrow> d | Some v \<Rightarrow> v)) else btree_get m k')"
  by (simp add: btree_upsert_def btree_get_insert)

lemma btree_wf_upsert: "btree_wf m \<Longrightarrow> btree_wf (btree_upsert k d f m)"
  by (simp add: btree_upsert_def btree_wf_insert)

lemma btree_get_iff: "btree_wf m \<Longrightarrow> btree_get m k = Some v \<longleftrightarrow> (k, v) \<in> set m"
  by (simp add: btree_get_def btree_wf_distinct)

lemma sum_btree_insert:
  fixes f :: "'v \<Rightarrow> nat"
  assumes "btree_wf m"
  shows "sum_list (map (\<lambda>x. f (snd x)) (btree_insert k v m)) + (case btree_get m k of None \<Rightarrow> 0 | Some w \<Rightarrow> f w)
    = sum_list (map (\<lambda>x. f (snd x)) m) + f v"
  using assms by (induction k v m rule: btree_insert.induct)
    (auto simp: btree_get_def btree_wf_def split: option.splits dest!: map_of_SomeD)

text \<open>A counter under each key: one more is one more of the sum.\<close>

lemma sum_btree_upsert:
  fixes f :: "'v \<Rightarrow> nat"
  assumes "btree_wf m" "f d = 0" "\<And>v. f (g v) = Suc (f v)"
  shows "sum_list (map (\<lambda>x. f (snd x)) (btree_upsert k d g m)) = Suc (sum_list (map (\<lambda>x. f (snd x)) m))"
  using sum_btree_insert [OF assms(1), of f k "g (case btree_get m k of None \<Rightarrow> d | Some v \<Rightarrow> v)"] assms(2,3)
  by (simp add: btree_upsert_def split: option.splits)

definition btree_remove :: "'k \<Rightarrow> ('k, 'v) btree \<Rightarrow> ('k, 'v) btree" where
  "btree_remove k m = filter (\<lambda>(k', _). k' \<noteq> k) m"

lemma btree_get_remove [store_simps]:
  "btree_get (btree_remove k m) k' = (if k' = k then None else btree_get m k')"
  unfolding btree_get_def btree_remove_def by (induction m) auto

lemma btree_wf_remove: "btree_wf m \<Longrightarrow> btree_wf (btree_remove k m)"
  unfolding btree_wf_def btree_remove_def
  by (induction m) (auto split: if_splits)

subsection \<open>Accumulating under keys\<close>

text \<open>
  The interface the ledger, the standings, the hops and the judgments rely on: a store whose
  \<open>upsert\<close> changes the value under one key and leaves the others. What a store holds after a
  sequence of updates is then, key by key, the updates of that key alone, in their order.
\<close>

locale accumulating_store =
  fixes get :: "'m \<Rightarrow> 'k \<Rightarrow> 'v option"
    and upsert :: "'k \<Rightarrow> 'v \<Rightarrow> ('v \<Rightarrow> 'v) \<Rightarrow> 'm \<Rightarrow> 'm"
    and wf :: "'m \<Rightarrow> bool"
  assumes get_upsert: "get (upsert k d f m) k' =
      (if k' = k then Some (f (case get m k of None \<Rightarrow> d | Some v \<Rightarrow> v)) else get m k')"
    and wf_upsert: "wf m \<Longrightarrow> wf (upsert k d f m)"
begin

lemma get_fold_upsert:
  "get (fold (\<lambda>u. upsert (key u) d (act u)) us m) k =
     (case filter (\<lambda>u. key u = k) us of
        [] \<Rightarrow> get m k
      | vs \<Rightarrow> Some (fold act vs (case get m k of None \<Rightarrow> d | Some v \<Rightarrow> v)))"
  by (induction us arbitrary: m) (auto simp: get_upsert split: list.splits)

lemma wf_fold_upsert: "wf m \<Longrightarrow> wf (fold (\<lambda>u. upsert (key u) d (act u)) us m)"
  by (induction us arbitrary: m) (auto simp: wf_upsert)

lemma get_fold_other:
  "(\<And>u. u \<in> set us \<Longrightarrow> key u \<noteq> k) \<Longrightarrow> get (fold (\<lambda>u. upsert (key u) d (act u)) us m) k = get m k"
  by (induction us arbitrary: m) (auto simp: get_upsert)

end

interpretation bt: accumulating_store
  "btree_get :: ('k::linorder, 'v) btree \<Rightarrow> 'k \<Rightarrow> 'v option" btree_upsert btree_wf
  by unfold_locales (simp_all add: btree_get_upsert btree_wf_upsert)

end
