(* ===== verification/Estate.thy ===== *)
theory Estate
  imports Prelude "HOL-Library.Product_Lexorder"
begin

text \<open>
  What the sources use of the estate's other crates, which are not part of this repository. Their
  data is what the sources construct and match on: the seven states of \<open>observe::Health\<close> are the
  arms of \<open>board::word\<close>, the three of \<open>node::Stage\<close> the arms of \<open>ledger::item_kind\<close>, and the fields
  of a record are those the sources fill. Their functions are parameters: the records below are
  handed to the definitions that call them, and a property that relies on what one of them does
  says so as a hypothesis, one of the predicates of this theory.
\<close>

section \<open>The message path\<close>

datatype stage = Receive | Process | Send

text \<open>Stages are ordered as the message path runs.\<close>

fun stage_rank :: "stage \<Rightarrow> nat" where
  "stage_rank Receive = 0"
| "stage_rank Process = 1"
| "stage_rank Send = 2"

instantiation stage :: linorder
begin

definition less_eq_stage :: "stage \<Rightarrow> stage \<Rightarrow> bool" where
  "less_eq_stage a b \<longleftrightarrow> stage_rank a \<le> stage_rank b"

definition less_stage :: "stage \<Rightarrow> stage \<Rightarrow> bool" where
  "less_stage a b \<longleftrightarrow> stage_rank a < stage_rank b"

instance
proof
  fix a b :: stage
  show "a \<le> b \<Longrightarrow> b \<le> a \<Longrightarrow> a = b"
    by (cases a; cases b) (simp_all add: less_eq_stage_def)
qed (auto simp: less_eq_stage_def less_stage_def)

end

record node_api =
  stage_name :: "stage \<Rightarrow> string"
  stage_all :: "stage list"
  stage_next :: "stage \<Rightarrow> stage option"

text \<open>
  What \<open>node::Stage\<close> documents: every stage once in \<open>ALL\<close>, in the order of the message path, each
  with a name of its own that is one word of a scope, and the next stage of each.
\<close>

definition path_word :: "string \<Rightarrow> bool" where
  "path_word s \<longleftrightarrow> s \<noteq> [] \<and> list_all (\<lambda>c. c \<noteq> CHR ''/'' \<and> c \<noteq> CHR '' '' \<and> c \<noteq> CHR 0x0A) s"

definition message_path :: "node_api \<Rightarrow> bool" where
  "message_path N \<longleftrightarrow>
     stage_all N = [Receive, Process, Send] \<and>
     stage_name N Receive \<noteq> stage_name N Process \<and>
     stage_name N Receive \<noteq> stage_name N Send \<and>
     stage_name N Process \<noteq> stage_name N Send \<and>
     (\<forall>s. path_word (stage_name N s)) \<and>
     stage_next N Receive = Some Process \<and> stage_next N Process = Some Send \<and>
     stage_next N Send = None"

text \<open>The names the scopes of the repository's own documentation show.\<close>

definition documented_node :: node_api where
  "documented_node =
     \<lparr>stage_name = (\<lambda>s. case s of Receive \<Rightarrow> ''receive'' | Process \<Rightarrow> ''process'' | Send \<Rightarrow> ''send''),
      stage_all = [Receive, Process, Send],
      stage_next = (\<lambda>s. case s of Receive \<Rightarrow> Some Process | Process \<Rightarrow> Some Send | Send \<Rightarrow> None)\<rparr>"

lemma message_path_documented: "message_path documented_node"
  by (auto simp: message_path_def documented_node_def path_word_def split: stage.splits)

lemma message_path_all: "message_path N \<Longrightarrow> stage_all N = [Receive, Process, Send]"
  by (simp add: message_path_def)

lemma message_path_names: "message_path N \<Longrightarrow> stage_name N s = stage_name N t \<longleftrightarrow> s = t"
  by (cases s; cases t) (auto simp: message_path_def)

section \<open>What is observed\<close>

datatype health = Fine | Paused | Working | Stressed | Exhausted | Holding | Done

record health_record =
  hr_scope :: string
  hr_health :: health
  hr_severity :: nat
  hr_evidence :: string
  hr_observed :: int

datatype counted = Counted_Streams | Counted_Journeys | Counted_Messages | Counted_Bytes
  | Counted_Failed

record count_record =
  cr_scope :: string
  cr_counted :: counted
  cr_value :: nat
  cr_observed :: int

text \<open>
  A snapshot is the calls made on it, oldest first: \<open>observe::Snapshot\<close> is built by them and read
  through the functions below, which are its own.
\<close>

datatype recording = RecordHealth health_record | RecordCount count_record

type_synonym snapshot = "recording list"

record observe_api =
  health_records :: "snapshot \<Rightarrow> health_record list"
  health_under :: "snapshot \<Rightarrow> string \<Rightarrow> health_record list"
  worst_under :: "snapshot \<Rightarrow> string \<Rightarrow> health option"
  counted_at :: "stage \<Rightarrow> counted"

definition recorded :: "snapshot \<Rightarrow> health_record list" where
  "recorded s = concat (map (\<lambda>r. case r of RecordHealth h \<Rightarrow> [h] | RecordCount _ \<Rightarrow> []) s)"

text \<open>A snapshot's health records carry the scopes that were recorded into it, and no other.\<close>

definition records_scopes :: "observe_api \<Rightarrow> bool" where
  "records_scopes O' \<longleftrightarrow> (\<forall>s. hr_scope ` set (health_records O' s) = hr_scope ` set (recorded s))"

lemma recorded_Nil [simp]: "recorded [] = []"
  and recorded_append [simp]: "recorded (s @ t) = recorded s @ recorded t"
  and recorded_health [simp]: "recorded (RecordHealth h # s) = h # recorded s"
  and recorded_count [simp]: "recorded (RecordCount c # s) = recorded s"
  by (simp_all add: recorded_def)

lemma recorded_map_health [simp]: "recorded (map (\<lambda>x. RecordHealth (f x)) xs) = map f xs"
  by (induction xs) auto

lemma recorded_map_count [simp]: "recorded (map (\<lambda>x. RecordCount (f x)) xs) = []"
  by (induction xs) auto

end
