(* ===== verification/Verdict.thy ===== *)
theory Verdict
  imports Estate
begin

text \<open>
  The content contracts, what one round concludes of a pair and how it becomes health
  (\<open>src/verdict.rs\<close>), and the contracts' own checks (\<open>src/contracts.rs\<close>). The contract technologies
  and the wire encoders are other crates; they are parameters here.
\<close>

section \<open>Contracts\<close>

datatype contract = Bytes | Text | Json | Xml | Html | Csv | FixedWidth | Edifact | Regex
  | Schematron | Hl7v2 | Fhir | X12 | Avro | GraphqlSchema | Protobuf | Wsdl | OpenApi
  | AsyncApi | Sql

fun contract_name :: "contract \<Rightarrow> string" where
  "contract_name Bytes = ''bytes''"
| "contract_name Text = ''text''"
| "contract_name Json = ''json''"
| "contract_name Xml = ''xml''"
| "contract_name Html = ''html''"
| "contract_name Csv = ''csv''"
| "contract_name FixedWidth = ''fixed-width''"
| "contract_name Edifact = ''edi-edifact''"
| "contract_name Regex = ''regex''"
| "contract_name Schematron = ''schematron''"
| "contract_name Hl7v2 = ''hl7-v2''"
| "contract_name Fhir = ''fhir''"
| "contract_name X12 = ''edi-x12''"
| "contract_name Avro = ''avro''"
| "contract_name GraphqlSchema = ''graphql-schema''"
| "contract_name Protobuf = ''protobuf''"
| "contract_name Wsdl = ''wsdl''"
| "contract_name OpenApi = ''openapi''"
| "contract_name AsyncApi = ''asyncapi''"
| "contract_name Sql = ''sql''"

definition CONTRACTS :: "contract list" where
  "CONTRACTS = [Bytes, Text, Json, Xml, Html, Csv, FixedWidth, Edifact, Regex, Schematron, Hl7v2,
     Fhir, X12, Avro, GraphqlSchema, Protobuf, Wsdl, OpenApi, AsyncApi, Sql]"

definition file_name :: "contract \<Rightarrow> nat \<Rightarrow> string" where
  "file_name c number = contract_name c @ ''-'' @ decimal number"

fun representation :: "contract \<Rightarrow> string" where
  "representation Bytes = ''application/octet-stream''"
| "representation Text = ''text/plain''"
| "representation FixedWidth = ''text/plain''"
| "representation Regex = ''text/plain''"
| "representation Json = ''application/json''"
| "representation Xml = ''application/xml''"
| "representation Schematron = ''application/xml''"
| "representation Html = ''text/html''"
| "representation Csv = ''text/csv''"
| "representation Edifact = ''application/EDIFACT''"
| "representation Hl7v2 = ''x-application/hl7-v2+er7''"
| "representation Fhir = ''application/fhir+json''"
| "representation X12 = ''application/EDI-X12''"
| "representation Avro = ''application/avro''"
| "representation GraphqlSchema = ''application/graphql''"
| "representation Protobuf = ''application/protobuf''"
| "representation Wsdl = ''application/wsdl+xml''"
| "representation OpenApi = ''application/vnd.oai.openapi+json''"
| "representation AsyncApi = ''application/vnd.aai.asyncapi+json''"
| "representation Sql = ''application/sql''"

lemma set_CONTRACTS: "c \<in> set CONTRACTS"
  by (cases c) (simp_all add: CONTRACTS_def)

lemma distinct_CONTRACTS: "distinct CONTRACTS"
  by (simp add: CONTRACTS_def)

lemma length_CONTRACTS [simp]: "length CONTRACTS = 20"
  by (simp add: CONTRACTS_def)

lemma distinct_contract_names: "distinct (map contract_name CONTRACTS)"
  by (simp add: CONTRACTS_def)

lemma contract_name_inj: "contract_name c = contract_name d \<longleftrightarrow> c = d"
  using distinct_contract_names set_CONTRACTS by (auto simp: distinct_map dest: inj_onD)

lemma contract_name_word: "path_word (contract_name c) \<and> ascii (contract_name c)"
  by (cases c) (simp_all add: path_word_def ascii_def)

text \<open>The one lookup of a contract by its name: \<open>CONTRACTS.into_iter().find(\<dots>)\<close>.\<close>

definition contract_named :: "string \<Rightarrow> contract option" where
  "contract_named name = find (\<lambda>c. contract_name c = name) CONTRACTS"

lemma contract_named_name [simp]: "contract_named (contract_name c) = Some c"
  by (cases c) (simp_all add: contract_named_def CONTRACTS_def)

lemma contract_named_Some: "contract_named name = Some c \<longleftrightarrow> name = contract_name c"
proof
  assume "contract_named name = Some c"
  then show "name = contract_name c" by (auto simp: contract_named_def find_Some_iff)
qed simp

section \<open>Streams and their validation\<close>

record stream =
  st_bytes :: bytes
  st_media_type :: "string option"

record validation_result =
  vr_valid :: bool
  vr_issues :: "string list"

text \<open>
  The contract technologies: each contract's own validator, an error in words or a result, and
  the message \<open>ValidationIssue::malformed\<close> gives an issue.
\<close>

record contract_api =
  technology :: "contract \<Rightarrow> bytes \<Rightarrow> string + validation_result"
  malformed :: "string \<Rightarrow> string"

definition has_markup :: "contract_api \<Rightarrow> bytes \<Rightarrow> string list" where
  "has_markup C bs =
     (case utf8_error 0 bs of
        None \<Rightarrow> if CHR ''<'' \<in> set bs \<and> CHR ''>'' \<in> set bs then []
                else [malformed C ''no HTML markup found'']
      | Some e \<Rightarrow> [malformed C (''not valid UTF-8: '' @ utf8_error_text e)])"

definition check :: "contract_api \<Rightarrow> contract \<Rightarrow> bytes \<Rightarrow> string list" where
  "check C c bs =
     (case c of
        Text \<Rightarrow> (case utf8_error 0 bs of
            None \<Rightarrow> []
          | Some e \<Rightarrow> [malformed C (''not valid UTF-8: '' @ utf8_error_text e)])
      | Html \<Rightarrow> has_markup C bs
      | _ \<Rightarrow> [])"

definition identify :: "contract \<Rightarrow> stream \<Rightarrow> bool" where
  "identify c st \<longleftrightarrow> st_media_type st = Some (representation c)"

definition content_validate :: "contract_api \<Rightarrow> contract \<Rightarrow> stream \<Rightarrow> string + validation_result" where
  "content_validate C c st =
     (if c \<in> {Bytes, Text, Html}
      then let issues = check C c (st_bytes st) in Inr \<lparr>vr_valid = (issues = []), vr_issues = issues\<rparr>
      else technology C c (st_bytes st))"

definition contract_validate :: "contract_api \<Rightarrow> contract \<Rightarrow> stream \<Rightarrow> string + unit" where
  "contract_validate C c arrived =
     (if \<not> identify c arrived then Inl ''the arrived Stream is not this contract's''
      else (case content_validate C c arrived of
          Inr r \<Rightarrow> if vr_valid r then Inr ()
                   else Inl (case vr_issues r of [] \<Rightarrow> ''invalid'' | i # _ \<Rightarrow> i)
        | Inl e \<Rightarrow> Inl (''validation failed: '' @ e)))"

section \<open>Verdicts\<close>

datatype outcome = Delivered | OneSided string | Failed string

record verdict =
  v_stage :: stage
  v_transport :: string
  v_contract :: contract
  v_outcome :: outcome
  v_bytes :: nat
  v_point :: "string option"
  v_observed :: int

definition verdict_scope :: "node_api \<Rightarrow> string \<Rightarrow> verdict \<Rightarrow> string" where
  "verdict_scope N node v =
     (let base = node @ ''/'' @ stage_name N (v_stage v) @ ''/'' @ v_transport v @ ''/''
                 @ contract_name (v_contract v) in
      case v_point v of Some point \<Rightarrow> base @ ''/'' @ point | None \<Rightarrow> base)"

definition verdict_health :: "node_api \<Rightarrow> string \<Rightarrow> verdict \<Rightarrow> health_record" where
  "verdict_health N node v =
     (let (h, sev, ev) =
        (case v_outcome v of
           Delivered \<Rightarrow> (Fine, 0, decimal (v_bytes v) @ '' bytes out and back'')
         | OneSided why \<Rightarrow> (Stressed, 40, why)
         | Failed why \<Rightarrow> (Done, 90, why)) in
      \<lparr>hr_scope = verdict_scope N node v, hr_health = h, hr_severity = sev, hr_evidence = ev,
       hr_observed = v_observed v\<rparr>)"

end
