(* ===== verification/Payload.thy ===== *)
theory Payload
  imports Verdict
begin

text \<open>
  The payloads the tests send: each contract's probe (\<open>src/verdict.rs\<close>) and the large, valid
  documents of each contract's shape (\<open>src/heavy_load/payload.rs\<close>). A loop that pads a document to
  its size is \<open>grow\<close>: it appends a non-empty unit while the text is short of its goal, and counts
  the units. The protobuf and Avro encoders are other crates' and are the record \<open>codec_api\<close>.
\<close>

section \<open>The encoders of other crates\<close>

record codec_api =
  encode_tag_varint :: "nat \<Rightarrow> bytes"
  varint_encode :: "nat \<Rightarrow> bytes"
  encode_delimited :: "nat \<Rightarrow> bytes \<Rightarrow> bytes"
  encode_long :: "nat \<Rightarrow> bytes"
  encode_string :: "bytes \<Rightarrow> bytes"
  container_write :: "bytes \<Rightarrow> bytes list \<Rightarrow> bytes"

text \<open>
  What the wire formats say of lengths: a delimited field is at least a tag byte, a length byte and
  its text, an Avro long is at least a byte, an Avro string at least a length byte and its text, and
  a container holds every datum it was given.
\<close>

definition codec_sizes :: "codec_api \<Rightarrow> bool" where
  "codec_sizes W \<longleftrightarrow>
     (\<forall>n s. length s + 2 \<le> length (encode_delimited W n s)) \<and>
     (\<forall>n. 1 \<le> length (encode_long W n)) \<and>
     (\<forall>s. length s + 1 \<le> length (encode_string W s)) \<and>
     (\<forall>schema ds. sum_list (map length ds) \<le> length (container_write W schema ds))"

section \<open>Probes\<close>

definition WSDL_PROBE :: string where
  \<open>WSDL_PROBE =
     ''<definitions name="Probe" targetNamespace="urn:probe" xmlns:tns="urn:p''
     @ ''robe" xmlns="http://schemas.xmlsoap.org/wsdl/"><message name="PingIn"/''
     @ ''><portType name="ProbePort"><operation name="Ping"><input message="tns''
     @ '':PingIn"/></operation></portType><binding name="ProbeSoap" type="tns:P''
     @ ''robePort"/><service name="ProbeService"><port name="Probe" binding="tn''
     @ ''s:ProbeSoap"/></service></definitions>''\<close>

definition OPENAPI_PROBE :: string where
  \<open>OPENAPI_PROBE =
     ''{"openapi":"3.0.3","info":{"title":"Probe","version":"1"},"paths":{"/p''
     @ ''ing":{"post":{"operationId":"ping","responses":{"200":{"description":"''
     @ ''pong"}}}}}}''\<close>

definition ASYNCAPI_PROBE :: string where
  \<open>ASYNCAPI_PROBE =
     ''{"asyncapi":"2.6.0","info":{"title":"Probe","version":"1"},"channels":''
     @ ''{"probe/ping":{"subscribe":{"message":{"payload":{"type":"string"}}}}}''
     @ ''}''\<close>

definition AVRO_SCHEMA :: string where
  \<open>AVRO_SCHEMA =
     ''{"type":"record","name":"Probe","namespace":"xmip","fields":[{"name":"''
     @ ''n","type":"int"},{"name":"s","type":"string"}]}''\<close>

definition HL7_PROBE :: string where
  \<open>HL7_PROBE =
     ''MSH|^~''
     @ [CHR 0x5C]
     @ ''&|LAB|HOSP|EMR|CLINIC|20260908103000||ADT^A01|PROBE1|P|2.5''
     @ [CHR 0x0D]
     @ ''PID|1||123456^^^HOSP^MR||DOE^JOHN||19800101|M''\<close>

definition X12_PROBE :: string where
  \<open>X12_PROBE =
     ''ISA*00*          *00*          *ZZ*SENDER         *ZZ*RECEIVER       *''
     @ ''260908*1030*U*00401*000000001*0*P*>~GS*PO*SENDER*RECEIVER*20260908*103''
     @ ''0*1*X*004010~ST*850*0001~BEG*00*SA*PO4711**20260908~PO1*1*2*EA*10.00**''
     @ ''VP*X001~SE*4*0001~GE*1*1~IEA*1*000000001~''\<close>

definition EDIFACT_PROBE :: string where
  \<open>EDIFACT_PROBE =
     ''UNA:+.? 'UNB+UNOC:3+SENDER+RECEIVER+260907:1345+REF001'UNH+1+ORDERS:D:''
     @ ''96A:UN'BGM+220+PO4711'DTM+137:20260907:102'LIN+1++X001:SA'QTY+21:2'UNT''
     @ ''+6+1'UNZ+1+REF001'' @ [CHR 0x27]\<close>

definition protobuf_message :: "codec_api \<Rightarrow> nat \<Rightarrow> string \<Rightarrow> bytes" where
  "protobuf_message W n text =
     encode_tag_varint W 1 @ varint_encode W 1 @ encode_delimited W 2 ''round-trip''
     @ concat (map (\<lambda>_. encode_delimited W 3 text) [0..<n])"

definition avro_container :: "codec_api \<Rightarrow> nat \<Rightarrow> string \<Rightarrow> bytes" where
  "avro_container W n text =
     container_write W AVRO_SCHEMA (map (\<lambda>i. encode_long W i @ encode_string W text) [0..<n])"

definition contract_payload :: "codec_api \<Rightarrow> contract \<Rightarrow> bytes" where
  \<open>contract_payload W c =
     (case c of
        Bytes \<Rightarrow> [CHR 0x00, CHR 0x01, CHR 0x02, CHR 0xFD, CHR 0xFE, CHR 0xFF]
      | Text \<Rightarrow> ''xmip round-trip''
      | Json \<Rightarrow> ''{"probe":"round-trip","n":1}''
      | Xml \<Rightarrow> ''<probe><n>1</n>round-trip</probe>''
      | Html \<Rightarrow> ''<!doctype html><title>xmip</title><p>round-trip''
      | Csv \<Rightarrow> ''probe,n'' @ [CHR 0x0D, CHR 0x0A] @ ''"ping,pong",1''
      | FixedWidth \<Rightarrow> ''A00001ACME      02'' @ [CHR 0x0D, CHR 0x0A] @ ''A00002BOLT      01''
      | Edifact \<Rightarrow> EDIFACT_PROBE
      | Regex \<Rightarrow> ''PROBE-4711 round-trip''
      | Schematron \<Rightarrow> ''<probe xmlns="urn:xmip:probe"><n>1</n></probe>''
      | Hl7v2 \<Rightarrow> HL7_PROBE
      | Fhir \<Rightarrow> ''{"resourceType":"Patient","id":"probe-1"}''
      | X12 \<Rightarrow> X12_PROBE
      | Avro \<Rightarrow> avro_container W 1 ''round-trip''
      | GraphqlSchema \<Rightarrow> ''query Probe { probe(n: 1) { id ping } }''
      | Protobuf \<Rightarrow> protobuf_message W 1 ''round-trip''
      | Wsdl \<Rightarrow> WSDL_PROBE
      | OpenApi \<Rightarrow> OPENAPI_PROBE
      | AsyncApi \<Rightarrow> ASYNCAPI_PROBE
      | Sql \<Rightarrow> ''INSERT INTO probe (n, ping) VALUES (1, '' @ [CHR 0x27] @ ''round-trip''
               @ [CHR 0x27] @ '');'')\<close>

definition contract_stream :: "codec_api \<Rightarrow> contract \<Rightarrow> stream" where
  "contract_stream W c =
     \<lparr>st_bytes = contract_payload W c, st_media_type = Some (representation c)\<rparr>"

section \<open>Padding loops\<close>

text \<open>
  \<open>while out.len() < goal { out.push_str(unit(n)); n += 1 }\<close>, the unit given as its first character
  and the rest, so it is never empty and the loop ends. It returns the text and the count.
\<close>

function grow :: "(nat \<Rightarrow> char \<times> string) \<Rightarrow> nat \<Rightarrow> nat \<Rightarrow> string \<Rightarrow> string \<times> nat" where
  "grow unit goal n out =
     (if length out < goal
      then grow unit goal (Suc n) (out @ fst (unit n) # snd (unit n))
      else (out, n))"
  by pat_completeness auto
termination by (relation "measure (\<lambda>(unit, goal, n, out). goal - length out)") auto

declare grow.simps [simp del]

definition every :: "string \<Rightarrow> nat \<Rightarrow> char \<times> string" where
  "every s n = (hd s, tl s)"

definition filler :: "nat \<Rightarrow> bytes" where
  "filler n = map (\<lambda>i. char_of (i mod 256)) [0..<n]"

definition repeat_to :: "string \<Rightarrow> nat \<Rightarrow> string" where
  "repeat_to unit target = fst (grow (every unit) target 0 [])"

definition wrap_to :: "string \<Rightarrow> string \<Rightarrow> string \<Rightarrow> nat \<Rightarrow> bytes" where
  "wrap_to open unit close target =
     fst (grow (every unit) (target - length close) 0 (open @ unit)) @ close"

definition lines_to :: "string \<Rightarrow> string \<Rightarrow> nat \<Rightarrow> bytes" where
  "lines_to first unit target =
     fst (grow (every ([CHR 0x0D, CHR 0x0A] @ unit)) target 0 first)"

definition large_x12 :: "nat \<Rightarrow> bytes" where
  "large_x12 target =
     (case split_once ''SE*4*0001~'' X12_PROBE of
        Some (head, _) \<Rightarrow>
          let (body, n) = grow (every ''MSG*heavy~'') target 0 head; segments = 3 + n + 1
          in body @ ''SE*'' @ decimal segments @ ''*0001~GE*1*1~IEA*1*000000001~''
      | None \<Rightarrow> undefined)"

definition large_hl7 :: "nat \<Rightarrow> bytes" where
  "large_hl7 target = fst (grow (every ([CHR 0x0D] @ ''NTE|1||heavy'')) target 0 HL7_PROBE)"

definition edifact_head :: string where
  "edifact_head =
     ''UNA:+.? 'UNB+UNOC:3+SENDER+RECEIVER+260907:1345+REF001'UNH+1+ORDERS:D:96A:UN'BGM+220+PO4711''
     @ [CHR 0x27]"

definition large_edifact :: "nat \<Rightarrow> bytes" where
  "large_edifact target =
     (let (body, n) = grow (every (''FTX+AAI+++heavy'' @ [CHR 0x27])) target 0 edifact_head;
          segments = 2 + n + 1
      in body @ ''UNT+'' @ decimal segments @ ''+1'UNZ+1+REF001'' @ [CHR 0x27])"

definition large_json :: "nat \<Rightarrow> bytes" where
  \<open>large_json target =
     fst (grow (\<lambda>n. (CHR '','', decimal n)) target 1 ''{"probe":"heavy","n":[0'') @ '']}''\<close>

definition large_wsdl :: "nat \<Rightarrow> bytes" where
  \<open>large_wsdl target =
     (case split_once ''<portType'' WSDL_PROBE of
        Some (head, tl') \<Rightarrow>
          fst (grow (\<lambda>n. (CHR ''<'', ''message name="M'' @ decimal n @ ''"/>''))
                 (target - length tl') 0 head)
          @ ''<portType'' @ tl'
      | None \<Rightarrow> undefined)\<close>

definition comma_first :: "string \<Rightarrow> nat \<Rightarrow> char \<times> string" where
  "comma_first s n = (if n > 0 then (CHR '','', s) else (hd s, tl s))"

definition large_openapi :: "nat \<Rightarrow> bytes" where
  \<open>large_openapi target =
     fst (grow (\<lambda>n. comma_first (''"/p'' @ decimal n
              @ ''":{"get":{"responses":{"200":{"description":"ok"}}}}'') n) target 0
            ''{"openapi":"3.0.3","info":{"title":"Heavy","version":"1"},"paths":{'')
     @ ''}}''\<close>

definition large_asyncapi :: "nat \<Rightarrow> bytes" where
  \<open>large_asyncapi target =
     fst (grow (\<lambda>n. comma_first (''"c/'' @ decimal n
              @ ''":{"subscribe":{"message":{"name":"m"}}}'') n) target 0
            ''{"asyncapi":"2.6.0","info":{"title":"Heavy","version":"1"},"channels":{'')
     @ ''}}''\<close>

definition large_payload :: "codec_api \<Rightarrow> contract \<Rightarrow> nat \<Rightarrow> bytes" where
  \<open>large_payload W c target =
     (case c of
        Bytes \<Rightarrow> map (\<lambda>i. char_of (i mod 256)) [0..<target]
      | Text \<Rightarrow> repeat_to ''xmip load '' target
      | Json \<Rightarrow> large_json target
      | Xml \<Rightarrow> wrap_to ''<probe>'' ''<i>x</i>'' ''</probe>'' target
      | Html \<Rightarrow> wrap_to ''<!doctype html><title>xmip</title>'' ''<p>heavy</p>'' [] target
      | Csv \<Rightarrow> lines_to ''id,customer,total'' ''A1,"ACME, Inc",15.00'' target
      | FixedWidth \<Rightarrow> lines_to ''A00001ACME      02'' ''A00002BOLT      01'' target
      | Edifact \<Rightarrow> large_edifact target
      | Regex \<Rightarrow> repeat_to ''PROBE-4711 heavy '' target
      | Schematron \<Rightarrow> wrap_to ''<probe xmlns="urn:xmip:probe">'' ''<n>1</n>'' ''</probe>'' target
      | Hl7v2 \<Rightarrow> large_hl7 target
      | Fhir \<Rightarrow> wrap_to
          (''{"resourceType":"Bundle","type":"collection","entry":''
           @ ''[{"resource":{"resourceType":"Patient","id":"p0"}}'')
          '',{"resource":{"resourceType":"Observation","id":"o"}}'' '']}'' target
      | X12 \<Rightarrow> large_x12 target
      | Avro \<Rightarrow> avro_container W (target div 12 + 1) ''heavy record''
      | GraphqlSchema \<Rightarrow> wrap_to ''query Heavy { '' ''probe { id ping } '' ''}'' target
      | Protobuf \<Rightarrow> protobuf_message W (target div 12 + 1) ''heavy rec.''
      | Wsdl \<Rightarrow> large_wsdl target
      | OpenApi \<Rightarrow> large_openapi target
      | AsyncApi \<Rightarrow> large_asyncapi target
      | Sql \<Rightarrow> wrap_to (''BEGIN;'' @ [CHR 0x0A])
          (''INSERT INTO probe (n, ping) VALUES (1, '' @ [CHR 0x27] @ ''heavy row'' @ [CHR 0x27]
           @ '');'' @ [CHR 0x0A])
          (''COMMIT;'' @ [CHR 0x0A]) target)\<close>

definition as_stream :: "contract \<Rightarrow> bytes \<Rightarrow> stream" where
  "as_stream c bs = \<lparr>st_bytes = bs, st_media_type = Some (representation c)\<rparr>"

section \<open>What the loops build\<close>

lemma grow_length: "goal \<le> length (fst (grow unit goal n out))"
proof (induction unit goal n out rule: grow.induct)
  case (1 unit goal n out)
  then show ?case by (simp add: grow.simps [of unit goal n out])
qed

lemma grow_length_out: "length out \<le> length (fst (grow unit goal n out))"
proof (induction unit goal n out rule: grow.induct)
  case (1 unit goal n out)
  show ?case
  proof (cases "length out < goal")
    case True
    from 1 [OF this] True show ?thesis by (simp add: grow.simps [of unit goal n out])
  qed (simp add: grow.simps [of unit goal n out])
qed

text \<open>The text is what it started as, then the units, in order.\<close>

lemma grow_units:
  "grow unit goal n out = (body, m) \<Longrightarrow>
   n \<le> m \<and> body = out @ concat (map (\<lambda>i. fst (unit i) # snd (unit i)) [n..<m])"
proof (induction unit goal n out arbitrary: body m rule: grow.induct)
  case (1 unit goal n out)
  show ?case
  proof (cases "length out < goal")
    case True
    with 1 have "Suc n \<le> m" and
      "body = (out @ fst (unit n) # snd (unit n))
        @ concat (map (\<lambda>i. fst (unit i) # snd (unit i)) [Suc n..<m])"
      by (auto simp: grow.simps [of unit goal n out])
    then show ?thesis by (simp add: upt_conv_Cons)
  next
    case False
    with 1 show ?thesis by (simp add: grow.simps [of unit goal n out])
  qed
qed

lemma concat_every: "s \<noteq> [] \<Longrightarrow> concat (map (\<lambda>i. fst (every s i) # snd (every s i)) [n..<m]) =
    concat (replicate (m - n) s)"
proof (induction "m - n" arbitrary: n)
  case (Suc k)
  then have "n < m" and "k = m - Suc n" by simp_all
  then show ?case using Suc by (simp add: upt_conv_Cons every_def Suc_diff_Suc [symmetric])
qed simp

lemma x12_split: "split_once ''SE*4*0001~'' X12_PROBE \<noteq> None"
  by (simp add: X12_PROBE_def prefix_def)

lemma wsdl_split: "split_once ''<portType'' WSDL_PROBE \<noteq> None"
  by (simp add: WSDL_PROBE_def prefix_def)

section \<open>Large payloads\<close>

lemma sum_list_ge: "(\<And>x. x \<in> set xs \<Longrightarrow> k \<le> f x) \<Longrightarrow> k * length xs \<le> sum_list (map f xs)"
  for f :: "'a \<Rightarrow> nat"
proof (induction xs)
  case (Cons x xs)
  then have "k \<le> f x" "k * length xs \<le> sum_list (map f xs)" by simp_all
  then show ?case by simp
qed simp

lemma twelve_reaches: "target \<le> 12 * (target div 12 + 1)" for target :: nat
  using mult_div_mod_eq [of 12 target] mod_less_divisor [OF zero_less_numeral, of target] by (metis add_mult_distrib2 add_left_mono less_imp_le nat_mult_1_right)

lemma protobuf_length:
  assumes "codec_sizes W"
  shows "target \<le> length (protobuf_message W (target div 12 + 1) ''heavy rec.'')"
proof -
  have "12 \<le> length (encode_delimited W 3 ''heavy rec.'')"
    using assms by (auto simp: codec_sizes_def dest!: spec [of _ 3] spec [of _ "''heavy rec.''"])
  then have "12 * length [0..<target div 12 + 1] \<le>
      sum_list (map (\<lambda>_. length (encode_delimited W 3 ''heavy rec.'')) [0..<target div 12 + 1])"
    by (intro sum_list_ge)
  then show ?thesis
    using twelve_reaches [of target] by (simp add: protobuf_message_def length_concat o_def)
qed

lemma avro_length:
  assumes "codec_sizes W"
  shows "target \<le> length (avro_container W (target div 12 + 1) ''heavy record'')"
proof -
  let ?ds = "map (\<lambda>i. encode_long W i @ encode_string W ''heavy record'') [0..<target div 12 + 1]"
  have "12 \<le> length (encode_long W i @ encode_string W ''heavy record'')" for i
    using assms by (auto simp: codec_sizes_def dest!: spec [of _ "''heavy record''"])
  then have "12 * length [0..<target div 12 + 1] \<le> sum_list (map length ?ds)"
    by (simp only: map_map) (intro sum_list_ge, simp)
  also have "\<dots> \<le> length (avro_container W (target div 12 + 1) ''heavy record'')"
    unfolding avro_container_def using assms by (simp only: codec_sizes_def)
  finally show ?thesis using twelve_reaches [of target] by simp
qed

lemma repeat_to_length: "target \<le> length (repeat_to unit target)"
  by (simp add: repeat_to_def grow_length)

lemma wrap_to_length: "target \<le> length (wrap_to op unit close target)"
  using grow_length [of "target - length close" "every unit" 0 "op @ unit"]
  by (simp add: wrap_to_def)

lemma lines_to_length: "target \<le> length (lines_to first unit target)"
  by (simp add: lines_to_def grow_length)

lemma grow_append_length: "target \<le> length (fst (grow unit target n out) @ close)"
  using grow_length [of target unit n out] by simp

text \<open>What an X12 and an EDIFACT interchange are: a head, the padding segments and a trailer.\<close>

definition x12_set :: string where
  "x12_set = ''ST*850*0001~BEG*00*SA*PO4711**20260908~PO1*1*2*EA*10.00**VP*X001~''"

definition x12_front :: string where
  "x12_front =
     ''ISA*00*          *00*          *ZZ*SENDER         *ZZ*RECEIVER       *''
     @ ''260908*1030*U*00401*000000001*0*P*>~GS*PO*SENDER*RECEIVER*20260908*1030*1*X*004010~''"

lemma x12_head: "split_once ''SE*4*0001~'' X12_PROBE =
    Some (x12_front @ x12_set, ''GE*1*1~IEA*1*000000001~'')"
  by (simp add: X12_PROBE_def x12_front_def x12_set_def prefix_def)

lemma large_x12_shape:
  obtains n where "target \<le> length (x12_front @ x12_set @ concat (replicate n ''MSG*heavy~''))"
    and "large_x12 target = x12_front @ (x12_set @ concat (replicate n ''MSG*heavy~'')
      @ ''SE*'' @ decimal (n + 4) @ ''*0001~'') @ ''GE*1*1~IEA*1*000000001~''"
proof -
  obtain body n where grown: "grow (every ''MSG*heavy~'') target 0 (x12_front @ x12_set) = (body, n)"
    by (metis surj_pair)
  then have body: "body = x12_front @ x12_set @ concat (replicate n ''MSG*heavy~'')"
    using grow_units [OF grown] concat_every [of "''MSG*heavy~''" 0 n] by simp
  have "target \<le> length body"
    using grow_length [of target "every ''MSG*heavy~''" 0 "x12_front @ x12_set"] by (simp add: grown)
  then show ?thesis
    using that [of n] by (simp add: large_x12_def x12_head grown body numeral_eq_Suc)
qed

definition edifact_front :: string where
  "edifact_front = ''UNA:+.? 'UNB+UNOC:3+SENDER+RECEIVER+260907:1345+REF001'' @ [CHR 0x27]"

definition edifact_message :: string where
  "edifact_message = ''UNH+1+ORDERS:D:96A:UN'BGM+220+PO4711'' @ [CHR 0x27]"

definition edifact_unit :: string where
  "edifact_unit = ''FTX+AAI+++heavy'' @ [CHR 0x27]"

lemma large_edifact_shape:
  obtains n where "target \<le> length (edifact_front @ edifact_message @ concat (replicate n edifact_unit))"
    and "large_edifact target = edifact_front @ (edifact_message @ concat (replicate n edifact_unit)
      @ ''UNT+'' @ decimal (n + 3) @ ''+1'' @ [CHR 0x27]) @ ''UNZ+1+REF001'' @ [CHR 0x27]"
proof -
  have head: "edifact_head = edifact_front @ edifact_message"
    by (simp add: edifact_head_def edifact_front_def edifact_message_def)
  obtain body n where grown: "grow (every edifact_unit) target 0 edifact_head = (body, n)"
    by (metis surj_pair)
  then have body: "body = edifact_front @ edifact_message @ concat (replicate n edifact_unit)"
    using grow_units [OF grown] concat_every [of edifact_unit 0 n] by (simp add: head edifact_unit_def)
  have "target \<le> length body"
    using grow_length [of target "every edifact_unit" 0 edifact_head] by (simp add: grown)
  then show ?thesis
    using that [of n] grown unfolding edifact_unit_def
    by (simp add: large_edifact_def body [unfolded edifact_unit_def] numeral_eq_Suc)
qed

lemma large_x12_length: "target \<le> length (large_x12 target)"
proof -
  obtain n where "target \<le> length (x12_front @ x12_set @ concat (replicate n ''MSG*heavy~''))"
    and "large_x12 target = x12_front @ (x12_set @ concat (replicate n ''MSG*heavy~'')
      @ ''SE*'' @ decimal (n + 4) @ ''*0001~'') @ ''GE*1*1~IEA*1*000000001~''"
    by (rule large_x12_shape)
  then show ?thesis by (simp only: length_append)
qed

lemma large_edifact_length: "target \<le> length (large_edifact target)"
proof -
  obtain n where "target \<le> length (edifact_front @ edifact_message @ concat (replicate n edifact_unit))"
    and "large_edifact target = edifact_front @ (edifact_message @ concat (replicate n edifact_unit)
      @ ''UNT+'' @ decimal (n + 3) @ ''+1'' @ [CHR 0x27]) @ ''UNZ+1+REF001'' @ [CHR 0x27]"
    by (rule large_edifact_shape)
  then show ?thesis by (simp only: length_append)
qed

text \<open>C32: a heavy payload weighs at least what was asked, in every contract's shape.\<close>

theorem large_payload_reaches:
  assumes "codec_sizes W"
  shows "target \<le> length (large_payload W c target)"
proof (cases c)
  case X12
  then show ?thesis unfolding large_payload_def by (simp only: contract.case large_x12_length)
next
  case Edifact
  then show ?thesis unfolding large_payload_def by (simp only: contract.case large_edifact_length)
next
  case Wsdl
  then obtain h t where split: "split_once ''<portType'' WSDL_PROBE = Some (h, t)"
    using wsdl_split by auto
  show ?thesis
    using grow_length [of "target - length t" "\<lambda>n. (CHR ''<'', ''message name=\"M'' @ decimal n @ ''\"/>'')" 0 h]
    by (simp add: Wsdl large_payload_def large_wsdl_def split)
next
  case Json
  then show ?thesis unfolding large_payload_def large_json_def by (simp only: contract.case grow_append_length)
next
  case OpenApi
  then show ?thesis unfolding large_payload_def large_openapi_def by (simp only: contract.case grow_append_length)
next
  case AsyncApi
  then show ?thesis unfolding large_payload_def large_asyncapi_def by (simp only: contract.case grow_append_length)
next
  case Hl7v2
  then show ?thesis unfolding large_payload_def large_hl7_def by (simp only: contract.case grow_length)
next
  case Protobuf
  then show ?thesis unfolding large_payload_def by (simp only: contract.case protobuf_length [OF assms])
next
  case Avro
  then show ?thesis unfolding large_payload_def by (simp only: contract.case avro_length [OF assms])
next
  case Bytes
  then show ?thesis by (simp add: large_payload_def)
qed (simp_all only: large_payload_def contract.case repeat_to_length wrap_to_length lines_to_length)

definition plain_codecs :: codec_api where
  "plain_codecs =
     \<lparr>encode_tag_varint = (\<lambda>n. [char_of n]), varint_encode = (\<lambda>n. [char_of n]),
      encode_delimited = (\<lambda>n s. char_of n # char_of (length s) # s), encode_long = (\<lambda>n. [char_of n]),
      encode_string = (\<lambda>s. char_of (length s) # s), container_write = (\<lambda>schema ds. schema @ concat ds)\<rparr>"

lemma codec_sizes_plain: "codec_sizes plain_codecs"
  by (simp add: codec_sizes_def plain_codecs_def length_concat)

theorem large_payload_reaches_witness: "65507 \<le> length (large_payload plain_codecs Avro 65507)"
  by (rule large_payload_reaches [OF codec_sizes_plain])

lemma count_terminators_decimal: "\<not> is_digit t \<Longrightarrow> filter ((=) t) (decimal n) = []"
  using list_all_is_digit_decimal [of n] by (auto simp: list_all_iff filter_empty_conv)

lemma length_filter_concat_replicate:
  "length (filter P (concat (replicate n s))) = n * length (filter P s)"
  by (induction n) simp_all

text \<open>A heavy X12 or EDIFACT interchange declares the true number of segments of its message:
  from \<open>ST\<close> to \<open>SE\<close>, or \<open>UNH\<close> to \<open>UNT\<close>, both counted, there are as many segment terminators as
  its trailer says, however large it was padded.\<close>

theorem interchanges_declare_their_segments:
  "(\<exists>before message after n. large_x12 target = before @ message @ after
      \<and> prefix ''ST*'' message \<and> suffix (''SE*'' @ decimal n @ ''*0001~'') message
      \<and> n = length (filter ((=) (CHR ''~'')) message))
   \<and> (\<exists>before message after n. large_edifact target = before @ message @ after
      \<and> prefix ''UNH+'' message \<and> suffix (''UNT+'' @ decimal n @ ''+1'' @ [CHR 0x27]) message
      \<and> n = length (filter ((=) (CHR 0x27)) message))"
proof
  obtain n where shape: "large_x12 target = x12_front @ (x12_set @ concat (replicate n ''MSG*heavy~'')
      @ ''SE*'' @ decimal (n + 4) @ ''*0001~'') @ ''GE*1*1~IEA*1*000000001~''"
    using large_x12_shape by blast
  define message where "message = x12_set @ concat (replicate n ''MSG*heavy~'')
      @ ''SE*'' @ decimal (n + 4) @ ''*0001~''"
  have "prefix ''ST*'' message" by (simp add: message_def x12_set_def)
  moreover have "suffix (''SE*'' @ decimal (n + 4) @ ''*0001~'') message"
    unfolding message_def by (intro suffix_appendI suffix_order.refl)
  moreover have "n + 4 = length (filter ((=) (CHR ''~'')) message)"
    by (simp add: message_def x12_set_def count_terminators_decimal is_digit_def
        length_filter_concat_replicate)
  ultimately show "\<exists>before message after n. large_x12 target = before @ message @ after
      \<and> prefix ''ST*'' message \<and> suffix (''SE*'' @ decimal n @ ''*0001~'') message
      \<and> n = length (filter ((=) (CHR ''~'')) message)"
    using shape unfolding message_def by blast
next
  obtain n where shape: "large_edifact target = edifact_front @ (edifact_message
      @ concat (replicate n edifact_unit) @ ''UNT+'' @ decimal (n + 3) @ ''+1'' @ [CHR 0x27])
      @ ''UNZ+1+REF001'' @ [CHR 0x27]"
    using large_edifact_shape by blast
  define message where "message = edifact_message @ concat (replicate n edifact_unit)
      @ ''UNT+'' @ decimal (n + 3) @ ''+1'' @ [CHR 0x27]"
  have "prefix ''UNH+'' message" by (simp add: message_def edifact_message_def)
  moreover have "suffix (''UNT+'' @ decimal (n + 3) @ ''+1'' @ [CHR 0x27]) message"
    unfolding message_def by (intro suffix_appendI suffix_order.refl)
  moreover have "n + 3 = length (filter ((=) (CHR 0x27)) message)"
    by (simp add: message_def edifact_message_def edifact_unit_def count_terminators_decimal
        is_digit_def length_filter_concat_replicate)
  ultimately show "\<exists>before message after n. large_edifact target = before @ message @ after
      \<and> prefix ''UNH+'' message \<and> suffix (''UNT+'' @ decimal n @ ''+1'' @ [CHR 0x27]) message
      \<and> n = length (filter ((=) (CHR 0x27)) message)"
    using shape unfolding message_def by blast
qed

end
