(* ===== verification/Stress.thy ===== *)
theory Stress
  imports Payload
begin

text \<open>
  Difficulty (\<open>src/stress.rs\<close>): the four levels and the numbers each stands for. What a machine has
  free is measured by \<open>headroom.rs\<close>; the cores within it are the parameter \<open>cores\<close>.
\<close>

datatype stress = Calm | Realistic | Harsh | Brutal

fun stress_rank :: "stress \<Rightarrow> nat" where
  "stress_rank Calm = 0"
| "stress_rank Realistic = 1"
| "stress_rank Harsh = 2"
| "stress_rank Brutal = 3"

text \<open>The derived order: the levels as they are declared.\<close>

instantiation stress :: linorder
begin

definition less_eq_stress :: "stress \<Rightarrow> stress \<Rightarrow> bool" where
  "less_eq_stress a b \<longleftrightarrow> stress_rank a \<le> stress_rank b"

definition less_stress :: "stress \<Rightarrow> stress \<Rightarrow> bool" where
  "less_stress a b \<longleftrightarrow> stress_rank a < stress_rank b"

instance
proof
  fix a b :: stress
  show "a \<le> b \<Longrightarrow> b \<le> a \<Longrightarrow> a = b"
    by (cases a; cases b) (simp_all add: less_eq_stress_def)
qed (auto simp: less_eq_stress_def less_stress_def)

end

fun stress_name :: "stress \<Rightarrow> string" where
  "stress_name Calm = ''calm''"
| "stress_name Realistic = ''realistic''"
| "stress_name Harsh = ''harsh''"
| "stress_name Brutal = ''brutal''"

definition stress_parse :: "string \<Rightarrow> stress option" where
  "stress_parse name =
     (let word = to_ascii_lowercase (trim name) in
      if word = ''calm'' then Some Calm
      else if word = ''realistic'' then Some Realistic
      else if word = ''harsh'' then Some Harsh
      else if word = ''brutal'' then Some Brutal
      else None)"

text \<open>The level a roll runs at, from what \<open>XMIP_ESSENTIALS_STRESS\<close> says if it is set.\<close>

definition stress_from_env :: "string option \<Rightarrow> stress" where
  "stress_from_env env =
     (case Option.bind env stress_parse of Some level \<Rightarrow> level | None \<Rightarrow> Realistic)"

fun fault_multiplier :: "stress \<Rightarrow> u8" where
  "fault_multiplier Calm = 0"
| "fault_multiplier Realistic = 1"
| "fault_multiplier Harsh = 3"
| "fault_multiplier Brutal = 10"

fun stress_workers :: "nat \<Rightarrow> stress \<Rightarrow> nat" where
  "stress_workers cores Calm = 1"
| "stress_workers cores Realistic = 1"
| "stress_workers cores Harsh = min 4 cores"
| "stress_workers cores Brutal = cores"

fun stress_rounds :: "stress \<Rightarrow> nat" where
  "stress_rounds Calm = 1"
| "stress_rounds Realistic = 3"
| "stress_rounds Harsh = 12"
| "stress_rounds Brutal = 60"

fun stress_sizes :: "stress \<Rightarrow> nat list" where
  "stress_sizes Calm = [64]"
| "stress_sizes Realistic = [64, 1000, 3000]"
| "stress_sizes Harsh = [0, 1, 1471, 1472, 1473, 8192, 65507, 65537]"
| "stress_sizes Brutal = [0, 1, 255, 256, 1472, 1473, 65507, 65536, 65537, 1048576]"

definition size_for :: "stress \<Rightarrow> nat \<Rightarrow> nat" where
  "size_for s round = (let sizes = stress_sizes s in sizes ! (round mod length sizes))"

definition MAX_RATE :: u8 where
  "MAX_RATE = 90"

definition scaled_rate :: "u8 \<Rightarrow> stress \<Rightarrow> u8" where
  "scaled_rate rate s = min (saturating_mul_u8 rate (fault_multiplier s)) MAX_RATE"

definition patterned :: "nat \<Rightarrow> bytes" where
  "patterned n = map (\<lambda>at. char_of ((at * 31 + at div 251) mod 256)) [0..<n]"

definition edge_payloads :: "nat option \<Rightarrow> (string \<times> bytes) list" where
  "edge_payloads ceiling =
     (let named =
        [(''empty'', []),
         (''one byte'', [CHR 0x2A]),
         (''every byte'', map char_of [0..<256]),
         (''nul run'', replicate 512 (CHR 0x00)),
         (''high bytes'', replicate 512 (CHR 0xFF)),
         (''crlf storm'', concat (replicate 400 [CHR 0x0D, CHR 0x0A])),
         (''mtu minus one'', patterned 1471),
         (''mtu'', patterned 1472),
         (''mtu plus one'', patterned 1473),
         (''udp maximum'', patterned 65507),
         (''sixteen bits plus one'', patterned 65537),
         (''a mebibyte'', patterned 1048576)] in
      case ceiling of
        Some limit \<Rightarrow> filter (\<lambda>(_, bs). length bs \<le> limit) named
      | None \<Rightarrow> named)"

definition stress_payload :: "codec_api \<Rightarrow> contract \<Rightarrow> nat \<Rightarrow> bytes" where
  "stress_payload W c n = (if n = 0 then contract_payload W c else large_payload W c n)"

section \<open>Rates\<close>

lemma unat_scaled_rate:
  "unat (scaled_rate rate s) = min (unat rate * unat (fault_multiplier s)) 90"
  by (simp add: scaled_rate_def MAX_RATE_def min_def word_le_nat_alt unat_saturating_mul_u8)

lemma fault_multiplier_mono: "s \<le> t \<Longrightarrow> unat (fault_multiplier s) \<le> unat (fault_multiplier t)"
  by (cases s; cases t) (simp_all add: less_eq_stress_def)

lemma scaled_rate_mono: "s \<le> t \<Longrightarrow> unat (scaled_rate rate s) \<le> unat (scaled_rate rate t)"
  using fault_multiplier_mono [of s t] by (simp add: unat_scaled_rate min.coboundedI1 mult_le_mono)

lemma scaled_rate_le: "unat (scaled_rate rate s) \<le> 90"
  by (simp add: unat_scaled_rate)

lemma scaled_rate_Calm: "scaled_rate rate Calm = 0"
  by (simp add: scaled_rate_def saturating_mul_u8_def MAX_RATE_def)

lemma size_for_mem: "size_for s round \<in> set (stress_sizes s)"
  unfolding size_for_def Let_def by (rule nth_mem) (cases s; simp)

end
