(* ===== verification/Fault.thy ===== *)
theory Fault
  imports Stress
begin

text \<open>
  Injected faults (\<open>src/fault.rs\<close>): the rules, the realistic table, how a level scales it, and the
  deterministic firing every scenario injects its pressure by. The hash is computed on 64-bit
  words, wrapping as the source's \<open>wrapping_mul\<close> does.
\<close>

section \<open>Firing\<close>

definition STEADY :: string where
  "STEADY = ''file''"

definition fold_byte :: "char \<Rightarrow> u64 \<Rightarrow> u64" where
  "fold_byte b hash = (hash XOR of_char b) * 0x100000001B3"

definition fires_keyed :: "u8 \<Rightarrow> string \<Rightarrow> nat \<Rightarrow> bool" where
  "fires_keyed rate key round =
     (if rate = 0 then False
      else let hash = fold fold_byte key (of_nat round * 0x9E3779B97F4A7C15) in
        unat (hash mod 100) < unat rate)"

section \<open>Rules and plans\<close>

datatype fault_kind = Transport | Addressing | Contract

fun fault_kind_name :: "fault_kind \<Rightarrow> string" where
  "fault_kind_name Transport = ''transport''"
| "fault_kind_name Addressing = ''addressing''"
| "fault_kind_name Contract = ''contract''"

record fault =
  f_kind :: fault_kind
  f_reason :: string

definition evidence :: "fault \<Rightarrow> string" where
  "evidence f = fault_kind_name (f_kind f) @ '' fault '' @ em_dash @ '' '' @ f_reason f"

record fault_rule =
  fr_stage :: stage
  fr_transport :: "string option"
  fr_contract :: "contract option"
  fr_rate :: u8
  fr_fault :: fault

definition fault_rule_new ::
    "stage \<Rightarrow> string option \<Rightarrow> contract option \<Rightarrow> u8 \<Rightarrow> fault_kind \<Rightarrow> string \<Rightarrow> fault_rule" where
  "fault_rule_new st t c rate kind reason =
     \<lparr>fr_stage = st, fr_transport = t, fr_contract = c, fr_rate = rate,
      fr_fault = \<lparr>f_kind = kind, f_reason = reason\<rparr>\<rparr>"

type_synonym fault_plan = "fault_rule list"

definition plan_none :: fault_plan where
  "plan_none = []"

definition plan_is_empty :: "fault_plan \<Rightarrow> bool" where
  "plan_is_empty p \<longleftrightarrow> p = []"

definition realistic :: fault_plan where
  "realistic =
     [fault_rule_new Receive (Some ''udp'') None 9 Transport ''the datagram never arrived'',
      fault_rule_new Receive (Some ''tcp'') (Some Bytes) 5 Transport
        ''bind failed: the receive port is already in use'',
      fault_rule_new Receive (Some ''smtp'') None 4 Transport ''connection reset by peer'',
      fault_rule_new Process None (Some Xml) 6 Contract
        ''schema validation failed: unexpected element'',
      fault_rule_new Process None (Some Json) 4 Contract ''malformed content: unexpected token'',
      fault_rule_new Send (Some ''http'') None 5 Transport ''the send target refused the connection'',
      fault_rule_new Send (Some ''websocket'') None 3 Transport ''send timed out'',
      fault_rule_new Send (Some ''http'') None 5 Addressing ''the target host did not resolve'',
      fault_rule_new Send (Some ''tcp'') None 3 Addressing ''no route to the target host'',
      fault_rule_new Send (Some ''smtp'') None 3 Addressing
        ''recipient address rejected (550 no such user)'']"

definition plan_at :: "fault_plan \<Rightarrow> stress \<Rightarrow> fault_plan" where
  "plan_at p s = map (\<lambda>rule. rule\<lparr>fr_rate := scaled_rate (fr_rate rule) s\<rparr>) p"

definition fires :: "node_api \<Rightarrow> u8 \<Rightarrow> stage \<Rightarrow> string \<Rightarrow> contract \<Rightarrow> nat \<Rightarrow> bool" where
  "fires N rate st transport c round =
     fires_keyed rate (stage_name N st @ transport @ contract_name c) round"

definition none_or :: "'a option \<Rightarrow> 'a \<Rightarrow> bool" where
  "none_or only x \<longleftrightarrow> (case only of None \<Rightarrow> True | Some y \<Rightarrow> y = x)"

definition fault_for ::
    "node_api \<Rightarrow> fault_plan \<Rightarrow> stage \<Rightarrow> string \<Rightarrow> contract \<Rightarrow> nat \<Rightarrow> fault option" where
  "fault_for N plan st transport c round =
     map_option fr_fault
       (find (\<lambda>rule. fires N (fr_rate rule) st transport c round)
         (filter (\<lambda>rule. none_or (fr_contract rule) c)
           (filter (\<lambda>rule. none_or (fr_transport rule) transport)
             (filter (\<lambda>rule. fr_stage rule = st) plan))))"

section \<open>The interface the scenarios inject by\<close>

text \<open>
  Every scenario decides its own pressure by the same firing: a rate, a key and a round. What they
  rely on is that a rate of nothing never fires and that a higher rate fires wherever a lower one
  does; so a level injects nothing when calm, and whatever a level injects a harsher one does too.
\<close>

locale rated_firing =
  fixes fire :: "u8 \<Rightarrow> string \<Rightarrow> nat \<Rightarrow> bool"
  assumes never: "\<not> fire 0 key round"
    and mono: "unat rate \<le> unat rate' \<Longrightarrow> fire rate key round \<Longrightarrow> fire rate' key round"
begin

lemma calm_never: "\<not> fire (scaled_rate rate Calm) key round"
  by (simp add: scaled_rate_Calm never)

lemma harsher: "s \<le> t \<Longrightarrow> fire (scaled_rate rate s) key round \<Longrightarrow> fire (scaled_rate rate t) key round"
  by (rule mono) (rule scaled_rate_mono)

end

interpretation keyed: rated_firing fires_keyed
  by unfold_locales (auto simp: fires_keyed_def Let_def split: if_splits)

section \<open>What a plan injects\<close>

lemma hash_mod_lt: "unat ((hash :: u64) mod 100) < 100"
  by (simp add: unat_mod)

lemma fires_keyed_always: "100 \<le> unat rate \<Longrightarrow> fires_keyed rate key round"
  using hash_mod_lt less_le_trans by (fastforce simp: fires_keyed_def Let_def)

definition rule_hits ::
    "node_api \<Rightarrow> stage \<Rightarrow> string \<Rightarrow> contract \<Rightarrow> nat \<Rightarrow> fault_rule \<Rightarrow> bool" where
  "rule_hits N st transport c round rule \<longleftrightarrow>
     fr_stage rule = st \<and> none_or (fr_transport rule) transport \<and> none_or (fr_contract rule) c
     \<and> fires N (fr_rate rule) st transport c round"

lemma find_filter: "find P (filter Q xs) = find (\<lambda>x. Q x \<and> P x) xs"
  by (induction xs) auto

lemma fault_for_find:
  "fault_for N plan st transport c round =
     map_option fr_fault (find (rule_hits N st transport c round) plan)"
  unfolding fault_for_def find_filter by (simp add: rule_hits_def [abs_def] conj_assoc)

lemma fault_for_None:
  "fault_for N plan st transport c round = None \<longleftrightarrow>
     (\<forall>rule\<in>set plan. \<not> rule_hits N st transport c round rule)"
  by (auto simp: fault_for_find find_None_iff)

text \<open>The fault a pair suffers is that of the first rule of the plan that names its stage, its
  transport and its contract and fires, and there is none exactly when no rule does.\<close>

theorem fault_for_first:
  "fault_for N plan st transport c round = Some f \<longleftrightarrow>
     (\<exists>i<length plan. f = fr_fault (plan ! i) \<and> rule_hits N st transport c round (plan ! i)
        \<and> (\<forall>j<i. \<not> rule_hits N st transport c round (plan ! j)))"
  by (auto simp: fault_for_find find_Some_iff)

theorem fault_for_first_witness:
  "\<exists>f. fault_for documented_node (plan_at realistic Realistic) Receive ''udp'' Bytes 6 = Some f
     \<and> f_kind f = Transport"
proof -
  have hit: "rule_hits documented_node Receive ''udp'' Bytes 6 (plan_at realistic Realistic ! 0)"
    by code_simp
  have len: "0 < length (plan_at realistic Realistic)" by code_simp
  have kind: "f_kind (fr_fault (plan_at realistic Realistic ! 0)) = Transport" by code_simp
  have "fault_for documented_node (plan_at realistic Realistic) Receive ''udp'' Bytes 6
      = Some (fr_fault (plan_at realistic Realistic ! 0))"
    unfolding fault_for_first using hit len by (intro exI [of _ 0]) simp
  with kind show ?thesis by blast
qed

lemma realistic_steady:
  "fault_for N (plan_at realistic level) Receive STEADY c round = None"
  "fault_for N (plan_at realistic level) Send STEADY c round = None"
  by (simp_all add: fault_for_None plan_at_def realistic_def rule_hits_def fault_rule_new_def
      none_or_def STEADY_def)

text \<open>At \<open>Calm\<close> a plan injects nothing, and whatever a level injects into a pair, every harsher
  level injects into it in the same round.\<close>

theorem levels_escalate:
  assumes "s \<le> t" and "fault_for N (plan_at plan s) st transport c round \<noteq> None"
  shows "fault_for N (plan_at plan t) st transport c round \<noteq> None \<and> s \<noteq> Calm"
proof
  from assms(2) obtain rule where rule: "rule \<in> set plan"
    and hits: "rule_hits N st transport c round (rule\<lparr>fr_rate := scaled_rate (fr_rate rule) s\<rparr>)"
    by (auto simp: fault_for_None plan_at_def)
  with assms(1) have "rule_hits N st transport c round
      (rule\<lparr>fr_rate := scaled_rate (fr_rate rule) t\<rparr>)"
    by (auto simp: rule_hits_def fires_def intro: keyed.harsher)
  with rule show "fault_for N (plan_at plan t) st transport c round \<noteq> None"
    by (auto simp: fault_for_None plan_at_def)
  from hits show "s \<noteq> Calm" by (auto simp: rule_hits_def fires_def keyed.calm_never)
qed

theorem levels_escalate_witness:
  "fault_for documented_node (plan_at realistic Harsh) Receive ''udp'' Bytes 6 \<noteq> None"
proof -
  have "fault_for documented_node (plan_at realistic Realistic) Receive ''udp'' Bytes 6 \<noteq> None"
    by code_simp
  then show ?thesis using levels_escalate [of Realistic Harsh] by (simp add: less_eq_stress_def)
qed

end
