(* ===== verification/Parties.thy ===== *)
theory Parties
  imports Fault
begin

text \<open>
  The Parties (\<open>src/parties.rs\<close>): who the Essentials trades with, and which transports each is on, on
  each side. Reading the configuration is the \<open>configure\<close> crate's, the parameter \<open>F\<close>. Indexing by
  the remainder panics where there is no Party, which \<open>Parties::of\<close> refuses.
\<close>

record party_identity =
  pi_mechanism :: string
  pi_purpose :: string
  pi_value :: string

record party_configuration =
  pc_id :: "string option"
  pc_name :: string
  pc_identities :: "party_identity list"

type_synonym parties = "party_configuration list"

record configure_api =
  config_parties :: "string \<Rightarrow> string + parties"
  config_problems :: "parties \<Rightarrow> string list"
  config_place_holding :: "parties \<Rightarrow> string \<Rightarrow> string \<Rightarrow> string \<Rightarrow> nat option"

definition parties_of :: "configure_api \<Rightarrow> string \<Rightarrow> string + parties" where
  "parties_of F source =
     (case config_parties F source of
        Inl e \<Rightarrow> Inl e
      | Inr ps \<Rightarrow>
          let problems = config_problems F ps in
          if problems \<noteq> [] then Inl (join ''; '' problems)
          else if ps = [] then Inl ''the configuration declares no [[parties]]''
          else Inr ps)"

definition party_names :: "parties \<Rightarrow> string list" where
  "party_names ps = map pc_name ps"

definition party_holding ::
    "configure_api \<Rightarrow> parties \<Rightarrow> string \<Rightarrow> string \<Rightarrow> string \<Rightarrow> nat option" where
  "party_holding F ps mechanism purpose presented =
     config_place_holding F ps mechanism purpose presented"

definition party_at :: "parties \<Rightarrow> nat \<Rightarrow> party_configuration" where
  "party_at ps place = ps ! (place mod length ps)"

text \<open>\<open>None\<close> is the panic of a Party without an identifier.\<close>

definition party_id :: "parties \<Rightarrow> nat \<Rightarrow> string option" where
  "party_id ps place = pc_id (party_at ps place)"

record spread =
  sp_parties :: parties
  sp_transports :: "string list"

definition parties_spread :: "parties \<Rightarrow> string list \<Rightarrow> spread" where
  "parties_spread ps transports = \<lparr>sp_parties = ps, sp_transports = transports\<rparr>"

definition spread_place :: "spread \<Rightarrow> string \<Rightarrow> nat" where
  "spread_place S transport =
     (case position (\<lambda>one. one = transport) (sp_transports S) of None \<Rightarrow> 0 | Some at \<Rightarrow> at)"

definition spread_sender :: "spread \<Rightarrow> string \<Rightarrow> nat" where
  "spread_sender S transport = spread_place S transport mod length (sp_parties S)"

definition spread_receiver :: "spread \<Rightarrow> string \<Rightarrow> nat" where
  "spread_receiver S transport = (spread_place S transport + 1) mod length (sp_parties S)"

definition spread_over :: "spread \<Rightarrow> nat \<Rightarrow> (string \<Rightarrow> nat) \<Rightarrow> string list" where
  "spread_over S place whose = filter (\<lambda>transport. whose transport = place) (sp_transports S)"

definition spread_sends :: "spread \<Rightarrow> nat \<Rightarrow> string list" where
  "spread_sends S place = spread_over S place (spread_sender S)"

definition spread_receives :: "spread \<Rightarrow> nat \<Rightarrow> string list" where
  "spread_receives S place = spread_over S place (spread_receiver S)"

section \<open>Who is on a transport\<close>

lemma set_spread_sends:
  "set (spread_sends S p) = {t \<in> set (sp_transports S). spread_sender S t = p}"
  by (simp add: spread_sends_def spread_over_def)

lemma set_spread_receives:
  "set (spread_receives S p) = {t \<in> set (sp_transports S). spread_receiver S t = p}"
  by (simp add: spread_receives_def spread_over_def)

lemma spread_side_lt:
  assumes "sp_parties S \<noteq> []"
  shows "spread_sender S t < length (sp_parties S)" and "spread_receiver S t < length (sp_parties S)"
  using assms by (simp_all add: spread_sender_def spread_receiver_def)

lemma sender_not_receiver:
  assumes "2 \<le> length (sp_parties S)"
  shows "spread_sender S t \<noteq> spread_receiver S t"
  using assms by (auto simp: spread_sender_def spread_receiver_def mod_Suc)

lemma spread_place_nth:
  "distinct (sp_transports S) \<Longrightarrow> i < length (sp_transports S) \<Longrightarrow>
     spread_place S (sp_transports S ! i) = i"
  by (simp add: spread_place_def position_distinct)

lemma spread_sends_member:
  assumes "distinct (sp_transports S)" "p < length (sp_parties S)"
    "length (sp_parties S) \<le> length (sp_transports S)"
  shows "sp_transports S ! p \<in> set (spread_sends S p)"
  using assms by (simp add: set_spread_sends spread_sender_def spread_place_nth)

lemma spread_receives_member:
  assumes "distinct (sp_transports S)" "p < length (sp_parties S)"
    "length (sp_parties S) \<le> length (sp_transports S)"
  shows "\<exists>t. t \<in> set (spread_receives S p)"
proof -
  let ?n = "length (sp_parties S)"
  define i where "i = (p + ?n - 1) mod ?n"
  have i: "i < ?n" using assms(2) unfolding i_def by (intro mod_less_divisor) linarith
  have "p + ?n - 1 + 1 = p + ?n" using assms(2) by linarith
  then have "(i + 1) mod ?n = (p + ?n) mod ?n" unfolding i_def mod_add_left_eq by (rule arg_cong)
  then have "(i + 1) mod ?n = p" using assms(2) by simp
  with i assms have "sp_transports S ! i \<in> set (spread_receives S p)"
    by (simp add: set_spread_receives spread_receiver_def spread_place_nth)
  then show ?thesis ..
qed

text \<open>Every transport has exactly one Party that sends over it and exactly one it delivers to,
  with two Parties or more never the same one, so no Party sends and receives over the same
  transport; and with at least as many transports as Parties every Party is on both sides.\<close>

theorem spread_partitions:
  assumes "sp_parties S \<noteq> []" and "distinct (sp_transports S)"
  shows "(\<forall>t \<in> set (sp_transports S).
            (\<exists>!p. p < length (sp_parties S) \<and> t \<in> set (spread_sends S p)) \<and>
            (\<exists>!p. p < length (sp_parties S) \<and> t \<in> set (spread_receives S p)))
    \<and> (2 \<le> length (sp_parties S) \<longrightarrow>
          (\<forall>p. set (spread_sends S p) \<inter> set (spread_receives S p) = {}))
    \<and> (length (sp_parties S) \<le> length (sp_transports S) \<longrightarrow>
          (\<forall>p < length (sp_parties S). spread_sends S p \<noteq> [] \<and> spread_receives S p \<noteq> []))"
proof (intro conjI ballI impI allI)
  fix t assume "t \<in> set (sp_transports S)"
  with spread_side_lt [OF assms(1)]
  show "\<exists>!p. p < length (sp_parties S) \<and> t \<in> set (spread_sends S p)"
    and "\<exists>!p. p < length (sp_parties S) \<and> t \<in> set (spread_receives S p)"
    by (auto simp: set_spread_sends set_spread_receives)
next
  fix p assume "2 \<le> length (sp_parties S)"
  note differ = sender_not_receiver [OF this]
  show "set (spread_sends S p) \<inter> set (spread_receives S p) = {}"
  proof (rule ccontr)
    assume "set (spread_sends S p) \<inter> set (spread_receives S p) \<noteq> {}"
    then obtain t where "spread_sender S t = p" "spread_receiver S t = p"
      by (auto simp: set_spread_sends set_spread_receives)
    with differ [of t] show False by simp
  qed
next
  fix p assume "length (sp_parties S) \<le> length (sp_transports S)" "p < length (sp_parties S)"
  with spread_sends_member [OF assms(2)] spread_receives_member [OF assms(2)]
  show "spread_sends S p \<noteq> []" and "spread_receives S p \<noteq> []" by fastforce+
qed

definition example_parties :: parties where
  "example_parties =
     map (\<lambda>n. \<lparr>pc_id = Some n, pc_name = n,
        pc_identities = [\<lparr>pi_mechanism = ''mutual-tls'', pi_purpose = ''receive'', pi_value = n\<rparr>]\<rparr>)
       [''Party-A'', ''Party-B'', ''Party-C'']"

definition example_spread :: spread where
  "example_spread = parties_spread example_parties [''file'', ''http'', ''tcp'', ''udp'']"

theorem spread_partitions_witness:
  "spread_sends example_spread 0 = [''file'', ''udp''] \<and>
   set (spread_sends example_spread 0) \<inter> set (spread_receives example_spread 0) = {}"
proof
  have *: "sp_parties example_spread \<noteq> []" "distinct (sp_transports example_spread)"
    "2 \<le> length (sp_parties example_spread)"
    by code_simp+
  from spread_partitions [OF *(1,2)] *(3)
  show "set (spread_sends example_spread 0) \<inter> set (spread_receives example_spread 0) = {}" by blast
qed code_simp

text \<open>A configuration that is read is sound and declares a Party.\<close>

lemma parties_of_Inr:
  "parties_of F source = Inr ps \<longleftrightarrow>
     config_parties F source = Inr ps \<and> config_problems F ps = [] \<and> ps \<noteq> []"
  by (auto simp: parties_of_def Let_def split: sum.splits)

end
