(* ===== verification/Rotation.thy ===== *)
theory Rotation
  imports Parties
begin

text \<open>
  The fault every fifty seconds (\<open>src/rotation.rs\<close>): what each turn strikes, when it is struck, and
  the mixing that chooses the target. Seconds and turns are natural numbers; the mixing is on
  64-bit words.
\<close>

definition PERIOD :: nat where
  "PERIOD = 50"

definition STRIKE :: nat where
  "STRIKE = 10"

record strike =
  sk_party :: nat
  sk_stage :: stage
  sk_transport :: string
  sk_contract :: "contract option"
  sk_fault :: fault

definition mix :: "u64 \<Rightarrow> u64" where
  "mix turn =
     (let bits = turn + 0x9E3779B97F4A7C15;
          bits = (bits XOR drop_bit 30 bits) * 0xBF58476D1CE4E5B9;
          bits = (bits XOR drop_bit 27 bits) * 0x94D049BB133111EB in
      bits XOR drop_bit 31 bits)"

definition strike_fault :: "stage \<Rightarrow> bool \<Rightarrow> nat \<Rightarrow> fault" where
  "strike_fault st stream turn =
     (let (kind, reason) =
        (if st = Send
         then (if \<not> stream
               then (if (turn div 2) mod 2 = 0 then (Addressing, ''the target host did not resolve'')
                     else (Transport, ''the send target refused the connection''))
               else (Contract, ''the Party refused the content: its contract was not held''))
         else (if \<not> stream then (Transport, ''connection reset by peer'')
               else (Contract, ''schema validation failed: unexpected element''))) in
      \<lparr>f_kind = kind, f_reason = reason\<rparr>)"

definition rotation_turn :: "spread \<Rightarrow> nat \<Rightarrow> strike option" where
  "rotation_turn S turn =
     (let count = length (sp_parties S);
          party = turn mod count;
          st = (if (turn div count) mod 2 = 0 then Receive else Send);
          over = (if st = Send then spread_receives S party else spread_sends S party);
          candidates = filter (\<lambda>one. one \<noteq> STEADY) over;
          mixed = mix (of_nat turn);
          at = unat (mixed mod of_nat (max (length candidates) 1)) in
      if length candidates \<le> at then None
      else let transport = candidates ! at;
               stream = (turn mod 2 = 1);
               c = (if stream then Some (CONTRACTS ! unat (drop_bit 16 mixed mod of_nat (length CONTRACTS)))
                    else None) in
        Some \<lparr>sk_party = party, sk_stage = st, sk_transport = transport, sk_contract = c,
              sk_fault = strike_fault st stream turn\<rparr>)"

definition rotation_striking :: "spread \<Rightarrow> nat \<Rightarrow> strike option" where
  "rotation_striking S unix_seconds =
     (if unix_seconds mod PERIOD < STRIKE then rotation_turn S (unix_seconds div PERIOD) else None)"

definition rotation_fault_for ::
    "spread \<Rightarrow> stage \<Rightarrow> string \<Rightarrow> contract \<Rightarrow> nat \<Rightarrow> fault option" where
  "rotation_fault_for S st transport c unix_seconds =
     (case rotation_striking S unix_seconds of
        None \<Rightarrow> None
      | Some strike \<Rightarrow>
          if sk_stage strike = st \<and> sk_transport strike = transport \<and> none_or (sk_contract strike) c
          then Some (sk_fault strike) else None)"

definition leveled :: "stress \<Rightarrow> fault_plan \<times> bool" where
  "leveled s =
     (case s of
        Calm \<Rightarrow> (plan_none, False)
      | Realistic \<Rightarrow> (plan_none, True)
      | _ \<Rightarrow> (plan_at realistic s, True))"

section \<open>The mixing loses nothing\<close>

lemma xor_exchange:
  fixes a b c d :: u64
  shows "a XOR b = c XOR d \<Longrightarrow> a XOR c = b XOR d"
  by (simp add: bit_eq_iff bit_xor_iff) blast

lemma xorshift_inj:
  fixes x y :: u64
  assumes "0 < k" "x XOR drop_bit k x = y XOR drop_bit k y"
  shows "x = y"
proof -
  let ?d = "x XOR y"
  have "?d = drop_bit k ?d" unfolding drop_bit_xor by (rule xor_exchange [OF assms(2)])
  then have "unat ?d = unat ?d div 2 ^ k" by (metis unat_drop_bit_eq drop_bit_eq_div)
  moreover have "unat ?d div 2 ^ k < unat ?d" if "0 < unat ?d"
    using that assms(1) one_less_power [of "2 :: nat" k] by (intro div_less_dividend) simp_all
  ultimately have "unat ?d = 0" by (metis gr0I less_irrefl)
  then have "?d = 0" by (simp only: unat_eq_zero)
  then show ?thesis by (simp add: bit_eq_iff bit_xor_iff)
qed

lemma odd_mult_inj:
  fixes x y a b :: u64
  assumes "a * b = 1" "x * a = y * a"
  shows "x = y"
proof -
  have "x = x * a * b" using assms(1) by (simp add: mult.assoc)
  also have "\<dots> = y" using assms by (simp add: mult.assoc)
  finally show ?thesis .
qed

lemma mix_inverses:
  "(0xBF58476D1CE4E5B9 :: u64) * 0x96DE1B173F119089 = 1"
  "(0x94D049BB133111EB :: u64) * 0x319642B2D24D8EC3 = 1"
  by simp_all

text \<open>The mixing is a permutation of the 64-bit words, so two turns never share their bits.\<close>

theorem mix_injective: "mix a = mix b \<longleftrightarrow> a = b"
proof
  assume "mix a = mix b"
  then show "a = b"
    unfolding mix_def Let_def
    by (auto dest!: xorshift_inj [rotated] odd_mult_inj [OF mix_inverses(1)]
        odd_mult_inj [OF mix_inverses(2)])
qed simp

section \<open>What a turn strikes\<close>

text \<open>The first number congruent to \<open>goal\<close> from \<open>start\<close> on is fewer than \<open>m\<close> away.\<close>

lemma next_multiple:
  fixes m goal start :: nat
  assumes "goal < m"
  defines "q \<equiv> (start + m - 1 - goal) div m"
  shows "start \<le> goal + m * q" and "goal + m * q < start + m"
proof -
  have "start + m - 1 - goal = m * q + (start + m - 1 - goal) mod m"
    unfolding q_def by simp
  moreover have "(start + m - 1 - goal) mod m < m" using assms(1) by simp
  ultimately show "start \<le> goal + m * q" and "goal + m * q < start + m"
    using assms(1) by linarith+
qed

definition turn_stage :: "spread \<Rightarrow> nat \<Rightarrow> stage" where
  "turn_stage S turn = (if even (turn div length (sp_parties S)) then Receive else Send)"

definition turn_candidates :: "spread \<Rightarrow> stage \<Rightarrow> nat \<Rightarrow> string list" where
  "turn_candidates S st p =
     filter (\<lambda>one. one \<noteq> STEADY) (if st = Send then spread_receives S p else spread_sends S p)"

lemma rotation_turn_eq:
  "rotation_turn S turn =
     (let cs = turn_candidates S (turn_stage S turn) (turn mod length (sp_parties S));
          at = unat (mix (of_nat turn) mod of_nat (max (length cs) 1)) in
      if length cs \<le> at then None
      else Some \<lparr>sk_party = turn mod length (sp_parties S), sk_stage = turn_stage S turn,
        sk_transport = cs ! at,
        sk_contract =
          (if odd turn
           then Some (CONTRACTS ! unat (drop_bit 16 (mix (of_nat turn)) mod of_nat (length CONTRACTS)))
           else None),
        sk_fault = strike_fault (turn_stage S turn) (odd turn) turn\<rparr>)"
proof -
  have parity: "(n mod 2 = 0) = even n" "(n mod 2 = 1) = odd n" for n :: nat by presburger+
  show ?thesis
    unfolding rotation_turn_def Let_def turn_candidates_def turn_stage_def parity by (rule refl)
qed

lemma length_turn_candidates: "length (turn_candidates S st p) \<le> length (sp_transports S)"
  unfolding turn_candidates_def spread_receives_def spread_sends_def spread_over_def
  by (auto intro: le_trans [OF length_filter_le])

lemma rotation_turn_None:
  assumes "length (sp_transports S) < 2 ^ 64"
  shows "rotation_turn S turn = None \<longleftrightarrow>
    turn_candidates S (turn_stage S turn) (turn mod length (sp_parties S)) = []"
proof -
  define cs where "cs = turn_candidates S (turn_stage S turn) (turn mod length (sp_parties S))"
  have "length cs < 2 ^ 64"
    using assms le_less_trans [OF length_turn_candidates] unfolding cs_def by blast
  then have *: "unat (of_nat (max (length cs) 1) :: u64) = max (length cs) 1"
    by (simp add: unat_of_nat take_bit_nat_eq_self)
  define at where "at = unat (mix (of_nat turn) mod of_nat (max (length cs) 1))"
  have "at < max (length cs) 1" unfolding at_def by (simp only: unat_mod * ) simp
  then have "length cs \<le> at \<longleftrightarrow> cs = []" by (cases cs) auto
  then show ?thesis
    unfolding rotation_turn_eq Let_def cs_def [symmetric] at_def [symmetric] by simp
qed

lemma rotation_turn_Some:
  assumes "rotation_turn S turn = Some strike"
  shows "sk_party strike = turn mod length (sp_parties S)"
    and "sk_stage strike = turn_stage S turn"
    and "sk_transport strike \<in> set (turn_candidates S (sk_stage strike) (sk_party strike))"
    and "sk_contract strike = None \<longleftrightarrow> even turn"
    and "sk_fault strike = strike_fault (turn_stage S turn) (odd turn) turn"
proof -
  define cs where "cs = turn_candidates S (turn_stage S turn) (turn mod length (sp_parties S))"
  define at where "at = unat (mix (of_nat turn) mod of_nat (max (length cs) 1))"
  note strike = assms [unfolded rotation_turn_eq Let_def, folded cs_def, folded at_def]
  then have "at < length cs" by (cases "length cs \<le> at") simp_all
  with strike show "sk_contract strike = None \<longleftrightarrow> even turn"
    by (cases "even turn") auto
  from strike \<open>at < length cs\<close> show "sk_party strike = turn mod length (sp_parties S)"
    and "sk_stage strike = turn_stage S turn"
    and "sk_fault strike = strike_fault (turn_stage S turn) (odd turn) turn"
    and "sk_transport strike \<in> set (turn_candidates S (sk_stage strike) (sk_party strike))"
    by (auto simp: cs_def)
qed

lemma turn_stage_not_Process: "turn_stage S turn \<noteq> Process"
  by (simp add: turn_stage_def)

lemma turn_candidates_not_STEADY: "t \<in> set (turn_candidates S st p) \<Longrightarrow> t \<noteq> STEADY"
  by (simp add: turn_candidates_def)

lemma rotation_fault_for_Some:
  "rotation_fault_for S st transport c now = Some f \<longleftrightarrow>
     (\<exists>strike. rotation_striking S now = Some strike \<and> sk_stage strike = st
        \<and> sk_transport strike = transport \<and> none_or (sk_contract strike) c \<and> sk_fault strike = f)"
  by (auto simp: rotation_fault_for_def split: option.splits)

text \<open>Whatever the rotation faults, it is within the first ten seconds of a fifty-second turn, on
  Receive or Send and never Process, never on the steady transport, and on a transport of the
  Party whose turn it is, on that side: one it sends over on Receive, one it is delivered to over
  on Send.\<close>

theorem rotation_strikes_its_party:
  assumes "rotation_fault_for S st transport c now = Some f"
  shows "now mod 50 < 10 \<and> transport \<noteq> STEADY \<and> transport \<in> set (sp_transports S)
    \<and> (st = Receive \<and> spread_sender S transport = (now div 50) mod length (sp_parties S)
       \<or> st = Send \<and> spread_receiver S transport = (now div 50) mod length (sp_parties S))"
proof -
  from assms obtain strike where strike: "rotation_striking S now = Some strike"
    and st: "sk_stage strike = st" and t: "sk_transport strike = transport"
    by (auto simp: rotation_fault_for_Some)
  from strike have window: "now mod 50 < 10" and turn: "rotation_turn S (now div 50) = Some strike"
    by (auto simp: rotation_striking_def PERIOD_def STRIKE_def split: if_splits)
  note facts = rotation_turn_Some [OF turn, unfolded st t]
  from facts(3) show ?thesis
    using window turn_candidates_not_STEADY [OF facts(3)] facts(1) facts(2)
    by (auto simp: turn_candidates_def set_spread_sends set_spread_receives turn_stage_def
        split: if_splits)
qed

theorem rotation_strikes_its_party_witness:
  "rotation_fault_for example_spread Receive ''http'' Text 50 = None
   \<and> rotation_fault_for example_spread Receive ''udp'' Text 0 \<noteq> None \<and> spread_sender example_spread ''udp'' = 0"
proof (intro conjI)
  show fault: "rotation_fault_for example_spread Receive ''udp'' Text 0 \<noteq> None"
    by code_simp
  then obtain f where "rotation_fault_for example_spread Receive ''udp'' Text 0 = Some f" by auto
  from rotation_strikes_its_party [OF this] show "spread_sender example_spread ''udp'' = 0" by simp
qed code_simp

text \<open>The turns are fair. From any turn on, within twice as many turns as there are Parties,
  every Party is struck on the side asked, as long as it has a transport there besides the
  steady one.\<close>

theorem rotation_reaches_every_party:
  assumes "p < length (sp_parties S)" and "length (sp_transports S) < 2 ^ 64"
    and "turn_candidates S st p \<noteq> []" and "st \<noteq> Process"
  shows "\<exists>turn strike. start \<le> turn \<and> turn < start + 2 * length (sp_parties S)
    \<and> rotation_turn S turn = Some strike \<and> sk_party strike = p \<and> sk_stage strike = st"
proof -
  let ?n = "length (sp_parties S)"
  define goal where "goal = (if st = Receive then p else ?n + p)"
  have n: "0 < ?n" using assms(1) by linarith
  have "goal < 2 * ?n" using assms(1) by (simp add: goal_def)
  define q where "q = (start + 2 * ?n - 1 - goal) div (2 * ?n)"
  define turn where "turn = goal + 2 * ?n * q"
  have "start \<le> turn" "turn < start + 2 * ?n"
    using next_multiple [OF \<open>goal < 2 * ?n\<close>, of start] unfolding turn_def q_def by blast+
  have turn: "turn = p + ?n * ((if st = Receive then 0 else 1) + 2 * q)"
    by (simp add: turn_def goal_def algebra_simps)
  have party: "turn mod ?n = p" using assms(1) by (simp only: turn mod_mult_self2 mod_less)
  have "turn div ?n = (if st = Receive then 0 else 1) + 2 * q"
    using assms(1) n by (simp add: turn)
  then have st: "turn_stage S turn = st" using assms(4) by (cases st) (auto simp: turn_stage_def)
  have "rotation_turn S turn \<noteq> None"
    using rotation_turn_None [OF assms(2), of turn] assms(3) by (simp add: party st)
  then obtain strike where strike: "rotation_turn S turn = Some strike" by blast
  with \<open>start \<le> turn\<close> \<open>turn < start + 2 * ?n\<close> show ?thesis using rotation_turn_Some(1,2) [OF strike] party st by auto
qed

theorem rotation_reaches_every_party_witness:
  "\<exists>turn strike. 7 \<le> turn \<and> turn < 13 \<and> rotation_turn example_spread turn = Some strike
     \<and> sk_party strike = 1 \<and> sk_stage strike = Send"
proof -
  have "length (sp_parties example_spread) = 3" "turn_candidates example_spread Send 1 \<noteq> []"
    by code_simp+
  moreover have "length (sp_transports example_spread) < 2 ^ 64"
    by (simp add: example_spread_def parties_spread_def)
  ultimately show ?thesis
    using rotation_reaches_every_party [of 1 example_spread Send 7] by simp
qed

text \<open>At \<open>Calm\<close> nothing is injected; at \<open>Realistic\<close> the table injects nothing, so outside the
  strike window of a turn no pair suffers anything, and within it only what the turn strikes; above
  it the steady transport still carries no fault on Receive or Send from either.\<close>

theorem leveled_injects:
  "leveled Calm = ([], False)
   \<and> (10 \<le> now mod 50 \<longrightarrow> fault_for N (fst (leveled Realistic)) st transport c round = None
        \<and> rotation_fault_for S st transport c now = None)
   \<and> (st \<noteq> Process \<longrightarrow> fault_for N (fst (leveled level)) st STEADY c round = None)
   \<and> rotation_fault_for S st STEADY c now = None"
proof (intro conjI impI)
  show "leveled Calm = ([], False)" by (simp add: leveled_def plan_none_def)
  show "fault_for N (fst (leveled Realistic)) st transport c round = None"
    by (simp add: leveled_def plan_none_def fault_for_def)
  show "rotation_fault_for S st transport c now = None" if "10 \<le> now mod 50"
    using that by (simp add: rotation_fault_for_def rotation_striking_def PERIOD_def STRIKE_def)
  show "fault_for N (fst (leveled level)) st STEADY c round = None" if "st \<noteq> Process"
    using that realistic_steady [of N level c round]
    by (cases st; cases level) (simp_all add: leveled_def plan_none_def fault_for_def)
  show "rotation_fault_for S st STEADY c now = None"
    using rotation_turn_Some(3) turn_candidates_not_STEADY
    by (force simp: rotation_fault_for_def rotation_striking_def split: option.splits if_splits)
qed

theorem leveled_injects_witness:
  "fault_for documented_node (fst (leveled Realistic)) Send ''http'' Text 4 = None
   \<and> rotation_fault_for example_spread Send ''http'' Text 63 = None"
  using leveled_injects [of 63 documented_node Send "''http''" Text 4 example_spread] by simp

end
