(* ===== verification/Ledger.thy ===== *)
theory Ledger
  imports Fault
begin

text \<open>
  What a run's verdicts add up to: a scope's standing (\<open>src/standing.rs\<close>), a pair's tally
  (\<open>src/schedule/tally.rs\<close>) and the ledger (\<open>src/schedule/ledger.rs\<close>). Both judgments have one
  contract, the locale \<open>judged_over_time\<close>, and the ledger keeps its tallies and its throughput in
  ordered maps, the interface of the prelude. \<open>observe::Activity\<close> is the items recorded into it.
\<close>

section \<open>Judged over time\<close>

locale judged_over_time =
  fixes start :: 's
    and step :: "'o \<Rightarrow> 's \<Rightarrow> 's"
    and failures :: "'s \<Rightarrow> nat"
    and health_of :: "'s \<Rightarrow> health"
    and passed :: "'o \<Rightarrow> bool"
    and failed :: "'o \<Rightarrow> bool"
  assumes failures_start: "failures start = 0"
    and failures_step: "failures (step r s) = failures s + (if failed r then 1 else 0)"
    and health_failed: "failed r \<Longrightarrow> health_of (step r s) = Done"
    and health_passed: "passed r \<Longrightarrow> \<not> failed r \<Longrightarrow>
      health_of (step r s) = (if failures s = 0 then Fine else Stressed)"
    and health_between: "\<not> passed r \<Longrightarrow> \<not> failed r \<Longrightarrow> health_of (step r s) = Stressed"
begin

lemma failures_fold: "failures (fold step rs start) = length (filter failed rs)"
proof (induction rs rule: rev_induct)
  case (snoc r rs)
  then show ?case by (simp add: failures_step)
qed (simp add: failures_start)

lemma health_history:
  assumes "rs \<noteq> []"
  shows "health_of (fold step rs start) =
    (if failed (last rs) then Done
     else if passed (last rs) \<and> list_all (\<lambda>r. \<not> failed r) rs then Fine else Stressed)"
proof -
  obtain r rs' where rs: "rs = rs' @ [r]" using assms by (cases rs rule: rev_cases) auto
  have "failures (fold step rs' start) = 0 \<longleftrightarrow> list_all (\<lambda>r. \<not> failed r) rs'"
    by (simp add: failures_fold filter_empty_conv list_all_iff)
  then show ?thesis
    by (cases "failed r"; cases "passed r") (simp_all add: rs health_failed health_passed health_between)
qed

end

section \<open>A scope's standing\<close>

datatype mark = Pass | Warn | Fail

record standing =
  sd_failures :: nat
  sd_last_pass :: bool
  sd_last_warn :: bool
  sd_line :: string

definition standing_default :: standing where
  "standing_default = \<lparr>sd_failures = 0, sd_last_pass = False, sd_last_warn = False, sd_line = []\<rparr>"

definition standing_record :: "mark \<times> string \<Rightarrow> standing \<Rightarrow> standing" where
  "standing_record = (\<lambda>(m, line) s.
     s\<lparr>sd_last_pass := (m = Pass), sd_last_warn := (m = Warn),
       sd_failures := (if m = Fail then sd_failures s + 1 else sd_failures s), sd_line := line\<rparr>)"

definition standing_health :: "standing \<Rightarrow> string \<Rightarrow> int \<Rightarrow> health_record" where
  "standing_health s scope now =
     (let (h, severity) =
        (if sd_last_pass s \<and> sd_failures s = 0 then (Fine, 0)
         else if sd_last_pass s then (Stressed, 45)
         else if sd_last_warn s then (Stressed, 40)
         else (Done, 90)) in
      \<lparr>hr_scope = scope, hr_health = h, hr_severity = severity, hr_evidence = sd_line s,
       hr_observed = now\<rparr>)"

interpretation standing: judged_over_time standing_default standing_record sd_failures
  "\<lambda>s. hr_health (standing_health s scope now)" "\<lambda>r. fst r = Pass" "\<lambda>r. fst r = Fail"
proof (unfold_locales, goal_cases)
  case (5 r s)
  then show ?case by (cases "fst r") (auto simp: standing_record_def standing_health_def split: prod.splits)
qed (auto simp: standing_default_def standing_record_def standing_health_def split: prod.splits)

section \<open>A pair's tally\<close>

record tally =
  ta_rounds :: nat
  ta_failures :: nat
  ta_last :: "outcome option"

definition tally_default :: tally where
  "tally_default = \<lparr>ta_rounds = 0, ta_failures = 0, ta_last = None\<rparr>"

definition outcome_failed :: "outcome \<Rightarrow> bool" where
  "outcome_failed r \<longleftrightarrow> (case r of Failed _ \<Rightarrow> True | _ \<Rightarrow> False)"

definition tally_fold :: "outcome \<Rightarrow> tally \<Rightarrow> tally" where
  "tally_fold r t =
     t\<lparr>ta_rounds := ta_rounds t + 1,
       ta_failures := (if outcome_failed r then ta_failures t + 1 else ta_failures t),
       ta_last := Some r\<rparr>"

definition rate_severity :: "tally \<Rightarrow> nat" where
  "rate_severity t =
     (if ta_rounds t = 0 then 40
      else let rate = (ta_failures t * 80) div ta_rounds t in max 1 (min rate 80))"

definition over_time :: "string \<Rightarrow> tally \<Rightarrow> int \<Rightarrow> health_record" where
  "over_time scope t now =
     (let passed = ta_rounds t - ta_failures t;
          (h, severity, ev) =
        (case ta_last t of
           Some Delivered \<Rightarrow>
             if ta_failures t = 0
             then (Fine, 0, decimal passed @ ''/'' @ decimal (ta_rounds t) @ '' rounds passed'')
             else (Stressed, rate_severity t,
                   decimal passed @ ''/'' @ decimal (ta_rounds t) @ '' rounds passed, ''
                   @ decimal (ta_failures t) @ '' failed'')
         | Some (OneSided why) \<Rightarrow> (Stressed, 40, why)
         | Some (Failed why) \<Rightarrow>
             (Done, 90, why @ '' '' @ em_dash @ '' '' @ decimal (ta_failures t) @ '' of ''
              @ decimal (ta_rounds t) @ '' rounds have failed'')
         | None \<Rightarrow> (Stressed, 40, ''not yet run'')) in
      \<lparr>hr_scope = scope, hr_health = h, hr_severity = severity, hr_evidence = ev,
       hr_observed = now\<rparr>)"

interpretation tallied: judged_over_time tally_default tally_fold ta_failures
  "\<lambda>t. hr_health (over_time scope t now)" "\<lambda>r. r = Delivered" outcome_failed
proof (unfold_locales, goal_cases)
  case (5 r s)
  then show ?case by (cases r) (simp_all add: tally_fold_def over_time_def outcome_failed_def)
qed (auto simp: tally_default_def tally_fold_def over_time_def outcome_failed_def split: outcome.splits)

section \<open>The ledger\<close>

datatype item_kind = StreamItem | JourneyItem | MessageItem

fun stage_item_kind :: "stage \<Rightarrow> item_kind" where
  "stage_item_kind Receive = StreamItem"
| "stage_item_kind Process = JourneyItem"
| "stage_item_kind Send = MessageItem"

fun outcome_detail :: "outcome \<Rightarrow> string" where
  "outcome_detail Delivered = ''delivered''"
| "outcome_detail (OneSided why) = why"
| "outcome_detail (Failed why) = why"

record item =
  it_kind :: item_kind
  it_scope :: string
  it_id :: string
  it_bytes :: nat
  it_detail :: string
  it_observed :: int

record throughput =
  tp_delivered :: nat
  tp_bytes :: nat
  tp_failed :: nat

definition throughput_default :: throughput where
  "throughput_default = \<lparr>tp_delivered = 0, tp_bytes = 0, tp_failed = 0\<rparr>"

record ledger =
  lg_node :: string
  lg_tallies :: "(string, tally) btree"
  lg_activity :: "item list"
  lg_item_seq :: nat
  lg_stages :: "(stage \<times> string, throughput) btree"

definition ledger_new :: "string \<Rightarrow> ledger" where
  "ledger_new node =
     \<lparr>lg_node = node, lg_tallies = [], lg_activity = [], lg_item_seq = 0, lg_stages = []\<rparr>"

text \<open>The branch of \<open>fold\<close> that counts a transport verdict.\<close>

definition moved :: "verdict \<Rightarrow> throughput \<Rightarrow> throughput" where
  "moved v m =
     (case v_outcome v of
        Delivered \<Rightarrow>
          (let m = m\<lparr>tp_delivered := tp_delivered m + 1\<rparr> in
           if v_stage v = Send then m\<lparr>tp_bytes := tp_bytes m + v_bytes v\<rparr> else m)
      | Failed _ \<Rightarrow> m\<lparr>tp_failed := tp_failed m + 1\<rparr>
      | OneSided _ \<Rightarrow> m)"

definition ledger_fold ::
    "node_api \<Rightarrow> int \<Rightarrow> verdict \<Rightarrow> ledger \<times> snapshot \<Rightarrow> ledger \<times> snapshot" where
  "ledger_fold N now v = (\<lambda>(L, snap).
     (let is_transport = (v_point v = None);
          L = (if is_transport
               then L\<lparr>lg_stages := btree_upsert (v_stage v, v_transport v) throughput_default (moved v)
                                   (lg_stages L)\<rparr>
               else L);
          scope = verdict_scope N (lg_node L) v;
          t = tally_fold (v_outcome v)
                (case btree_get (lg_tallies L) scope of None \<Rightarrow> tally_default | Some t \<Rightarrow> t);
          L = L\<lparr>lg_tallies := btree_insert scope t (lg_tallies L)\<rparr>;
          snap = snap @ [RecordHealth (over_time scope t now)];
          L = (if is_transport
               then L\<lparr>lg_item_seq := lg_item_seq L + 1,
                      lg_activity := lg_activity L @
                        [\<lparr>it_kind = stage_item_kind (v_stage v), it_scope = scope,
                          it_id = padded 8 (lg_item_seq L + 1), it_bytes = v_bytes v,
                          it_detail = outcome_detail (v_outcome v), it_observed = now\<rparr>]\<rparr>
               else L) in
      (L, snap)))"

definition stage_counts ::
    "node_api \<Rightarrow> observe_api \<Rightarrow> string \<Rightarrow> int \<Rightarrow> (stage \<times> string) \<times> throughput \<Rightarrow> snapshot" where
  "stage_counts N Ob node now = (\<lambda>((st, transport), m).
     (let scope = node @ ''/'' @ stage_name N st @ ''/'' @ transport;
          counts = [(counted_at Ob st, tp_delivered m), (Counted_Failed, tp_failed m)];
          counts = (if st = Send then counts @ [(Counted_Bytes, tp_bytes m)] else counts) in
      map (\<lambda>(counted, v). RecordCount
             \<lparr>cr_scope = scope, cr_counted = counted, cr_value = v, cr_observed = now\<rparr>) counts))"

definition ledger_close :: "node_api \<Rightarrow> observe_api \<Rightarrow> ledger \<Rightarrow> snapshot \<Rightarrow> int \<Rightarrow> snapshot" where
  "ledger_close N Ob L snap now =
     (let published = set (map hr_scope (health_records Ob snap)) in
      snap
      @ map (\<lambda>(scope, t). RecordHealth (over_time scope t now))
          (filter (\<lambda>(scope, t). scope \<notin> published) (lg_tallies L))
      @ concat (map (stage_counts N Ob (lg_node L) now) (lg_stages L)))"

definition ledger_tally :: "ledger \<Rightarrow> string \<Rightarrow> tally option" where
  "ledger_tally L scope = btree_get (lg_tallies L) scope"

section \<open>A fold of verdicts, part by part\<close>

abbreviation ledger_run ::
    "node_api \<Rightarrow> int \<Rightarrow> verdict list \<Rightarrow> ledger \<times> snapshot \<Rightarrow> ledger \<times> snapshot" where
  "ledger_run N now vs \<equiv> fold (ledger_fold N now) vs"

abbreviation transport_verdict :: "verdict \<Rightarrow> bool" where
  "transport_verdict v \<equiv> v_point v = None"

lemma lg_node_fold [simp]: "lg_node (fst (ledger_fold N now v Ls)) = lg_node (fst Ls)"
  by (cases Ls) (simp add: ledger_fold_def Let_def)

lemma lg_node_run [simp]: "lg_node (fst (ledger_run N now vs Ls)) = lg_node (fst Ls)"
  by (induction vs arbitrary: Ls) simp_all

lemma lg_tallies_fold:
  "lg_tallies (fst (ledger_fold N now v Ls)) =
     btree_upsert (verdict_scope N (lg_node (fst Ls)) v) tally_default (tally_fold (v_outcome v))
       (lg_tallies (fst Ls))"
  by (cases Ls) (simp add: ledger_fold_def Let_def btree_upsert_def)

lemma lg_tallies_run:
  "lg_tallies (fst (ledger_run N now vs Ls)) =
     fold (\<lambda>v. btree_upsert (verdict_scope N (lg_node (fst Ls)) v) tally_default (tally_fold (v_outcome v)))
       vs (lg_tallies (fst Ls))"
  by (induction vs arbitrary: Ls) (simp_all add: lg_tallies_fold)

lemma lg_stages_fold:
  "lg_stages (fst (ledger_fold N now v Ls)) =
     (if transport_verdict v
      then btree_upsert (v_stage v, v_transport v) throughput_default (moved v) (lg_stages (fst Ls))
      else lg_stages (fst Ls))"
  by (cases Ls) (simp add: ledger_fold_def Let_def)

lemma lg_stages_run:
  "lg_stages (fst (ledger_run N now vs Ls)) =
     fold (\<lambda>v. btree_upsert (v_stage v, v_transport v) throughput_default (moved v))
       (filter transport_verdict vs) (lg_stages (fst Ls))"
  by (induction vs arbitrary: Ls) (simp_all add: lg_stages_fold)

lemma lg_items_fold:
  "lg_item_seq (fst (ledger_fold N now v Ls)) =
     lg_item_seq (fst Ls) + (if transport_verdict v then 1 else 0)"
  "map it_id (lg_activity (fst (ledger_fold N now v Ls))) =
     map it_id (lg_activity (fst Ls))
     @ (if transport_verdict v then [padded 8 (lg_item_seq (fst Ls) + 1)] else [])"
  by (cases Ls; simp add: ledger_fold_def Let_def)+

lemma lg_items_run:
  "lg_item_seq (fst (ledger_run N now vs Ls)) =
     lg_item_seq (fst Ls) + length (filter transport_verdict vs)"
  "map it_id (lg_activity (fst (ledger_run N now vs Ls))) =
     map it_id (lg_activity (fst Ls))
     @ map (\<lambda>i. padded 8 (lg_item_seq (fst Ls) + 1 + i)) [0..<length (filter transport_verdict vs)]"
proof (induction vs arbitrary: Ls)
  case (Cons v vs)
  {
    case 1
    then show ?case by (simp add: Cons(1) lg_items_fold)
  next
    case 2
    then show ?case
      by (simp add: Cons(2) lg_items_fold upt_conv_Cons map_Suc_upt [symmetric] o_def
          del: upt_Suc)
  }
qed simp_all

lemma snapshot_fold:
  "snd (ledger_fold N now v Ls) =
     snd Ls @ [RecordHealth (over_time (verdict_scope N (lg_node (fst Ls)) v)
       (the (ledger_tally (fst (ledger_fold N now v Ls)) (verdict_scope N (lg_node (fst Ls)) v))) now)]"
  by (cases Ls) (simp add: ledger_fold_def Let_def ledger_tally_def btree_get_insert)

section \<open>Tallies and throughput as histories\<close>

lemma tally_history:
  "fold tally_fold rs t =
     \<lparr>ta_rounds = ta_rounds t + length rs, ta_failures = ta_failures t + length (filter outcome_failed rs),
      ta_last = (if rs = [] then ta_last t else Some (last rs))\<rparr>"
  by (induction rs arbitrary: t) (simp_all add: tally_fold_def)

lemma fold_outcomes:
  "fold (\<lambda>v. tally_fold (v_outcome v)) vs t = fold tally_fold (map v_outcome vs) t"
  by (simp add: fold_map o_def)

lemma moved_history:
  assumes "\<And>v. v \<in> set vs \<Longrightarrow> v_stage v = st"
  shows "fold moved vs m =
     \<lparr>tp_delivered = tp_delivered m + length (filter (\<lambda>v. v_outcome v = Delivered) vs),
      tp_bytes = tp_bytes m + (if st = Send
        then sum_list (map v_bytes (filter (\<lambda>v. v_outcome v = Delivered) vs)) else 0),
      tp_failed = tp_failed m + length (filter (\<lambda>v. outcome_failed (v_outcome v)) vs)\<rparr>"
  using assms
proof (induction vs arbitrary: m)
  case (Cons v vs)
  then show ?case
    by (cases "v_outcome v") (simp_all add: moved_def Let_def outcome_failed_def)
qed simp

lemma rate_severity_bounds: "1 \<le> rate_severity t \<and> rate_severity t \<le> 80"
  by (simp add: rate_severity_def Let_def)

text \<open>C3: a pair's tally is its history. After any sequence of verdicts the tally of a scope holds how
  many verdicts named it, how many of them failed and the last outcome; a scope no verdict named
  has none.\<close>

theorem ledger_refines_history:
  "ledger_tally (fst (ledger_run N now vs (ledger_new node, snap))) scope =
     (let rs = map v_outcome (filter (\<lambda>v. verdict_scope N node v = scope) vs) in
      if rs = [] then None
      else Some \<lparr>ta_rounds = length rs, ta_failures = length (filter outcome_failed rs),
                 ta_last = Some (last rs)\<rparr>)"
proof (cases "filter (\<lambda>v. verdict_scope N node v = scope) vs")
  case Nil
  then show ?thesis
    by (simp add: ledger_tally_def lg_tallies_run ledger_new_def bt.get_fold_upsert btree_get_Nil)
next
  case (Cons w ws)
  then show ?thesis
    by (simp add: ledger_tally_def lg_tallies_run ledger_new_def bt.get_fold_upsert btree_get_Nil
        fold_outcomes tally_history tally_default_def tally_fold_def Let_def)
qed

text \<open>The throughput of a stage over a transport counts its transport verdicts alone and each
  once: those delivered, the bytes of those delivered where the stage is Send, and those failed;
  the identity points beneath add nothing, and a stage that judged nothing there has no figure.\<close>

theorem throughput_counts_transport_verdicts:
  "btree_get (lg_stages (fst (ledger_run N now vs (ledger_new node, snap)))) (st, t) =
     (let ms = filter (\<lambda>v. v_point v = None \<and> v_stage v = st \<and> v_transport v = t) vs;
          ds = filter (\<lambda>v. v_outcome v = Delivered) ms in
      if ms = [] then None
      else Some \<lparr>tp_delivered = length ds,
                 tp_bytes = (if st = Send then sum_list (map v_bytes ds) else 0),
                 tp_failed = length (filter (\<lambda>v. outcome_failed (v_outcome v)) ms)\<rparr>)"
proof -
  define ms where "ms = filter (\<lambda>v. v_point v = None \<and> v_stage v = st \<and> v_transport v = t) vs"
  have ms: "filter (\<lambda>v. (v_stage v, v_transport v) = (st, t)) (filter transport_verdict vs) = ms"
    by (auto simp: ms_def intro: filter_cong)
  have "\<And>v. v \<in> set ms \<Longrightarrow> v_stage v = st" by (simp add: ms_def)
  note moved = moved_history [OF this]
  show ?thesis
    unfolding lg_stages_run bt.get_fold_upsert ms ms_def [symmetric]
    by (cases ms) (use moved [of ms] in \<open>simp_all add: ledger_new_def btree_get_Nil throughput_default_def Let_def\<close>)
qed

text \<open>What a pair publishes is judged by its whole history. With at least one round run it is
  red exactly when the last round failed, green exactly when it delivered and none ever failed, and
  yellow otherwise; green has severity 0, red 90, and yellow between 1 and 80, so the three never
  overlap; and the failures never exceed the rounds, so the passed rounds do not underflow.\<close>

theorem over_time_judges_history:
  assumes "rs \<noteq> []"
  shows "let t = fold tally_fold rs tally_default; r = over_time scope t now in
    (hr_health r = Done \<longleftrightarrow> outcome_failed (last rs)) \<and>
    (hr_health r = Fine \<longleftrightarrow> last rs = Delivered \<and> (\<forall>p \<in> set rs. \<not> outcome_failed p)) \<and>
    (hr_health r = Done \<or> hr_health r = Fine \<or> hr_health r = Stressed) \<and>
    (hr_severity r = 0 \<longleftrightarrow> hr_health r = Fine) \<and> (hr_severity r = 90 \<longleftrightarrow> hr_health r = Done) \<and>
    (hr_health r = Stressed \<longrightarrow> 1 \<le> hr_severity r \<and> hr_severity r \<le> 80) \<and>
    ta_failures t \<le> ta_rounds t"
proof -
  define t where "t = fold tally_fold rs tally_default"
  have last: "ta_last t = Some (last rs)" and "ta_failures t \<le> ta_rounds t"
    using assms by (auto simp: t_def tally_history tally_default_def)
  moreover have "hr_severity (over_time scope t now) = 0 \<longleftrightarrow> hr_health (over_time scope t now) = Fine"
    "hr_severity (over_time scope t now) = 90 \<longleftrightarrow> hr_health (over_time scope t now) = Done"
    "hr_health (over_time scope t now) = Stressed \<longrightarrow>
       1 \<le> hr_severity (over_time scope t now) \<and> hr_severity (over_time scope t now) \<le> 80"
    using last rate_severity_bounds [of t] by (auto simp: over_time_def Let_def split: outcome.splits)
  moreover note tallied.health_history [OF assms, of scope now, folded t_def]
  ultimately show ?thesis
    by (auto simp: t_def [symmetric] Let_def list_all_iff outcome_failed_def split: if_splits)
qed

theorem over_time_judges_history_witness:
  "let t = fold tally_fold [Delivered, Failed ''x'', Delivered] tally_default;
       r = over_time ''s'' t 0 in hr_health r = Stressed \<and> hr_severity r = 26 \<and> ta_failures t \<le> ta_rounds t"
  using over_time_judges_history [of "[Delivered, Failed ''x'', Delivered]" "''s''" 0]
  by (simp add: Let_def over_time_def tally_fold_def tally_default_def outcome_failed_def
      rate_severity_def)

text \<open>A scope's standing is judged the same way from the marks of its rounds: red exactly when
  the last failed, green exactly when the last passed and none ever failed, yellow otherwise, with
  the last round's line as its evidence.\<close>

theorem standing_judges_history:
  assumes "rs \<noteq> []"
  shows "let s = fold standing_record rs standing_default; r = standing_health s scope now in
    (hr_health r = Done \<longleftrightarrow> fst (last rs) = Fail) \<and>
    (hr_health r = Fine \<longleftrightarrow> fst (last rs) = Pass \<and> Fail \<notin> fst ` set rs) \<and>
    (hr_health r = Done \<or> hr_health r = Fine \<or> hr_health r = Stressed) \<and>
    sd_failures s = length (filter (\<lambda>r. fst r = Fail) rs) \<and> hr_evidence r = snd (last rs)"
proof -
  define s where "s = fold standing_record rs standing_default"
  obtain r rs' where rs: "rs = rs' @ [r]" using assms by (cases rs rule: rev_cases) auto
  then have "s = standing_record r (fold standing_record rs' standing_default)" by (simp add: s_def)
  then have "hr_evidence (standing_health s scope now) = snd (last rs)"
    by (simp add: rs standing_health_def standing_record_def split: prod.splits)
  moreover note standing.health_history [OF assms, of scope now, folded s_def]
    standing.failures_fold [of rs, folded s_def]
  ultimately show ?thesis
    by (force simp: s_def [symmetric] Let_def list_all_iff split: if_splits)
qed

theorem standing_judges_history_witness:
  "hr_health (standing_health (fold standing_record [(Fail, ''a''), (Pass, ''b'')] standing_default)
     ''s'' 0) = Stressed"
  using standing_judges_history [of "[(Fail, ''a''), (Pass, ''b'')]" "''s''" 0]
  by (auto simp: Let_def)

section \<open>Closing a round\<close>

lemma recorded_stage_counts: "recorded (concat (map (stage_counts N Ob node now) ms)) = []"
  by (induction ms) (auto simp: stage_counts_def Let_def)

lemma recorded_map_pair: "recorded (map (\<lambda>(a, b). RecordHealth (f a b)) xs) = map (\<lambda>(a, b). f a b) xs"
  by (induction xs) auto

lemma hr_scope_over_time [simp]: "hr_scope (over_time scope t now) = scope"
  by (simp add: over_time_def Let_def split: prod.splits)

lemma close_added:
  assumes "records_scopes Ob"
  obtains added where "recorded (ledger_close N Ob L snap now) = recorded snap @ added"
    and "hr_scope ` set (recorded snap @ added) = hr_scope ` set (recorded snap) \<union> fst ` set (lg_tallies L)"
    and "\<forall>r \<in> set added. hr_scope r \<notin> hr_scope ` set (recorded snap)
      \<and> (\<exists>t. (hr_scope r, t) \<in> set (lg_tallies L) \<and> r = over_time (hr_scope r) t now)"
proof -
  have published: "set (map hr_scope (health_records Ob snap)) = hr_scope ` set (recorded snap)"
    using assms by (simp add: records_scopes_def)
  define missing where "missing = filter (\<lambda>(scope, t). scope \<notin> hr_scope ` set (recorded snap)) (lg_tallies L)"
  define added where "added = map (\<lambda>(scope, t). over_time scope t now) missing"
  have "recorded (ledger_close N Ob L snap now) = recorded snap @ added"
    unfolding ledger_close_def Let_def published missing_def [symmetric]
    by (simp add: recorded_stage_counts recorded_map_pair added_def)
  moreover have "hr_scope ` set added = fst ` set missing"
    by (force simp: added_def image_iff)
  then have "hr_scope ` set (recorded snap @ added) = hr_scope ` set (recorded snap) \<union> fst ` set (lg_tallies L)"
    by (force simp: image_Un missing_def)
  moreover have "\<forall>r \<in> set added. hr_scope r \<notin> hr_scope ` set (recorded snap)
      \<and> (\<exists>t. (hr_scope r, t) \<in> set (lg_tallies L) \<and> r = over_time (hr_scope r) t now)"
    by (auto simp: added_def missing_def)
  ultimately show thesis by (rule that)
qed

lemma close_scopes:
  assumes "records_scopes Ob"
  shows "hr_scope ` set (recorded (ledger_close N Ob L snap now)) =
    hr_scope ` set (recorded snap) \<union> fst ` set (lg_tallies L)"
  using close_added [OF assms, of N L snap now] by metis

lemma run_scopes:
  "fst ` set (lg_tallies (fst (ledger_run N now vs Ls))) =
     fst ` set (lg_tallies (fst Ls)) \<union> verdict_scope N (lg_node (fst Ls)) ` set vs"
  "hr_scope ` set (recorded (snd (ledger_run N now vs Ls))) =
     hr_scope ` set (recorded (snd Ls)) \<union> verdict_scope N (lg_node (fst Ls)) ` set vs"
  by (induction vs arbitrary: Ls)
    (simp_all add: lg_tallies_fold snapshot_fold btree_upsert_def fst_set_btree_insert)

text \<open>Closing a round leaves no pair off the board. After it the snapshot has a health record
  for every scope the ledger has ever judged, whether this round's verdicts named it or not; each
  scope it adds was missing and is judged by its tally; and what was recorded stays as it was.\<close>

theorem close_publishes_every_pair:
  assumes "records_scopes Ob"
  shows "\<exists>added. recorded (ledger_close N Ob L snap now) = recorded snap @ added
    \<and> hr_scope ` set (recorded snap @ added) = hr_scope ` set (recorded snap) \<union> fst ` set (lg_tallies L)
    \<and> (\<forall>r \<in> set added. hr_scope r \<notin> hr_scope ` set (recorded snap)
         \<and> (\<exists>t. (hr_scope r, t) \<in> set (lg_tallies L) \<and> r = over_time (hr_scope r) t now))"
  using close_added [OF assms, of N L snap now] by metis

text \<open>Reading a snapshot by the records made is one way to satisfy it.\<close>

definition plain_observe :: observe_api where
  "plain_observe =
     \<lparr>health_records = recorded,
      health_under = (\<lambda>s scope. filter (\<lambda>r. prefix scope (hr_scope r)) (recorded s)),
      worst_under = (\<lambda>s scope. None),
      counted_at = (\<lambda>st. case st of Receive \<Rightarrow> Counted_Streams | Process \<Rightarrow> Counted_Journeys
                                  | Send \<Rightarrow> Counted_Messages)\<rparr>"

lemma records_scopes_plain: "records_scopes plain_observe"
  by (simp add: records_scopes_def plain_observe_def)

theorem close_publishes_every_pair_witness:
  "\<exists>added. hr_scope ` set (recorded [] @ added) = {''a'', ''b''}"
  using close_publishes_every_pair [OF records_scopes_plain, of documented_node
      "\<lparr>lg_node = [], lg_tallies = [(''a'', tally_default), (''b'', tally_default)], lg_activity = [],
        lg_item_seq = 0, lg_stages = []\<rparr>" "[]" 0]
  by auto

section \<open>Items\<close>

lemma digits_value_zeros: "digits_value (replicate k (CHR ''0'') @ s) = digits_value s"
  by (induction k) (simp_all add: digits_value_def digit_value_def)

lemma padded_inj: "padded w n = padded w m \<longleftrightarrow> n = m"
  unfolding padded_def by (metis digits_value_zeros digits_value_decimal)

text \<open>Every transport verdict is one item of the activity, none twice: as many items as
  transport verdicts, each with an identifier of its own.\<close>

theorem activity_items_distinct:
  "let L = fst (ledger_run N now vs (ledger_new node, snap)) in
     length (lg_activity L) = length (filter (\<lambda>v. v_point v = None) vs) \<and>
     distinct (map it_id (lg_activity L))"
proof -
  define L where "L = fst (ledger_run N now vs (ledger_new node, snap))"
  have ids: "map it_id (lg_activity L) =
      map (\<lambda>i. padded 8 (1 + i)) [0..<length (filter transport_verdict vs)]"
    by (simp add: L_def lg_items_run ledger_new_def)
  then have "distinct (map it_id (lg_activity L))"
    by (simp add: distinct_map inj_on_def padded_inj)
  moreover have "length (lg_activity L) = length (filter transport_verdict vs)"
    using arg_cong [OF ids, of length] by simp
  ultimately show ?thesis by (simp add: L_def)
qed

end
