(* ===== verification/Workers.thy ===== *)
theory Workers
  imports Verdict "HOL-Library.Multiset"
begin

text \<open>
  The pairs of a round driven from several threads (\<open>src/schedule/workers.rs\<close>). The threads are a
  step relation: one shared counter, and each hand takes the next index, judges that item, keeps
  the verdict and goes on until the counter is past the end. A step of a hand is either its
  \<open>fetch_add\<close>, which is atomic, or the judging of the item it took; a schedule is any sequence of
  hands.
\<close>

section \<open>Pairs and slices\<close>

definition all_pairs :: "'t list \<Rightarrow> (nat \<times> contract) list" where
  "all_pairs transports = concat (map (\<lambda>at. map (\<lambda>c. (at, c)) CONTRACTS) [0..<length transports])"

lemma length_all_pairs: "length (all_pairs ts) = length ts * 20"
  by (simp add: all_pairs_def length_concat o_def sum_list_triv)

definition slice :: "'p list \<Rightarrow> nat \<Rightarrow> nat option \<Rightarrow> 'p list" where
  "slice pairs cursor bound =
     (case map_option (\<lambda>n. min n (length pairs)) bound of
        None \<Rightarrow> pairs
      | Some n \<Rightarrow>
          if pairs = [] then []
          else map (\<lambda>step. pairs ! ((cursor + step) mod length pairs)) [0..<n])"

section \<open>The threads\<close>

datatype 'v hand = Taking "(nat \<times> 'v) list" | Judging nat "(nat \<times> 'v) list" | Ended "(nat \<times> 'v) list"

fun mine :: "'v hand \<Rightarrow> (nat \<times> 'v) list" where
  "mine (Taking m) = m"
| "mine (Judging at m) = m"
| "mine (Ended m) = m"

record 'v drive =
  dr_next :: nat
  dr_hands :: "'v hand list"

definition drive_init :: "'i list \<Rightarrow> nat \<Rightarrow> 'v drive" where
  "drive_init items workers =
     (let workers = min (max workers 1) (max (length items) 1) in
      \<lparr>dr_next = 0, dr_hands = replicate workers (Taking [])\<rparr>)"

text \<open>One step of one hand; an ended hand has none.\<close>

definition hand_step :: "'i list \<Rightarrow> ('i \<Rightarrow> 'v) \<Rightarrow> nat \<Rightarrow> 'v drive \<Rightarrow> 'v drive option" where
  "hand_step items judge w d =
     (if length (dr_hands d) \<le> w then None
      else (case dr_hands d ! w of
          Taking m \<Rightarrow>
            let at = dr_next d;
                h = (if at < length items then Judging at m else Ended m) in
            Some (d\<lparr>dr_next := at + 1, dr_hands := (dr_hands d)[w := h]\<rparr>)
        | Judging at m \<Rightarrow>
            Some (d\<lparr>dr_hands := (dr_hands d)[w := Taking (m @ [(at, judge (items ! at))])]\<rparr>)
        | Ended m \<Rightarrow> None))"

definition joined :: "'v drive \<Rightarrow> bool" where
  "joined d \<longleftrightarrow> list_all (\<lambda>h. case h of Ended _ \<Rightarrow> True | _ \<Rightarrow> False) (dr_hands d)"

definition drive_verdicts :: "'v drive \<Rightarrow> 'v list" where
  "drive_verdicts d = map snd (sort_key fst (concat (map mine (dr_hands d))))"

inductive drives :: "'i list \<Rightarrow> ('i \<Rightarrow> 'v) \<Rightarrow> 'v drive \<Rightarrow> 'v drive \<Rightarrow> bool" for items judge where
  here: "drives items judge d d"
| on: "drives items judge d e \<Longrightarrow> hand_step items judge w e = Some f \<Longrightarrow> drives items judge d f"

text \<open>
  \<open>drive_each\<close> under a schedule: the hands run in the order it gives them, a hand that has ended
  passing its turn; the verdicts are there once every hand has been joined.
\<close>

definition drive_each :: "nat list \<Rightarrow> 'i list \<Rightarrow> nat \<Rightarrow> ('i \<Rightarrow> 'v) \<Rightarrow> 'v list option" where
  "drive_each schedule items workers judge =
     (let d = fold (\<lambda>w d. case hand_step items judge w d of None \<Rightarrow> d | Some e \<Rightarrow> e) schedule
                (drive_init items workers) in
      if joined d then Some (drive_verdicts d) else None)"

text \<open>What every schedule gives, by the theorems below: the judge's verdicts in the pairs' order.\<close>

definition drive_selected :: "'t list \<Rightarrow> (nat \<times> contract) list \<Rightarrow> ('t \<Rightarrow> contract \<Rightarrow> 'v) \<Rightarrow> 'v list" where
  "drive_selected transports pairs judge = map (\<lambda>(at, c). judge (transports ! at) c) pairs"

definition drive_pairs :: "'t list \<Rightarrow> ('t \<Rightarrow> contract \<Rightarrow> 'v) \<Rightarrow> 'v list" where
  "drive_pairs transports judge = drive_selected transports (all_pairs transports) judge"

section \<open>The invariant of the threads\<close>

fun taken :: "'v hand \<Rightarrow> nat list" where
  "taken (Judging at m) = at # map fst m"
| "taken h = map fst (mine h)"

definition drive_inv :: "'i list \<Rightarrow> ('i \<Rightarrow> 'v) \<Rightarrow> 'v drive \<Rightarrow> bool" where
  "drive_inv items judge d \<longleftrightarrow>
     dr_hands d \<noteq> [] \<and>
     mset (concat (map taken (dr_hands d))) = mset [0..<min (dr_next d) (length items)] \<and>
     (\<forall>h \<in> set (dr_hands d). \<forall>(at, v) \<in> set (mine h). v = judge (items ! at)) \<and>
     (\<forall>m. Ended m \<in> set (dr_hands d) \<longrightarrow> length items \<le> dr_next d)"

lemma hand_ended: "(case h of Ended m \<Rightarrow> True | _ \<Rightarrow> False) \<longleftrightarrow> (\<exists>m. h = Ended m)"
  by (cases h) auto

lemma mset_concat_update:
  assumes "w < length hs"
  shows "mset (concat (map f (hs[w := h]))) + mset (f (hs ! w)) =
    mset (concat (map f hs)) + mset (f h)"
  using assms
proof (induction hs arbitrary: w)
  case (Cons g hs)
  then show ?case by (cases w) (auto simp: ac_simps)
qed simp

lemma drive_inv_init: "drive_inv items judge (drive_init items workers)"
proof -
  have "concat (map taken (replicate n (Taking []))) = []" for n by (induction n) simp_all
  then show ?thesis by (auto simp: drive_inv_def drive_init_def Let_def)
qed

lemma drive_inv_update:
  assumes inv: "drive_inv items judge d" and w: "w < length (dr_hands d)"
    and taken: "mset (taken h) + mset [0..<min (dr_next d) (length items)] =
      mset (taken (dr_hands d ! w)) + mset [0..<min n (length items)]"
    and judged: "\<And>at v. (at, v) \<in> set (mine h) \<Longrightarrow>
      (at, v) \<in> set (mine (dr_hands d ! w)) \<or> v = judge (items ! at)"
    and ended: "\<And>m. h = Ended m \<Longrightarrow> length items \<le> n" and n: "dr_next d \<le> n"
  shows "drive_inv items judge (d\<lparr>dr_next := n, dr_hands := (dr_hands d)[w := h]\<rparr>)"
proof -
  let ?hs = "(dr_hands d)[w := h]"
  have old: "dr_hands d ! w \<in> set (dr_hands d)" using w by simp
  have mem: "g = h \<or> g \<in> set (dr_hands d)" if "g \<in> set ?hs" for g
    using that set_update_subset_insert [of "dr_hands d" w h] by auto
  have "mset (concat (map taken ?hs)) = mset [0..<min n (length items)]"
    using mset_concat_update [OF w, of taken h] taken inv
    by (simp add: drive_inv_def union_commute del: mset_upt)
  moreover have "v = judge (items ! at)" if "g \<in> set ?hs" "(at, v) \<in> set (mine g)" for g at v
    using mem [OF that(1)] that(2) judged old inv unfolding drive_inv_def by blast
  moreover have "length items \<le> n" if "Ended m \<in> set ?hs" for m
    using mem [OF that] ended n inv unfolding drive_inv_def by (metis le_trans)
  ultimately show ?thesis using inv by (auto simp: drive_inv_def)
qed

lemma drive_inv_step:
  assumes inv: "drive_inv items judge d" and step: "hand_step items judge w d = Some e"
  shows "drive_inv items judge e"
proof -
  from step have w: "w < length (dr_hands d)"
    by (auto simp: hand_step_def not_le split: if_splits)
  show ?thesis
  proof (cases "dr_hands d ! w")
    case (Taking m)
    define h where "h = (if dr_next d < length items then Judging (dr_next d) m else Ended m)"
    have "drive_inv items judge (d\<lparr>dr_next := dr_next d + 1, dr_hands := (dr_hands d)[w := h]\<rparr>)"
      by (rule drive_inv_update [OF inv w])
        (auto simp: h_def Taking min_def not_less_eq_eq simp del: mset_upt split: if_splits dest: le_antisym)
    with step Taking w show ?thesis by (simp add: hand_step_def Let_def h_def)
  next
    case (Judging at m)
    have "drive_inv items judge (d\<lparr>dr_next := dr_next d,
        dr_hands := (dr_hands d)[w := Taking (m @ [(at, judge (items ! at))])]\<rparr>)"
      by (rule drive_inv_update [OF inv w]) (auto simp: Judging simp del: mset_upt)
    with step Judging w show ?thesis by (simp add: hand_step_def)
  next
    case (Ended m)
    with step w show ?thesis by (simp add: hand_step_def)
  qed
qed

lemma drive_inv_drives:
  "drives items judge d e \<Longrightarrow> drive_inv items judge d \<Longrightarrow> drive_inv items judge e"
  by (induction rule: drives.induct) (auto intro: drive_inv_step)

lemma drive_inv_joined:
  assumes inv: "drive_inv items judge d" and joined: "joined d"
  shows "drive_verdicts d = map judge items"
proof -
  let ?ps = "concat (map mine (dr_hands d))"
  have ended: "\<exists>m. h = Ended m" if "h \<in> set (dr_hands d)" for h
    using joined that by (simp add: joined_def list_all_iff hand_ended)
  from inv have "dr_hands d \<noteq> []" by (simp add: drive_inv_def)
  with ended obtain m where "Ended m \<in> set (dr_hands d)" by (metis list.set_intros(1) neq_Nil_conv)
  with inv have "length items \<le> dr_next d" by (auto simp: drive_inv_def)
  moreover have "map taken (dr_hands d) = map (map fst \<circ> mine) (dr_hands d)"
    using ended by (force intro!: map_cong)
  then have "concat (map taken (dr_hands d)) = map fst ?ps" by (simp only: map_concat map_map)
  ultimately have "mset (map fst ?ps) = mset [0..<length items]"
    using inv by (simp add: drive_inv_def min_def)
  then have "mset (map fst (sort_key fst ?ps)) = mset [0..<length items]" by simp
  moreover have "sorted (map fst (sort_key fst ?ps))" by (rule sorted_sort_key)
  ultimately have "sort [0..<length items] = map fst (sort_key fst ?ps)" by (rule properties_for_sort)
  then have keys: "map fst (sort_key fst ?ps) = [0..<length items]" by (simp add: sorted_sort_id)
  have "snd p = judge (items ! fst p)" if "p \<in> set (sort_key fst ?ps)" for p
    using inv that by (fastforce simp: drive_inv_def)
  then have "drive_verdicts d = map (\<lambda>p. judge (items ! fst p)) (sort_key fst ?ps)"
    by (simp add: drive_verdicts_def)
  also have "\<dots> = map (\<lambda>i. judge (items ! i)) [0..<length items]"
    by (simp add: keys [symmetric] o_def)
  also have "\<dots> = map judge items" by (metis (no_types, lifting) map_nth map_map o_def map_cong)
  finally show ?thesis .
qed

section \<open>The work left\<close>

fun hand_work :: "'v hand \<Rightarrow> nat" where
  "hand_work (Taking m) = 1"
| "hand_work (Judging at m) = 2"
| "hand_work (Ended m) = 0"

definition drive_work :: "'i list \<Rightarrow> 'v drive \<Rightarrow> nat" where
  "drive_work items d = 2 * (length items - dr_next d) + sum_list (map hand_work (dr_hands d))"

lemma sum_list_map_update:
  fixes f :: "'a \<Rightarrow> nat"
  shows "w < length hs \<Longrightarrow> sum_list (map f (hs[w := h])) + f (hs ! w) = sum_list (map f hs) + f h"
proof (induction hs arbitrary: w)
  case (Cons g hs)
  then show ?case by (cases w) auto
qed simp

text \<open>Every step is one unit of the work, so every run has the same length.\<close>

lemma hand_step_work:
  assumes "hand_step items judge w d = Some e"
  shows "drive_work items d = drive_work items e + 1"
proof -
  from assms have w: "w < length (dr_hands d)"
    by (auto simp: hand_step_def not_le split: if_splits)
  note upd = sum_list_map_update [OF w, of hand_work]
  show ?thesis
  proof (cases "dr_hands d ! w")
    case (Taking m)
    with assms w upd [of "Judging (dr_next d) m"] upd [of "Ended m"] show ?thesis
      by (cases "dr_next d < length items") (auto simp: hand_step_def drive_work_def Let_def)
  next
    case (Judging at m)
    with assms w upd [of "Taking (m @ [(at, judge (items ! at))])"] show ?thesis
      by (auto simp: hand_step_def drive_work_def)
  next
    case (Ended m)
    with assms w show ?thesis by (simp add: hand_step_def)
  qed
qed

lemma hand_step_None:
  "w < length (dr_hands d) \<Longrightarrow> hand_step items judge w d = None \<longleftrightarrow> (\<exists>m. dr_hands d ! w = Ended m)"
  by (auto simp: hand_step_def Let_def split: hand.splits)

lemma hand_step_hands:
  "hand_step items judge w d = Some e \<Longrightarrow> length (dr_hands e) = length (dr_hands d)"
  by (auto simp: hand_step_def Let_def split: hand.splits if_splits)

abbreviation drive_turn :: "'i list \<Rightarrow> ('i \<Rightarrow> 'v) \<Rightarrow> nat \<Rightarrow> 'v drive \<Rightarrow> 'v drive" where
  "drive_turn items judge w d \<equiv> (case hand_step items judge w d of None \<Rightarrow> d | Some e \<Rightarrow> e)"

lemma drive_turn_drives: "drives items judge d e \<Longrightarrow> drives items judge d (drive_turn items judge w e)"
  by (auto intro: drives.on split: option.splits)

lemma fold_turns_drives: "drives items judge d (fold (drive_turn items judge) ws e)"
  if "drives items judge d e"
  using that by (induction ws arbitrary: e) (auto intro: drive_turn_drives)

lemma fold_turns_work: "drive_work items (fold (drive_turn items judge) ws d) \<le> drive_work items d"
proof (induction ws arbitrary: d)
  case (Cons w ws)
  have "drive_work items (drive_turn items judge w d) \<le> drive_work items d"
    using hand_step_work by (fastforce split: option.splits)
  with Cons [of "drive_turn items judge w d"] show ?case by simp
qed simp

lemma fold_turns_hands:
  "length (dr_hands (fold (drive_turn items judge) ws d)) = length (dr_hands d)"
proof (induction ws arbitrary: d)
  case (Cons w ws)
  then show ?case using hand_step_hands by (fastforce split: option.splits)
qed simp

lemma fold_turns_progress:
  assumes "w \<in> set ws" "hand_step items judge w d \<noteq> None"
  shows "drive_work items (fold (drive_turn items judge) ws d) < drive_work items d"
  using assms
proof (induction ws arbitrary: d)
  case (Cons x ws)
  show ?case
  proof (cases "hand_step items judge x d")
    case None
    with Cons show ?thesis by auto
  next
    case (Some e)
    then show ?thesis using hand_step_work [OF Some] fold_turns_work [of items judge ws e] by simp
  qed
qed simp

lemma joined_iff_stuck: "joined d \<longleftrightarrow> (\<forall>w < length (dr_hands d). hand_step items judge w d = None)"
  by (simp add: joined_def list_all_length hand_step_None hand_ended)

lemma sweep_progress:
  assumes "\<not> joined d" "length (dr_hands d) = n"
  shows "drive_work items (fold (drive_turn items judge) [0..<n] d) < drive_work items d"
proof -
  from assms obtain w where "w < n" "hand_step items judge w d \<noteq> None"
    using joined_iff_stuck [of d items judge] by blast
  then show ?thesis by (intro fold_turns_progress [of w]) auto
qed

lemma joined_turns: "joined d \<Longrightarrow> fold (drive_turn items judge) ws d = d"
proof (induction ws)
  case (Cons w ws)
  then have "hand_step items judge w d = None"
    using joined_iff_stuck [of d items judge] by (cases "w < length (dr_hands d)") (auto simp: hand_step_def)
  with Cons show ?case by simp
qed simp

lemma sweeps_join:
  assumes "length (dr_hands d) = n" "drive_work items d \<le> k"
  shows "joined (fold (drive_turn items judge) (concat (replicate k [0..<n])) d)"
  using assms
proof (induction k arbitrary: d)
  case 0
  then show ?case using sweep_progress [of d n items judge] by fastforce
next
  case (Suc k)
  show ?case
  proof (cases "joined d")
    case True
    then show ?thesis by (simp only: joined_turns)
  next
    case False
    with Suc.prems sweep_progress [of d n items judge]
    have "drive_work items (fold (drive_turn items judge) [0..<n] d) \<le> k" by simp
    with Suc.prems show ?thesis by (simp add: Suc.IH fold_turns_hands)
  qed
qed

section \<open>What is driven\<close>

text \<open>C1: whatever order the threads run in, once they have all been joined the verdicts are the
  judge's on every item, each once, in the items' own order; and no run can go wrong before that,
  since as long as one thread has not ended some thread can take a step, and every step uses up
  one of the \<open>2 * items + threads\<close> the whole run has.\<close>

theorem any_interleaving_judges_in_order:
  fixes judge :: "'i \<Rightarrow> 'v" and d :: "'v drive"
  assumes "drives items judge (drive_init items workers) d"
  shows "(joined d \<longrightarrow> drive_verdicts d = map judge items)
    \<and> (\<not> joined d \<longrightarrow> (\<exists>w e. hand_step items judge w d = Some e))
    \<and> (\<forall>w e. hand_step items judge w d = Some e \<longrightarrow> drive_work items d = drive_work items e + 1)
    \<and> drive_work items (drive_init items workers :: 'v drive)
        = 2 * length items + min (max workers 1) (max (length items) 1)"
proof (intro conjI impI allI)
  show "drive_verdicts d = map judge items" if "joined d"
    using drive_inv_joined [OF drive_inv_drives [OF assms drive_inv_init] that] .
  show "\<exists>w e. hand_step items judge w d = Some e" if "\<not> joined d"
    using that joined_iff_stuck [of d items judge] by auto
  show "drive_work items d = drive_work items e + 1" if "hand_step items judge w d = Some e" for w e
    by (rule hand_step_work [OF that])
qed (simp add: drive_work_def drive_init_def Let_def sum_list_replicate)

theorem any_interleaving_judges_in_order_witness:
  "drive_each [1, 0, 0, 1, 1, 0, 1, 0, 0, 1] [5, 6, 7] 2 (\<lambda>x. x * x) = Some [25, 36, 49 :: nat]"
proof -
  define d where "d = fold (drive_turn [5, 6, 7 :: nat] (\<lambda>x. x * x)) [1, 0, 0, 1, 1, 0, 1, 0, 0, 1]
    (drive_init [5, 6, 7 :: nat] 2 :: nat drive)"
  have "joined d" unfolding d_def by code_simp
  moreover have "drives [5, 6, 7 :: nat] (\<lambda>x. x * x) (drive_init [5, 6, 7 :: nat] 2) d"
    unfolding d_def by (intro fold_turns_drives drives.here)
  ultimately show ?thesis
    using any_interleaving_judges_in_order [of "[5, 6, 7]" "\<lambda>x. x * x" 2 d]
    unfolding drive_each_def Let_def d_def [symmetric] by simp
qed

text \<open>\<open>drive_each\<close> returns. Under the schedule that gives every thread its turn over and over,
  and however many threads were asked for, it gives the judge's verdicts in the items' order.\<close>

theorem drive_each_returns:
  fixes judge :: "'i \<Rightarrow> 'v"
  shows
  "drive_each (concat (replicate (3 * length items + 1) [0..<min (max workers 1) (max (length items) 1)]))
     items workers judge = Some (map judge items)"
proof -
  let ?n = "min (max workers 1) (max (length items) 1)"
  let ?d = "fold (drive_turn items judge) (concat (replicate (3 * length items + 1) [0..<?n]))
    (drive_init items workers)"
  have "length (dr_hands (drive_init items workers :: 'v drive)) = ?n"
    by (simp add: drive_init_def Let_def)
  moreover have "drive_work items (drive_init items workers :: 'v drive) \<le> 3 * length items + 1"
    by (simp add: drive_work_def drive_init_def Let_def sum_list_replicate)
  ultimately have "joined ?d" by (rule sweeps_join)
  moreover have "drive_inv items judge ?d"
    by (rule drive_inv_drives [OF fold_turns_drives [OF drives.here] drive_inv_init])
  ultimately show ?thesis by (simp add: drive_each_def Let_def drive_inv_joined)
qed

section \<open>Slices\<close>

lemma slice_nth:
  assumes "pairs \<noteq> []" "n \<le> length pairs"
  shows "set (slice pairs cursor (Some n)) = {pairs ! (i mod length pairs) | i. cursor \<le> i \<and> i < cursor + n}"
proof -
  have "(+) cursor ` {0..<n} = {cursor..<cursor + n}"
    by (simp add: image_add_atLeastLessThan add.commute)
  moreover have "set (slice pairs cursor (Some n)) = (\<lambda>i. pairs ! (i mod length pairs)) ` ((+) cursor ` {0..<n})"
    using assms by (simp add: slice_def min_def image_image del: image_add_atLeastLessThan)
  ultimately show ?thesis by auto
qed

lemma add_mod_inj:
  fixes a b c n :: nat
  assumes "(c + a) mod n = (c + b) mod n" "a < n" "b < n"
  shows "a = b"
proof -
  have "x = y" if "x \<le> y" "y < n" "(c + y) mod n = (c + x) mod n" for x y
    using that mod_eq_dvd_iff_nat [of "c + x" "c + y" n] nat_dvd_not_less [of "y - x" n] by fastforce
  with assms show ?thesis by (metis nat_le_linear)
qed

lemma slice_distinct:
  assumes "distinct pairs"
  shows "distinct (slice pairs cursor bound)"
proof (cases "bound = None \<or> pairs = []")
  case False
  then obtain n where n: "bound = Some n" "pairs \<noteq> []" by auto
  have "inj_on (\<lambda>step. (cursor + step) mod length pairs) {0..<min n (length pairs)}"
    by (rule inj_onI) (auto dest: add_mod_inj)
  then show ?thesis
    using assms n by (simp add: slice_def distinct_map inj_on_def nth_eq_iff_index_eq)
qed (use assms in \<open>auto simp: slice_def split: option.splits\<close>)

end
