(* ===== verification/Round_Trip.thy ===== *)
theory Round_Trip
  imports Stress
begin

text \<open>
  One round over one transport, judged: the adapter over a transport that is its own far end
  (\<open>src/exchange.rs\<close>) and the RoundTrip test (\<open>src/round_trip.rs\<close>). A protocol's \<open>Loopback\<close> and the
  \<open>ceiling\<close> module are other crates', so they are parameters; what a transport answers to a payload
  is its environment's, and every theorem holds whatever it answers.
\<close>

section \<open>Adapters\<close>

datatype exchange = Returned bytes | ExOneSided string | ExFailed string

text \<open>The trait \<open>RoundTrip\<close>, as the four answers an adapter gives.\<close>

record adapter =
  ad_transport :: string
  ad_ceiling :: "nat option"
  ad_refuses :: "bytes \<Rightarrow> string option"
  ad_exchange :: "bytes \<Rightarrow> exchange"

record loopback =
  lb_name :: string
  lb_ceiling :: "nat option"
  lb_unavailable :: "string option"
  lb_refuses :: "bytes \<Rightarrow> string option"
  lb_round :: "bytes \<Rightarrow> string + bytes"

text \<open>\<open>ceiling::within(length, limit, carrier)\<close>: the message of its refusal, if it refuses.\<close>

type_synonym within = "nat \<Rightarrow> nat \<Rightarrow> string \<Rightarrow> string option"

definition ceiling_documented :: "within \<Rightarrow> bool" where
  "ceiling_documented within' \<longleftrightarrow> (\<forall>n limit carrier. within' n limit carrier = None \<longleftrightarrow> n \<le> limit)"

definition looped_refuses :: "within \<Rightarrow> loopback \<Rightarrow> bytes \<Rightarrow> string option" where
  "looped_refuses within' L payload =
     (case lb_ceiling L of
        Some limit \<Rightarrow>
          (case within' (length payload) limit (lb_name L @ '' carries in one round'') of
             Some refused \<Rightarrow> Some refused
           | None \<Rightarrow> lb_refuses L payload)
      | None \<Rightarrow> lb_refuses L payload)"

definition looped_exchange :: "loopback \<Rightarrow> bytes \<Rightarrow> exchange" where
  "looped_exchange L payload =
     (case lb_unavailable L of
        Some why \<Rightarrow> ExOneSided why
      | None \<Rightarrow> (case lb_round L payload of Inr arrived \<Rightarrow> Returned arrived | Inl e \<Rightarrow> ExFailed e))"

definition looped :: "within \<Rightarrow> loopback \<Rightarrow> adapter" where
  "looped within' L =
     \<lparr>ad_transport = lb_name L, ad_ceiling = lb_ceiling L, ad_refuses = looped_refuses within' L,
      ad_exchange = looped_exchange L\<rparr>"

section \<open>A round\<close>

definition carried :: "adapter \<Rightarrow> bytes \<Rightarrow> outcome + bytes" where
  "carried T payload =
     (case ad_refuses T payload of
        Some why \<Rightarrow> Inl (OneSided why)
      | None \<Rightarrow>
          (case ad_exchange T payload of
             Returned back \<Rightarrow>
               if back = payload then Inr back
               else Inl (Failed ''what came back did not match what was sent'')
           | ExOneSided why \<Rightarrow> Inl (OneSided why)
           | ExFailed why \<Rightarrow> Inl (Failed why)))"

definition held :: "contract_api \<Rightarrow> contract \<Rightarrow> bytes \<Rightarrow> outcome" where
  "held C c arrived =
     (case contract_validate C c \<lparr>st_bytes = arrived, st_media_type = Some (representation c)\<rparr> of
        Inr _ \<Rightarrow> Delivered
      | Inl why \<Rightarrow> Failed (''contract not held: '' @ why))"

definition round_trip_with ::
    "contract_api \<Rightarrow> adapter \<Rightarrow> contract \<Rightarrow> bytes \<Rightarrow> outcome \<times> nat" where
  "round_trip_with C T c payload =
     (let r = (case carried T payload of Inr back \<Rightarrow> held C c back | Inl r \<Rightarrow> r);
          n = (if r = Delivered then length payload else 0) in (r, n))"

definition round_trip :: "contract_api \<Rightarrow> codec_api \<Rightarrow> adapter \<Rightarrow> contract \<Rightarrow> outcome \<times> nat" where
  "round_trip C W T c = round_trip_with C T c (st_bytes (contract_stream W c))"

section \<open>What a round is judged\<close>

lemma carried_Inr:
  "carried T payload = Inr back \<longleftrightarrow>
     back = payload \<and> ad_refuses T payload = None \<and> ad_exchange T payload = Returned payload"
  by (auto simp: carried_def split: option.splits exchange.splits)

lemma carried_Inl_not_Delivered: "carried T payload = Inl r \<Longrightarrow> r \<noteq> Delivered"
  by (auto simp: carried_def split: option.splits exchange.splits if_splits)

lemma held_Delivered:
  "held C c arrived = Delivered \<longleftrightarrow>
     (\<exists>r. content_validate C c \<lparr>st_bytes = arrived, st_media_type = Some (representation c)\<rparr> = Inr r
        \<and> vr_valid r)"
  by (auto simp: held_def contract_validate_def identify_def split: sum.splits)

lemma held_cases: "held C c arrived = Delivered \<or> (\<exists>why. held C c arrived = Failed (''contract not held: '' @ why))"
  by (auto simp: held_def split: sum.splits)

text \<open>A round delivers exactly when the transport takes the payload, answers with the very bytes
  that were sent and the contract holds over them, and then counts those bytes, and none otherwise;
  it is one-sided exactly when the transport refuses the payload or has one direction; and it
  fails in every other case, naming the contract only where the bytes came back whole.\<close>

theorem round_trip_judged:
  "(fst (round_trip_with C T c payload) = Delivered \<longleftrightarrow>
      ad_refuses T payload = None \<and> ad_exchange T payload = Returned payload
      \<and> held C c payload = Delivered)
   \<and> snd (round_trip_with C T c payload) =
       (if fst (round_trip_with C T c payload) = Delivered then length payload else 0)
   \<and> (fst (round_trip_with C T c payload) = OneSided why \<longleftrightarrow>
        ad_refuses T payload = Some why
        \<or> ad_refuses T payload = None \<and> ad_exchange T payload = ExOneSided why)
   \<and> (ad_refuses T payload = None \<and> ad_exchange T payload = Returned payload
        \<and> held C c payload \<noteq> Delivered \<longrightarrow>
        (\<exists>e. fst (round_trip_with C T c payload) = Failed (''contract not held: '' @ e)))"
  using held_cases [of C c payload]
  by (auto simp: round_trip_with_def Let_def carried_def split: option.splits exchange.splits)

definition echo :: adapter where
  "echo = \<lparr>ad_transport = ''echo'', ad_ceiling = None, ad_refuses = (\<lambda>_. None), ad_exchange = Returned\<rparr>"

definition accepting_contracts :: contract_api where
  "accepting_contracts =
     \<lparr>technology = (\<lambda>c bs. Inr \<lparr>vr_valid = True, vr_issues = []\<rparr>), malformed = (\<lambda>w. w)\<rparr>"

theorem round_trip_judged_witness:
  "round_trip_with accepting_contracts echo Text ''ab'' = (Delivered, 2)"
proof -
  have "held accepting_contracts Text ''ab'' = Delivered" by code_simp
  with round_trip_judged [of accepting_contracts echo Text "''ab''"]
  have "fst (round_trip_with accepting_contracts echo Text ''ab'') = Delivered"
    and "snd (round_trip_with accepting_contracts echo Text ''ab'') = 2"
    by (simp_all add: echo_def)
  then show ?thesis by (metis prod.collapse)
qed

text \<open>A payload over a transport's declared ceiling is never sent and never red: whatever the
  protocol would answer, the round is one-sided and moves nothing.\<close>

theorem over_the_ceiling_is_one_sided:
  assumes "ceiling_documented within'" and "lb_ceiling L = Some limit" and "limit < length payload"
  shows "\<exists>why. round_trip_with C (looped within' L) c payload = (OneSided why, 0)"
proof -
  from assms obtain why where "within' (length payload) limit (lb_name L @ '' carries in one round'') = Some why"
    unfolding ceiling_documented_def by (metis leD option.exhaust)
  then have "ad_refuses (looped within' L) payload = Some why"
    using assms(2) by (simp add: looped_def looped_refuses_def)
  then show ?thesis by (simp add: round_trip_with_def carried_def)
qed

definition within_example :: within where
  "within_example n limit carrier =
     (if n \<le> limit then None else Some (decimal n @ '' bytes: more than '' @ carrier))"

theorem over_the_ceiling_is_one_sided_witness:
  "\<exists>why. round_trip_with accepting_contracts (looped within_example \<lparr>lb_name = ''udp'', lb_ceiling = Some 2,
      lb_unavailable = None, lb_refuses = (\<lambda>_. None), lb_round = (\<lambda>_. Inl ''down'')\<rparr>) Bytes ''abc'' = (OneSided why, 0)"
  by (rule over_the_ceiling_is_one_sided) (auto simp: ceiling_documented_def within_example_def)

end
