(* ===== verification/Identity.thy ===== *)
theory Identity
  imports Parties
begin

text \<open>
  The identity pipeline (\<open>src/identity.rs\<close>, \<open>src/identity/gates.rs\<close>, \<open>src/identity/verdicts.rs\<close>):
  Identification, Authentication, Authorization on Receive, and the presentation on Send. The
  estate's gates are other crates', the parameter \<open>G\<close>; the stand-ins this repository drives them
  with are definitions, handed to the gates as the sources hand them.
\<close>

section \<open>The gates\<close>

datatype presented = Passed string string

record arrival =
  ar_location :: string
  ar_properties :: "(string \<times> string) list"

datatype verified = Proven | Refused

datatype action = ActReceive | ActSend

record attempt =
  at_action :: action
  at_on :: string

datatype decision = Allowed | Denied string string

text \<open>A Location's acceptance: the mechanisms it takes and the Parties it takes them from.\<close>

record acceptance =
  ac_mechanisms :: "string list"
  ac_parties :: "string list"

type_synonym claim_identifier = "string \<times> (arrival \<Rightarrow> string + presented option)"
type_synonym authenticator = "string \<times> (presented \<Rightarrow> string + verified)"
type_synonym registry = "string \<Rightarrow> string \<Rightarrow> string \<Rightarrow> string option"
type_synonym 'facts authorizer = "string \<times> ('facts \<Rightarrow> attempt \<Rightarrow> decision option)"

record ('id, 'facts) gates_api =
  mutual_tls :: string
  arrival_property :: "arrival \<Rightarrow> string \<Rightarrow> string option"
  identify_transport :: "claim_identifier list \<Rightarrow> arrival \<Rightarrow> string + presented list"
  authenticate :: "acceptance \<Rightarrow> authenticator list \<Rightarrow> registry \<Rightarrow> presented \<Rightarrow> string + 'id"
  identity_facts :: "'id \<Rightarrow> 'facts"
  authorize :: "'facts authorizer list \<Rightarrow> 'facts \<Rightarrow> attempt \<Rightarrow> decision"
  action_text :: "action \<Rightarrow> string"
  decision_text :: "decision \<Rightarrow> string"

section \<open>The stand-ins\<close>

record facing =
  fa_parties :: parties
  fa_party :: nat

definition facing_name :: "facing \<Rightarrow> string" where
  "facing_name f = pc_name (party_at (fa_parties f) (fa_party f))"

definition facing_subject :: "facing \<Rightarrow> string" where
  "facing_subject f =
     (case pc_identities (party_at (fa_parties f) (fa_party f)) of
        identity # _ \<Rightarrow> pi_value identity
      | [] \<Rightarrow> [])"

definition subject_identifier :: "('id, 'facts) gates_api \<Rightarrow> claim_identifier" where
  "subject_identifier G =
     (mutual_tls G,
      \<lambda>arrival. Inr (map_option (Passed (mutual_tls G)) (arrival_property G arrival ''peer.subject'')))"

definition tls_authenticator :: "('id, 'facts) gates_api \<Rightarrow> bool \<Rightarrow> authenticator" where
  "tls_authenticator G honest = (mutual_tls G, \<lambda>_. Inr (if honest then Proven else Refused))"

definition configured_registry :: "configure_api \<Rightarrow> parties \<Rightarrow> registry" where
  "configured_registry F ps mechanism purpose v =
     Option.bind (party_holding F ps mechanism purpose v) (\<lambda>place. party_id ps place)"

definition location_policy :: "('id, 'facts) gates_api \<Rightarrow> bool \<Rightarrow> 'facts authorizer" where
  "location_policy G permits =
     (''essentials-location'',
      \<lambda>_ attempt. Some
        (if permits then Allowed
         else Denied ''essentials-location''
           (''the party is not permitted to '' @ action_text G (at_action attempt) @ '' here'')))"

section \<open>One run of each gate\<close>

definition identification ::
    "('id, 'facts) gates_api \<Rightarrow> string \<Rightarrow> string option \<Rightarrow> presented list" where
  "identification G cluster_root subject =
     (let properties = (case subject of Some s \<Rightarrow> [(''peer.subject'', s)] | None \<Rightarrow> []);
          arrival = \<lparr>ar_location = cluster_root, ar_properties = properties\<rparr> in
      case identify_transport G [subject_identifier G] arrival of Inr claims \<Rightarrow> claims | Inl _ \<Rightarrow> [])"

text \<open>
  A Party without an identifier panics here, as \<open>party_id\<close> says; it is accepted from nobody in the
  model, and every property below asks for the identifier.
\<close>

definition authentication ::
    "('id, 'facts) gates_api \<Rightarrow> configure_api \<Rightarrow> facing \<Rightarrow> presented \<Rightarrow> bool \<Rightarrow> string + 'id" where
  "authentication G F facing presented honest =
     (let acceptance = \<lparr>ac_mechanisms = [mutual_tls G],
            ac_parties = (case party_id (fa_parties facing) (fa_party facing) of Some i \<Rightarrow> [i] | None \<Rightarrow> [])\<rparr> in
      authenticate G acceptance [tls_authenticator G honest]
        (configured_registry F (fa_parties facing)) presented)"

definition authorization ::
    "('id, 'facts) gates_api \<Rightarrow> facing \<Rightarrow> 'id \<Rightarrow> action \<Rightarrow> bool \<Rightarrow> decision" where
  "authorization G facing identity action permits =
     authorize G [location_policy G permits] (identity_facts G identity)
       \<lparr>at_action = action, at_on = facing_name facing\<rparr>"

section \<open>Faults of the pipeline\<close>

datatype identity_step = Identification | Authentication | Authorization

definition STEPS_RECEIVE :: "identity_step list" where
  "STEPS_RECEIVE = [Identification, Authentication, Authorization]"

fun step_name :: "identity_step \<Rightarrow> string" where
  "step_name Identification = ''identification''"
| "step_name Authentication = ''authentication''"
| "step_name Authorization = ''authorization''"

text \<open>\<open>IdentityFaults\<close> is whether they are enabled.\<close>

definition identity_key :: "string \<Rightarrow> string \<Rightarrow> contract \<Rightarrow> string" where
  "identity_key step transport c = step @ ''/'' @ transport @ ''/'' @ contract_name c"

definition RECEIVE_RULES :: "(identity_step \<times> string \<times> u8 \<times> string) list" where
  "RECEIVE_RULES =
     [(Identification, ''http'', 3, ''no client certificate presented''),
      (Authentication, ''http'', 4, ''client certificate rejected''),
      (Authentication, ''http'', 3, ''Let's Encrypt certificate expired; renewal pending''),
      (Authentication, ''smtp'', 3, ''STARTTLS certificate not trusted''),
      (Authorization, ''tcp'', 3, ''the party is not permitted on this Receive Location'')]"

definition receive_fault ::
    "bool \<Rightarrow> string \<Rightarrow> contract \<Rightarrow> nat \<Rightarrow> (identity_step \<times> string) option" where
  "receive_fault enabled transport c round =
     (if \<not> enabled \<or> transport = STEADY then None
      else map_option (\<lambda>(step, only, rate, reason). (step, reason))
        (find (\<lambda>(step, only, rate, reason).
             only = transport \<and> fires_keyed rate (identity_key (step_name step) transport c) round)
           RECEIVE_RULES))"

definition SEND_RULES :: "(string \<times> u8 \<times> string) list" where
  "SEND_RULES =
     [(''http'', 4, ''no certificate to present''),
      (''smtp'', 3, ''the presented certificate has expired''),
      (''websocket'', 3, ''ACME renewal pending; cannot present a certificate'')]"

definition send_fault :: "bool \<Rightarrow> string \<Rightarrow> contract \<Rightarrow> nat \<Rightarrow> string option" where
  "send_fault enabled transport c round =
     (if \<not> enabled \<or> transport = STEADY then None
      else map_option (\<lambda>(only, rate, reason). reason)
        (find (\<lambda>(only, rate, reason).
             only = transport \<and> fires_keyed rate (identity_key ''send-identity'' transport c) round)
           SEND_RULES))"

section \<open>The pipeline\<close>

definition not_reached :: "identity_step \<Rightarrow> outcome" where
  "not_reached after = OneSided (''not reached '' @ em_dash @ '' '' @ step_name after @ '' did not pass'')"

definition reason_or :: "(identity_step \<times> string) option \<Rightarrow> identity_step \<Rightarrow> string \<Rightarrow> string" where
  "reason_or faulted step gate =
     (case faulted of Some (s, reason) \<Rightarrow> if s = step then reason else gate | None \<Rightarrow> gate)"

definition faults_step :: "(identity_step \<times> string) option \<Rightarrow> identity_step \<Rightarrow> bool" where
  "faults_step faulted step \<longleftrightarrow> (case faulted of Some (s, _) \<Rightarrow> s = step | None \<Rightarrow> False)"

definition identity_receive ::
    "('id, 'facts) gates_api \<Rightarrow> configure_api \<Rightarrow> string \<Rightarrow> bool \<Rightarrow> facing \<Rightarrow> string \<Rightarrow> contract \<Rightarrow> nat
       \<Rightarrow> (identity_step \<times> outcome) list" where
  "identity_receive G F cluster_root enabled facing transport c round =
     (let faulted = receive_fault enabled transport c round;
          subject_present = \<not> faults_step faulted Identification in
      case identification G cluster_root (if subject_present then Some (facing_subject facing) else None) of
        [] \<Rightarrow>
          [(Identification, Failed (case faulted of Some (_, reason) \<Rightarrow> reason
                                                  | None \<Rightarrow> ''no identity was presented'')),
           (Authentication, not_reached Identification),
           (Authorization, not_reached Identification)]
      | presented # _ \<Rightarrow>
          (Identification, Delivered) #
          (let honest = \<not> faults_step faulted Authentication in
           case authentication G F facing presented honest of
             Inl refusal \<Rightarrow>
               [(Authentication, Failed (reason_or faulted Authentication refusal)),
                (Authorization, not_reached Authentication)]
           | Inr identity \<Rightarrow>
               (Authentication, Delivered) #
               (let permits = \<not> faults_step faulted Authorization;
                    decision = authorization G facing identity ActReceive permits in
                if decision = Allowed then [(Authorization, Delivered)]
                else [(Authorization, Failed (reason_or faulted Authorization (decision_text G decision)))])))"

definition identity_send ::
    "('id, 'facts) gates_api \<Rightarrow> configure_api \<Rightarrow> bool \<Rightarrow> facing \<Rightarrow> string \<Rightarrow> contract \<Rightarrow> nat \<Rightarrow> outcome" where
  "identity_send G F enabled facing transport c round =
     (case send_fault enabled transport c round of
        Some reason \<Rightarrow> Failed reason
      | None \<Rightarrow>
          (case authentication G F facing (Passed (mutual_tls G) (facing_subject facing)) True of
             Inr identity \<Rightarrow>
               let decision = authorization G facing identity ActSend True in
               if decision = Allowed then Delivered else Failed (decision_text G decision)
           | Inl refusal \<Rightarrow> Failed refusal))"

definition receive_verdicts ::
    "('id, 'facts) gates_api \<Rightarrow> configure_api \<Rightarrow> string \<Rightarrow> bool \<Rightarrow> facing \<Rightarrow> string \<Rightarrow> contract \<Rightarrow> nat
       \<Rightarrow> int \<Rightarrow> verdict list" where
  "receive_verdicts G F cluster_root enabled facing transport c round now =
     map (\<lambda>(step, r). \<lparr>v_stage = Receive, v_transport = transport, v_contract = c, v_outcome = r,
            v_bytes = 0, v_point = Some (step_name step), v_observed = now\<rparr>)
       (identity_receive G F cluster_root enabled facing transport c round)"

definition send_verdict ::
    "('id, 'facts) gates_api \<Rightarrow> configure_api \<Rightarrow> bool \<Rightarrow> facing \<Rightarrow> string \<Rightarrow> contract \<Rightarrow> nat \<Rightarrow> int \<Rightarrow> verdict" where
  "send_verdict G F enabled facing transport c round now =
     \<lparr>v_stage = Send, v_transport = transport, v_contract = c,
      v_outcome = identity_send G F enabled facing transport c round,
      v_bytes = 0, v_point = Some ''identity'', v_observed = now\<rparr>"

section \<open>What the gates document\<close>

text \<open>
  Each gate on one implementor: identification claims what the one identifier read; authentication
  proves a claim under an accepted mechanism that its authenticator proves and that resolves to an
  accepted Party, and refuses one its authenticator refuses; one policy decides alone.
\<close>

definition gates_documented :: "('id, 'facts) gates_api \<Rightarrow> bool" where
  "gates_documented G \<longleftrightarrow>
     (\<forall>a k. arrival_property G a k = map_of (ar_properties a) k) \<and>
     (\<forall>m f a p. f a = Inr p \<longrightarrow> identify_transport G [(m, f)] a = Inr (case p of Some x \<Rightarrow> [x] | None \<Rightarrow> [])) \<and>
     (\<forall>acc m f r v. f (Passed m v) = Inr Refused \<longrightarrow> (\<exists>e. authenticate G acc [(m, f)] r (Passed m v) = Inl e)) \<and>
     (\<forall>acc m f r v i. m \<in> set (ac_mechanisms acc) \<longrightarrow> f (Passed m v) = Inr Proven \<longrightarrow>
        i \<in> set (ac_parties acc) \<longrightarrow> r m ''receive'' v = Some i \<longrightarrow>
        (\<exists>x. authenticate G acc [(m, f)] r (Passed m v) = Inr x)) \<and>
     (\<forall>n p facts attempt d. p facts attempt = Some d \<longrightarrow> authorize G [(n, p)] facts attempt = d)"

text \<open>The Party a Location faces is who the configuration says holds its first identity.\<close>

definition party_resolves :: "('id, 'facts) gates_api \<Rightarrow> configure_api \<Rightarrow> facing \<Rightarrow> bool" where
  "party_resolves G F f \<longleftrightarrow>
     (\<exists>i. party_id (fa_parties f) (fa_party f) = Some i
        \<and> configured_registry F (fa_parties f) (mutual_tls G) ''receive'' (facing_subject f) = Some i)"

section \<open>Where the pipeline stops\<close>

text \<open>Whatever the gates answer, the pipeline reports its three steps in order and stops at the
  first that fails: every step before it passed, it carries the failure, and every step after it
  says it was not reached and why.\<close>

theorem pipeline_stops_at_first_failure:
  "identity_receive G F root enabled facing transport c round
     = [(Identification, Delivered), (Authentication, Delivered), (Authorization, Delivered)]
   \<or> (\<exists>e. identity_receive G F root enabled facing transport c round
     \<in> {[(Identification, Failed e), (Authentication, not_reached Identification),
         (Authorization, not_reached Identification)],
        [(Identification, Delivered), (Authentication, Failed e),
         (Authorization, not_reached Authentication)],
        [(Identification, Delivered), (Authentication, Delivered), (Authorization, Failed e)]})"
  by (auto simp: identity_receive_def Let_def split: list.splits sum.splits)

section \<open>What a fault makes the gates do\<close>

lemma identification_claims:
  assumes "gates_documented G"
  shows "identification G root subject = (case subject of Some s \<Rightarrow> [Passed (mutual_tls G) s] | None \<Rightarrow> [])"
proof -
  have "identify_transport G [subject_identifier G] a =
      Inr (case map_of (ar_properties a) ''peer.subject'' of Some s \<Rightarrow> [Passed (mutual_tls G) s] | None \<Rightarrow> [])" for a
    using assms unfolding gates_documented_def subject_identifier_def
    by (auto split: option.splits)
  then show ?thesis by (simp add: identification_def Let_def split: option.splits)
qed

lemma authentication_refuses:
  assumes "gates_documented G"
  obtains e where "authentication G F facing (Passed (mutual_tls G) s) False = Inl e"
  using assms unfolding gates_documented_def authentication_def tls_authenticator_def Let_def
  by (metis (mono_tags, lifting))

lemma authentication_proves:
  assumes "gates_documented G" "party_resolves G F facing"
  obtains x where "authentication G F facing (Passed (mutual_tls G) (facing_subject facing)) True = Inr x"
proof -
  from assms(2) obtain i where i: "party_id (fa_parties facing) (fa_party facing) = Some i"
    "configured_registry F (fa_parties facing) (mutual_tls G) ''receive'' (facing_subject facing) = Some i"
    by (auto simp: party_resolves_def)
  have "\<exists>x. authenticate G \<lparr>ac_mechanisms = [mutual_tls G], ac_parties = [i]\<rparr>
      [(mutual_tls G, \<lambda>_. Inr Proven)] (configured_registry F (fa_parties facing))
      (Passed (mutual_tls G) (facing_subject facing)) = Inr x"
    using assms(1) i(2) unfolding gates_documented_def by (elim conjE) (simp add: i)
  then show ?thesis
    using that i by (auto simp: authentication_def tls_authenticator_def Let_def)
qed

lemma authorization_decides:
  assumes "gates_documented G"
  shows "authorization G facing x act permits = Allowed \<longleftrightarrow> permits"
  using assms unfolding gates_documented_def authorization_def location_policy_def
  by (elim conjE) (auto split: if_splits)

lemma pipeline_outcomes:
  assumes "gates_documented G" "party_resolves G F facing"
  shows "identity_receive G F root enabled facing transport c round =
      (case receive_fault enabled transport c round of
         None \<Rightarrow> [(Identification, Delivered), (Authentication, Delivered), (Authorization, Delivered)]
       | Some (Identification, why) \<Rightarrow> [(Identification, Failed why),
           (Authentication, not_reached Identification), (Authorization, not_reached Identification)]
       | Some (Authentication, why) \<Rightarrow> [(Identification, Delivered), (Authentication, Failed why),
           (Authorization, not_reached Authentication)]
       | Some (Authorization, why) \<Rightarrow> [(Identification, Delivered), (Authentication, Delivered),
           (Authorization, Failed why)])"
proof -
  obtain x where proven: "authentication G F facing (Passed (mutual_tls G) (facing_subject facing)) True = Inr x"
    using authentication_proves [OF assms] .
  obtain e where refused: "authentication G F facing (Passed (mutual_tls G) (facing_subject facing)) False = Inl e"
    using authentication_refuses [OF assms(1)] .
  show ?thesis
    by (simp add: identification_claims [OF assms(1)] proven refused authorization_decides [OF assms(1)]
        identity_receive_def faults_step_def reason_or_def Let_def
        split: option.splits prod.splits identity_step.splits)
qed

lemma send_outcome:
  assumes "gates_documented G" "party_resolves G F facing"
  shows "identity_send G F enabled facing transport c round =
    (case send_fault enabled transport c round of None \<Rightarrow> Delivered | Some why \<Rightarrow> Failed why)"
proof -
  obtain x where "authentication G F facing (Passed (mutual_tls G) (facing_subject facing)) True = Inr x"
    using authentication_proves [OF assms] .
  then show ?thesis
    by (simp add: identity_send_def Let_def authorization_decides [OF assms(1)] split: option.splits)
qed

text \<open>C19: against gates that do what they document, and a Party the configuration resolves, the
  pipeline fails exactly where the round's fault says, with the fault's reason, at the gate's own
  refusal; with no fault all three steps pass and Send presents; and the steady transport, or
  faults not enabled, has none.\<close>

theorem pipeline_fails_where_faulted:
  assumes "gates_documented G" and "party_resolves G F facing"
  shows "identity_receive G F root enabled facing transport c round =
      (case receive_fault enabled transport c round of
         None \<Rightarrow> [(Identification, Delivered), (Authentication, Delivered), (Authorization, Delivered)]
       | Some (Identification, why) \<Rightarrow> [(Identification, Failed why),
           (Authentication, not_reached Identification), (Authorization, not_reached Identification)]
       | Some (Authentication, why) \<Rightarrow> [(Identification, Delivered), (Authentication, Failed why),
           (Authorization, not_reached Authentication)]
       | Some (Authorization, why) \<Rightarrow> [(Identification, Delivered), (Authentication, Delivered),
           (Authorization, Failed why)])
    \<and> identity_send G F enabled facing transport c round =
      (case send_fault enabled transport c round of None \<Rightarrow> Delivered | Some why \<Rightarrow> Failed why)
    \<and> (\<not> enabled \<or> transport = STEADY \<longrightarrow>
        receive_fault enabled transport c round = None \<and> send_fault enabled transport c round = None)"
  using pipeline_outcomes [OF assms] send_outcome [OF assms]
  by (simp add: receive_fault_def send_fault_def)

text \<open>Gates that do what they document, and a configuration's lookup.\<close>

definition plain_gates :: "(string, string) gates_api" where
  "plain_gates =
     \<lparr>mutual_tls = ''mutual-tls'',
      arrival_property = (\<lambda>a k. map_of (ar_properties a) k),
      identify_transport = (\<lambda>is a. case is of
          (m, f) # _ \<Rightarrow> (case f a of Inr (Some p) \<Rightarrow> Inr [p] | Inr None \<Rightarrow> Inr [] | Inl e \<Rightarrow> Inl e)
        | [] \<Rightarrow> Inr []),
      authenticate = (\<lambda>acc fs r p. case (fs, p) of
          ((m, f) # _, Passed m' v) \<Rightarrow>
            (if m \<notin> set (ac_mechanisms acc) then Inl ''mechanism not accepted''
             else (case f p of
                 Inr Proven \<Rightarrow> (case r m ''receive'' v of
                     Some i \<Rightarrow> if i \<in> set (ac_parties acc) then Inr i else Inl ''not accepted''
                   | None \<Rightarrow> Inl ''nobody'')
               | Inr Refused \<Rightarrow> Inl ''refused''
               | Inl e \<Rightarrow> Inl e))
        | _ \<Rightarrow> Inl ''no authenticator''),
      identity_facts = (\<lambda>i. i),
      authorize = (\<lambda>ps facts attempt. case ps of
          (n, p) # _ \<Rightarrow> (case p facts attempt of Some d \<Rightarrow> d | None \<Rightarrow> Denied n ''undecided'')
        | [] \<Rightarrow> Denied ''nobody'' ''no policy''),
      action_text = (\<lambda>a. case a of ActReceive \<Rightarrow> ''receive'' | ActSend \<Rightarrow> ''send''),
      decision_text = (\<lambda>d. case d of Allowed \<Rightarrow> ''allowed'' | Denied by why \<Rightarrow> by @ '': '' @ why)\<rparr>"

lemma gates_documented_plain: "gates_documented plain_gates"
  by (auto simp: gates_documented_def plain_gates_def split: option.splits)

definition plain_configure :: "parties \<Rightarrow> configure_api" where
  "plain_configure ps =
     \<lparr>config_parties = (\<lambda>_. Inr ps), config_problems = (\<lambda>_. []),
      config_place_holding = (\<lambda>ps mechanism purpose v.
        position (\<lambda>p. \<exists>i \<in> set (pc_identities p). pi_mechanism i = mechanism \<and> pi_purpose i = purpose
                    \<and> pi_value i = v) ps)\<rparr>"

definition example_facing :: facing where
  "example_facing = \<lparr>fa_parties = example_parties, fa_party = 1\<rparr>"

lemma party_resolves_examples:
  assumes "p < 3"
  shows "party_resolves plain_gates (plain_configure example_parties)
    \<lparr>fa_parties = example_parties, fa_party = p\<rparr>"
proof -
  let ?resolved = "\<lambda>p. configured_registry (plain_configure example_parties) example_parties
    (mutual_tls plain_gates) ''receive'' (facing_subject \<lparr>fa_parties = example_parties, fa_party = p\<rparr>)"
  have "party_id example_parties 0 = Some ''Party-A''" "?resolved 0 = Some ''Party-A''"
    "party_id example_parties 1 = Some ''Party-B''" "?resolved 1 = Some ''Party-B''"
    "party_id example_parties 2 = Some ''Party-C''" "?resolved 2 = Some ''Party-C''"
    by code_simp+
  moreover from assms consider "p = 0" | "p = 1" | "p = 2" by linarith
  ultimately show ?thesis by cases (auto simp: party_resolves_def)
qed

lemma party_resolves_example: "party_resolves plain_gates (plain_configure example_parties) example_facing"
  unfolding example_facing_def by (rule party_resolves_examples) simp

theorem pipeline_fails_where_faulted_witness:
  "identity_receive plain_gates (plain_configure example_parties) ''xmip:///x'' True example_facing STEADY Text 3 =
     [(Identification, Delivered), (Authentication, Delivered), (Authorization, Delivered)]"
  using pipeline_fails_where_faulted [OF gates_documented_plain party_resolves_example,
      of "''xmip:///x''" True STEADY Text 3]
  by simp

end
