(* ===== verification/Schedule.thy ===== *)
theory Schedule
  imports Rotation Ledger Workers Round_Trip Identity
begin

text \<open>
  The schedule (\<open>src/schedule.rs\<close>): one tick runs the pairs of its slice, expands each across
  Receive, Process and Send with the round's faults, adds the identity steps, folds every verdict
  into the ledger, moves its cursor on and closes the round. What the other crates provide is one
  record, the parameter \<open>E\<close>; what the transports answer is the schedule's own adapters.
\<close>

section \<open>What the scenarios are given\<close>

record ('id, 'facts) estate =
  es_node :: node_api
  es_observe :: observe_api
  es_contracts :: contract_api
  es_codecs :: codec_api
  es_configure :: configure_api
  es_gates :: "('id, 'facts) gates_api"
  es_cluster_root :: string
  es_parties :: parties
  es_cores :: nat

definition parties_spread_over :: "('id, 'facts) estate \<Rightarrow> adapter list \<Rightarrow> spread" where
  "parties_spread_over E transports = parties_spread (es_parties E) (map ad_transport transports)"

section \<open>The schedule\<close>

record schedule =
  sc_transports :: "adapter list"
  sc_faults :: fault_plan
  sc_identity_faults :: bool
  sc_spread :: spread
  sc_rotation :: "spread option"
  sc_stress :: "stress option"
  sc_round :: nat
  sc_ledger :: ledger
  sc_per_round :: "nat option"
  sc_cursor :: nat

definition schedule_new :: "('id, 'facts) estate \<Rightarrow> string \<Rightarrow> adapter list \<Rightarrow> schedule" where
  "schedule_new E node transports =
     \<lparr>sc_transports = transports, sc_faults = plan_none, sc_identity_faults = False,
      sc_spread = parties_spread_over E transports, sc_rotation = None, sc_stress = None, sc_round = 0,
      sc_ledger = ledger_new node, sc_per_round = None, sc_cursor = 0\<rparr>"

definition schedule_with_faults :: "fault_plan \<Rightarrow> schedule \<Rightarrow> schedule" where
  "schedule_with_faults faults S =
     S\<lparr>sc_identity_faults := \<not> plan_is_empty faults, sc_faults := faults\<rparr>"

definition schedule_at :: "stress \<Rightarrow> schedule \<Rightarrow> schedule" where
  "schedule_at level S =
     (let (faults, rotating) = leveled level;
          S = schedule_with_faults faults S in
      S\<lparr>sc_stress := Some level, sc_rotation := (if rotating then Some (sc_spread S) else None)\<rparr>)"

definition schedule_rotating :: "schedule \<Rightarrow> schedule" where
  "schedule_rotating S = S\<lparr>sc_rotation := Some (sc_spread S)\<rparr>"

definition schedule_over :: "('id, 'facts) estate \<Rightarrow> adapter list \<Rightarrow> schedule \<Rightarrow> schedule" where
  "schedule_over E transports S =
     (let S = S\<lparr>sc_spread := parties_spread_over E transports\<rparr>;
          S = (if sc_rotation S \<noteq> None then S\<lparr>sc_rotation := Some (sc_spread S)\<rparr> else S) in
      S\<lparr>sc_transports := transports\<rparr>)"

definition pairs_per_round :: "nat \<Rightarrow> schedule \<Rightarrow> schedule" where
  "pairs_per_round pairs S = S\<lparr>sc_per_round := Some (max pairs 1)\<rparr>"

definition schedule_shape :: "('id, 'facts) estate \<Rightarrow> schedule \<Rightarrow> nat \<times> nat" where
  "schedule_shape E S =
     (length (sc_transports S) * length CONTRACTS,
      case sc_stress S of Some level \<Rightarrow> stress_workers (es_cores E) level | None \<Rightarrow> 1)"

definition seconds :: "int \<Rightarrow> nat" where
  "seconds now = nat (now div 1000000000)"

definition stage_outcome :: "stage \<Rightarrow> outcome \<Rightarrow> nat \<Rightarrow> outcome \<times> nat" where
  "stage_outcome st base n =
     (case base of
        Delivered \<Rightarrow> (if st = Send then (Delivered, n) else (Delivered, 0))
      | OneSided why \<Rightarrow> (OneSided why, 0)
      | Failed why \<Rightarrow>
          (let owns = (if prefix ''contract not held'' why then st = Process else st = Receive) in
           if owns then (Failed why, 0)
           else if st = Send then (Delivered, n)
           else (Delivered, 0)))"

text \<open>The fault a stage of a pair suffers: what the rotation strikes, or else what the table injects.\<close>

definition schedule_fault ::
    "('id, 'facts) estate \<Rightarrow> schedule \<Rightarrow> stage \<Rightarrow> string \<Rightarrow> contract \<Rightarrow> int \<Rightarrow> fault option" where
  "schedule_fault E S st name c now =
     (case Option.bind (sc_rotation S) (\<lambda>R. rotation_fault_for R st name c (seconds now)) of
        Some fault \<Rightarrow> Some fault
      | None \<Rightarrow> fault_for (es_node E) (sc_faults S) st name c (sc_round S))"

definition schedule_judge ::
    "('id, 'facts) estate \<Rightarrow> schedule \<Rightarrow> nat option \<Rightarrow> int \<Rightarrow> adapter \<Rightarrow> contract \<Rightarrow> verdict list" where
  "schedule_judge E S sz now T c =
     (let name = ad_transport T;
          (base, n) = (case sz of
             Some sz \<Rightarrow> round_trip_with (es_contracts E) T c (stress_payload (es_codecs E) c sz)
           | None \<Rightarrow> round_trip (es_contracts E) (es_codecs E) T c);
          stages = map (\<lambda>st.
             let (r, k) = (case schedule_fault E S st name c now of
                     Some fault \<Rightarrow> (Failed (evidence fault), 0)
                   | None \<Rightarrow> stage_outcome st base n) in
             \<lparr>v_stage = st, v_transport = name, v_contract = c, v_outcome = r, v_bytes = k,
              v_point = None, v_observed = now\<rparr>) (stage_all (es_node E));
          ps = sp_parties (sc_spread S);
          sending = \<lparr>fa_parties = ps, fa_party = spread_sender (sc_spread S) name\<rparr>;
          receiving = \<lparr>fa_parties = ps, fa_party = spread_receiver (sc_spread S) name\<rparr> in
      stages
      @ receive_verdicts (es_gates E) (es_configure E) (es_cluster_root E) (sc_identity_faults S)
          sending name c (sc_round S) now
      @ [send_verdict (es_gates E) (es_configure E) (sc_identity_faults S) receiving name c
          (sc_round S) now])"

definition schedule_pairs :: "schedule \<Rightarrow> (nat \<times> contract) list" where
  "schedule_pairs S = slice (all_pairs (sc_transports S)) (sc_cursor S) (sc_per_round S)"

definition schedule_run_once :: "('id, 'facts) estate \<Rightarrow> schedule \<Rightarrow> int \<Rightarrow> verdict list" where
  "schedule_run_once E S now =
     (let sz = map_option (\<lambda>level. size_for level (sc_round S)) (sc_stress S) in
      concat (drive_selected (sc_transports S) (schedule_pairs S) (schedule_judge E S sz now)))"

definition schedule_tick :: "('id, 'facts) estate \<Rightarrow> int \<Rightarrow> schedule \<Rightarrow> schedule \<times> snapshot" where
  "schedule_tick E now S =
     (let S = S\<lparr>sc_round := sc_round S + 1\<rparr>;
          (L, snap) = fold (ledger_fold (es_node E) now) (schedule_run_once E S now) (sc_ledger S, []);
          S = S\<lparr>sc_ledger := L\<rparr>;
          S = (case sc_per_round S of
                 Some per_round \<Rightarrow>
                   let matrix = max (length (sc_transports S) * length CONTRACTS) 1 in
                   S\<lparr>sc_cursor := (sc_cursor S + min per_round matrix) mod matrix\<rparr>
               | None \<Rightarrow> S) in
      (S, ledger_close (es_node E) (es_observe E) L snap now))"

text \<open>Ticks one after another, the transports answering anew at each.\<close>

primrec schedule_ticks ::
    "('id, 'facts) estate \<Rightarrow> (adapter list \<times> int) list \<Rightarrow> schedule \<Rightarrow> schedule" where
  "schedule_ticks E [] S = S"
| "schedule_ticks E (a # as) S =
     schedule_ticks E as (fst (schedule_tick E (snd a) (S\<lparr>sc_transports := fst a\<rparr>)))"

section \<open>The verdicts of a pair\<close>

lemma set_all_pairs: "set (all_pairs ts) = {..<length ts} \<times> UNIV"
  using set_CONTRACTS by (auto simp: all_pairs_def)

lemma distinct_all_pairs: "distinct (all_pairs ts)"
  unfolding all_pairs_def using distinct_CONTRACTS
  by (intro distinct_concat) (auto simp: distinct_map inj_on_def CONTRACTS_def)

lemma set_slice: "set (slice ps k b) \<subseteq> set ps"
  by (auto simp: slice_def split: option.splits)

lemma schedule_pairs_bound:
  assumes "p \<in> set (schedule_pairs S)"
  shows "fst p < length (sc_transports S)"
  using subsetD [OF set_slice assms [unfolded schedule_pairs_def]] by (auto simp: set_all_pairs)

lemma receive_points:
  "map v_point (receive_verdicts G F root on facing name c round now) =
     map (Some \<circ> step_name) STEPS_RECEIVE"
  by (auto simp: receive_verdicts_def identity_receive_def STEPS_RECEIVE_def Let_def
      split: list.splits sum.splits)

text \<open>C33: every pair driven is reported in seven verdicts: Receive, Process and Send of its
  transport and contract, then the three identity steps of its Receive and the presentation of its
  Send, each observed now; so a round of \<open>n\<close> pairs gives exactly \<open>7 * n\<close>.\<close>

theorem every_pair_has_seven_verdicts:
  assumes "message_path (es_node E)"
  shows "map (\<lambda>v. (v_stage v, v_point v)) (schedule_judge E S sz now T c) =
      [(Receive, None), (Process, None), (Send, None), (Receive, Some ''identification''),
       (Receive, Some ''authentication''), (Receive, Some ''authorization''), (Send, Some ''identity'')]
    \<and> (\<forall>v \<in> set (schedule_judge E S sz now T c).
         v_transport v = ad_transport T \<and> v_contract v = c \<and> v_observed v = now)
    \<and> length (schedule_run_once E S now) = 7 * length (schedule_pairs S)"
proof -
  have shape: "map (\<lambda>v. (v_stage v, v_point v)) (schedule_judge E S sz now T c) =
      [(Receive, None), (Process, None), (Send, None), (Receive, Some ''identification''),
       (Receive, Some ''authentication''), (Receive, Some ''authorization''), (Send, Some ''identity'')]"
    for sz T c
    using receive_points unfolding schedule_judge_def message_path_all [OF assms]
    by (auto simp: Let_def receive_verdicts_def send_verdict_def STEPS_RECEIVE_def identity_receive_def
        split: prod.splits list.splits sum.splits)
  have "length (schedule_judge E S sz now T c) = 7" for sz T c
    using arg_cong [OF shape, of length] by simp
  then have "length (schedule_run_once E S now) = 7 * length (schedule_pairs S)"
    by (simp add: schedule_run_once_def Let_def drive_selected_def length_concat o_def case_prod_beta
        sum_list_triv)
  moreover have "v_transport v = ad_transport T \<and> v_contract v = c \<and> v_observed v = now"
    if "v \<in> set (schedule_judge E S sz now T c)" for v
    using that unfolding schedule_judge_def
    by (auto simp: Let_def receive_verdicts_def send_verdict_def split: prod.splits option.splits)
  ultimately show ?thesis using shape by blast
qed

definition example_estate :: "(string, string) estate" where
  "example_estate =
     \<lparr>es_node = documented_node, es_observe = plain_observe, es_contracts = accepting_contracts,
      es_codecs = plain_codecs, es_configure = plain_configure example_parties, es_gates = plain_gates,
      es_cluster_root = ''xmip:///test'', es_parties = example_parties, es_cores = 4\<rparr>"

theorem every_pair_has_seven_verdicts_witness:
  "length (schedule_run_once example_estate (schedule_new example_estate ''n'' [echo]) 0) = 140"
proof -
  have "length (schedule_pairs (schedule_new example_estate ''n'' [echo])) = 20"
    by (simp add: schedule_pairs_def schedule_new_def slice_def length_all_pairs)
  moreover have "message_path (es_node example_estate)"
    by (simp add: example_estate_def message_path_documented)
  ultimately show ?thesis
    using every_pair_has_seven_verdicts [of example_estate "schedule_new example_estate ''n'' [echo]"]
    by simp
qed

section \<open>Who owns a failure\<close>

text \<open>A failure of the real exchange is one stage's alone: Process where the contract did not
  hold over bytes that came back whole, Receive where they did not, and the other two stages are
  delivered; a one-sided exchange is one-sided at all three; and a delivered one counts its bytes
  once, at Send.\<close>

theorem exactly_one_stage_owns_a_failure:
  "(\<exists>!st. \<exists>why. fst (stage_outcome st (Failed e) n) = Failed why)
   \<and> fst (stage_outcome (if prefix ''contract not held'' e then Process else Receive) (Failed e) n) = Failed e
   \<and> fst (stage_outcome st (OneSided e) n) = OneSided e
   \<and> fst (stage_outcome st Delivered n) = Delivered
   \<and> (\<Sum>st \<leftarrow> [Receive, Process, Send]. snd (stage_outcome st Delivered n)) = n"
proof (intro conjI)
  show "\<exists>!st. \<exists>why. fst (stage_outcome st (Failed e) n) = Failed why"
    by (rule ex1I [of _ "if prefix ''contract not held'' e then Process else Receive"])
      (auto simp: stage_outcome_def Let_def split: if_splits)
qed (auto simp: stage_outcome_def Let_def)

section \<open>Every pair has its turn\<close>

lemma slice_mod: "slice ps (k mod length ps) b = slice ps k b"
  by (cases b) (auto simp: slice_def mod_simps)

abbreviation matrix :: "schedule \<Rightarrow> nat" where
  "matrix S \<equiv> length (sc_transports S) * 20"

lemma schedule_tick_fields:
  "sc_transports (fst (schedule_tick E now S)) = sc_transports S"
  "sc_per_round (fst (schedule_tick E now S)) = sc_per_round S"
  by (auto simp: schedule_tick_def Let_def split: prod.splits option.splits)

lemma schedule_tick_cursor:
  assumes "sc_per_round S = Some k" "0 < matrix S"
  shows "sc_cursor (fst (schedule_tick E now S)) = (sc_cursor S + min k (matrix S)) mod matrix S"
proof -
  have "max (matrix S) (Suc 0) = matrix S" using assms(2) by linarith
  then show ?thesis using assms(1) by (simp add: schedule_tick_def Let_def case_prod_beta)
qed

lemma schedule_ticks_cursor:
  assumes "sc_per_round S = Some k" "\<And>a. a \<in> set as \<Longrightarrow> length (fst a) * 20 = n" "0 < n"
  shows "sc_cursor (schedule_ticks E as S) mod n = (sc_cursor S + length as * min k n) mod n
    \<and> sc_per_round (schedule_ticks E as S) = Some k"
  using assms(1,2)
proof (induction as arbitrary: S)
  case (Cons a as)
  let ?S = "S\<lparr>sc_transports := fst a\<rparr>"
  have "sc_cursor (fst (schedule_tick E (snd a) ?S)) = (sc_cursor S + min k n) mod n"
    using schedule_tick_cursor [of ?S k] Cons.prems assms(3) by simp
  moreover have "sc_per_round (fst (schedule_tick E (snd a) ?S)) = Some k"
    using schedule_tick_fields(2) [of E "snd a" ?S] Cons.prems by simp
  ultimately show ?case using Cons.IH Cons.prems by (simp add: mod_simps algebra_simps)
qed simp

text \<open>The pairs the \<open>i\<close>th of a sequence of ticks drives.\<close>

definition driven_at ::
    "('id, 'facts) estate \<Rightarrow> (adapter list \<times> int) list \<Rightarrow> schedule \<Rightarrow> nat \<Rightarrow> (nat \<times> contract) list" where
  "driven_at E as S i = schedule_pairs ((schedule_ticks E (take i as) S)\<lparr>sc_transports := fst (as ! i)\<rparr>)"

lemma window_reaches:
  fixes c j k n m :: nat
  assumes "j < n" "0 < k" "n \<le> m * k"
  shows "\<exists>i < m. \<exists>s < k. (c + i * k + s) mod n = j"
proof -
  define t where "t = (j + (n - c mod n)) mod n"
  have "t < n" using assms(1) by (simp add: t_def)
  have "(c + t) mod n = (c mod n + (j + (n - c mod n))) mod n"
    unfolding t_def by (simp add: mod_simps)
  also have "c mod n + (j + (n - c mod n)) = j + n"
    using assms(1) mod_less_divisor [of n c] by linarith
  finally have "(c + t) mod n = j" using assms(1) by simp
  moreover have "t = t div k * k + t mod k" by simp
  moreover have "t div k < m" using \<open>t < n\<close> assms(2,3) by (simp add: less_mult_imp_div_less)
  moreover have "t mod k < k" using assms(2) by simp
  ultimately show ?thesis by (metis add.assoc)
qed

text \<open>C4: a bounded schedule starves no pair. Over any ticks whose bounds add up to the matrix, every
  transport is driven with every contract in one of them, whatever the transports answer and
  wherever the cursor stood.\<close>

theorem every_pair_has_its_turn:
  assumes "sc_per_round S = Some k" and "0 < k"
    and "\<forall>a \<in> set as. length (fst a) = transports"
    and "transports * 20 \<le> length as * min k (transports * 20)"
    and "t < transports"
  shows "\<exists>i < length as. (t, c) \<in> set (driven_at E as S i)"
proof -
  let ?n = "transports * 20"
  have n: "0 < ?n" using assms(5) by simp
  define ps where "ps = all_pairs (replicate transports undefined)"
  have len: "length ps = ?n" by (simp add: ps_def length_all_pairs)
  have "(t, c) \<in> set ps" using assms(5) by (simp add: ps_def set_all_pairs)
  then obtain j where j: "j < ?n" "ps ! j = (t, c)" using len by (auto simp: in_set_conv_nth)
  obtain i s where i: "i < length as" and s: "s < min k ?n"
    and at: "(sc_cursor S + i * min k ?n + s) mod ?n = j"
    using window_reaches [OF j(1), of "min k ?n" "length as" "sc_cursor S"] assms(2,4) n by auto
  have trs: "\<And>a. a \<in> set (take i as) \<Longrightarrow> length (fst a) * 20 = ?n"
    using assms(3) by (auto dest: in_set_takeD)
  have pairs: "all_pairs (fst (as ! i)) = ps"
    using assms(3) i by (simp add: ps_def all_pairs_def)
  define cu where "cu = sc_cursor (schedule_ticks E (take i as) S)"
  have cu: "cu mod ?n = (sc_cursor S + i * min k ?n) mod ?n"
    and per: "sc_per_round (schedule_ticks E (take i as) S) = Some k"
    using schedule_ticks_cursor [where E = E, OF assms(1) trs n] i by (simp_all add: cu_def)
  have "driven_at E as S i = slice ps (sc_cursor S + i * min k ?n) (Some k)"
    unfolding driven_at_def schedule_pairs_def
    using slice_mod [of ps cu] slice_mod [of ps "sc_cursor S + i * min k ?n"] cu
    by (simp add: pairs per len cu_def)
  moreover have "(t, c) = ps ! ((sc_cursor S + i * min k ?n + s) mod length ps)"
    using at j by (simp add: len)
  ultimately show ?thesis
    using i s n len by (auto simp: slice_def image_iff intro!: exI [of _ i] bexI [of _ s])
qed

theorem every_pair_has_its_turn_witness:
  "\<exists>i < 2. (0, Sql) \<in> set (driven_at example_estate [([echo], 0), ([echo], 1)]
     (pairs_per_round 11 (schedule_new example_estate ''n'' [echo])) i)"
proof -
  let ?S = "pairs_per_round 11 (schedule_new example_estate ''n'' [echo])"
  have "sc_per_round ?S = Some 11" by (simp add: pairs_per_round_def schedule_new_def)
  from every_pair_has_its_turn [OF this, of "[([echo], 0), ([echo], 1)]" 1 0 Sql example_estate]
  show ?thesis by (simp add: numeral_2_eq_2)
qed

section \<open>The board\<close>

text \<open>A tick leaves no pair off the board. The snapshot it publishes has a health record for
  every scope of this round's verdicts and for every scope any earlier round judged, and for no
  other.\<close>

theorem tick_publishes_every_scope:
  assumes "records_scopes (es_observe E)"
  shows "hr_scope ` set (recorded (snd (schedule_tick E now S))) =
    fst ` set (lg_tallies (sc_ledger S))
    \<union> verdict_scope (es_node E) (lg_node (sc_ledger S))
        ` set (schedule_run_once E (S\<lparr>sc_round := sc_round S + 1\<rparr>) now)"
proof -
  define vs where "vs = schedule_run_once E (S\<lparr>sc_round := sc_round S + 1\<rparr>) now"
  define run where "run = ledger_run (es_node E) now vs (sc_ledger S, [])"
  have "snd (schedule_tick E now S) = ledger_close (es_node E) (es_observe E) (fst run) (snd run) now"
    by (simp add: schedule_tick_def Let_def run_def vs_def split: prod.splits)
  then show ?thesis
    using run_scopes [of "es_node E" now vs "(sc_ledger S, [])"]
    by (auto simp: close_scopes [OF assms] run_def vs_def)
qed

theorem tick_publishes_every_scope_witness:
  "hr_scope ` set (recorded (snd (schedule_tick example_estate 0 (schedule_new example_estate ''n'' [])))) = {}"
  by (subst tick_publishes_every_scope)
    (simp_all add: example_estate_def records_scopes_plain schedule_new_def ledger_new_def
      schedule_run_once_def schedule_pairs_def slice_def all_pairs_def drive_selected_def)

section \<open>Green when nothing is wrong\<close>

lemma size_for_Calm: "size_for Calm round = 64"
  by (simp add: size_for_def)

lemma calm_fault: "schedule_fault E (schedule_at Calm S\<lparr>sc_round := r\<rparr>) st name c now = None"
  by (simp add: schedule_fault_def schedule_at_def leveled_def plan_none_def fault_for_def
      schedule_with_faults_def)

text \<open>C18: at \<open>Calm\<close>, over transports that carry what they are given, contracts that hold over their
  own payloads, and Parties the gates prove, every verdict of every round is delivered: the test
  raises no alarm of its own.\<close>

theorem calm_is_all_green:
  assumes "message_path (es_node E)" and "gates_documented (es_gates E)"
    and "sp_parties (sc_spread S) \<noteq> []"
    and "\<forall>p < length (sp_parties (sc_spread S)). party_resolves (es_gates E) (es_configure E)
           \<lparr>fa_parties = sp_parties (sc_spread S), fa_party = p\<rparr>"
    and "\<forall>T \<in> set (sc_transports S). \<forall>payload. ad_refuses T payload = None
           \<and> ad_exchange T payload = Returned payload"
    and "\<forall>c. held (es_contracts E) c (stress_payload (es_codecs E) c 64) = Delivered"
    and "v \<in> set (schedule_run_once E (schedule_at Calm S\<lparr>sc_round := r\<rparr>) now)"
  shows "v_outcome v = Delivered"
proof -
  let ?S = "schedule_at Calm S\<lparr>sc_round := r\<rparr>"
  have fields: "sc_transports ?S = sc_transports S" "sc_spread ?S = sc_spread S"
    "sc_identity_faults ?S = False" "sc_stress ?S = Some Calm" "sc_round ?S = r"
    by (simp_all add: schedule_at_def leveled_def schedule_with_faults_def plan_none_def plan_is_empty_def)
  from assms(7) obtain t c where pair: "(t, c) \<in> set (schedule_pairs ?S)"
    and v: "v \<in> set (schedule_judge E ?S (Some 64) now (sc_transports S ! t) c)"
    by (auto simp: schedule_run_once_def drive_selected_def fields size_for_Calm)
  let ?T = "sc_transports S ! t"
  have "?T \<in> set (sc_transports S)"
    using schedule_pairs_bound [OF pair] by (simp add: fields)
  then have base: "round_trip_with (es_contracts E) ?T c (stress_payload (es_codecs E) c 64) =
      (Delivered, length (stress_payload (es_codecs E) c 64))"
    using assms(5,6) by (simp add: round_trip_with_def carried_def)
  have resolves: "party_resolves (es_gates E) (es_configure E)
      \<lparr>fa_parties = sp_parties (sc_spread S), fa_party = spread_sender (sc_spread S) name\<rparr>"
    "party_resolves (es_gates E) (es_configure E)
      \<lparr>fa_parties = sp_parties (sc_spread S), fa_party = spread_receiver (sc_spread S) name\<rparr>" for name
    using assms(4) spread_side_lt [OF assms(3)] by blast+
  have none: "receive_fault False x y z = None" "send_fault False x y z = None" for x y z
    by (simp_all add: receive_fault_def send_fault_def)
  show ?thesis
    using v unfolding schedule_judge_def message_path_all [OF assms(1)] fields
    by (auto simp: Let_def base calm_fault stage_outcome_def receive_verdicts_def send_verdict_def
        pipeline_outcomes [OF assms(2) resolves(1)] send_outcome [OF assms(2) resolves(2)] none)
qed

theorem calm_is_all_green_witness:
  "list_all (\<lambda>v. v_outcome v = Delivered) (schedule_run_once example_estate
      (schedule_at Calm (schedule_new example_estate ''n'' [echo])\<lparr>sc_round := 3\<rparr>) 0)"
  unfolding list_all_iff
proof
  fix v assume v: "v \<in> set (schedule_run_once example_estate
      (schedule_at Calm (schedule_new example_estate ''n'' [echo])\<lparr>sc_round := 3\<rparr>) 0)"
  have "held accepting_contracts c (stress_payload plain_codecs c 64) = Delivered" for c
  proof (cases c)
    case Text
    then show ?thesis by simp code_simp
  next
    case Html
    then show ?thesis by simp code_simp
  qed (simp_all add: held_Delivered content_validate_def accepting_contracts_def check_def Let_def)
  moreover have "p < 3 \<Longrightarrow> party_resolves plain_gates (plain_configure example_parties)
      \<lparr>fa_parties = example_parties, fa_party = p\<rparr>" for p
    by (rule party_resolves_examples)
  moreover have "length example_parties = 3" "example_parties \<noteq> []"
    by (simp_all add: example_parties_def)
  ultimately show "v_outcome v = Delivered"
    using calm_is_all_green [OF _ _ _ _ _ _ v]
    by (auto simp: example_estate_def message_path_documented gates_documented_plain schedule_new_def
        parties_spread_over_def parties_spread_def echo_def)
qed

end
