(* ===== verification/Roster.thy ===== *)
theory Roster
  imports Verdict
begin

text \<open>
  The roster (\<open>src/roster.rs\<close>): every node of a cluster with what it declared, which pairs of the
  matrix a receiving node takes and which node a pair is handed to next. What a capability is
  belongs to the \<open>node\<close> crate, the parameter \<open>K\<close>; its type is left open.
\<close>

record 'cap capability_api =
  cap_none :: 'cap
  cap_from_entry :: "string \<Rightarrow> string \<times> (string + 'cap)"
  cap_entry :: "'cap \<Rightarrow> string \<Rightarrow> string"
  cap_can :: "'cap \<Rightarrow> stage \<Rightarrow> bool"
  cap_declares_no_stage :: "'cap \<Rightarrow> bool"
  cap_executes :: "'cap \<Rightarrow> bool"
  role_serving :: "stage \<Rightarrow> string"

type_synonym 'cap roster = "(string \<times> 'cap) list"

definition roster_of :: "'cap capability_api \<Rightarrow> string list \<Rightarrow> 'cap roster" where
  "roster_of K names = map (\<lambda>name. (name, cap_none K)) names"

text \<open>The loop of \<open>parse\<close> over the entries: the first that is no role ends it.\<close>

fun roster_entries :: "'cap capability_api \<Rightarrow> string list \<Rightarrow> string + 'cap roster" where
  "roster_entries K [] = Inr []"
| "roster_entries K (e # es) =
     (if e = [] then roster_entries K es
      else (case cap_from_entry K e of
          (name, Inl refused) \<Rightarrow> Inl refused
        | (name, Inr cap) \<Rightarrow>
            (case roster_entries K es of Inl refused \<Rightarrow> Inl refused | Inr R \<Rightarrow> Inr ((name, cap) # R))))"

definition roster_parse :: "'cap capability_api \<Rightarrow> string \<Rightarrow> string + 'cap roster" where
  "roster_parse K raw = roster_entries K (map trim (split_on (CHR '','') raw))"

definition roster_of_cluster ::
    "'cap capability_api \<Rightarrow> (string \<Rightarrow> string + (string \<times> string list) list) \<Rightarrow> string
       \<Rightarrow> string + 'cap roster" where
  "roster_of_cluster K roles cluster =
     (case roles cluster of
        Inl e \<Rightarrow> Inl e
      | Inr named \<Rightarrow>
          roster_parse K (join '','' (map (\<lambda>(name, rs).
            if rs = [] then name else name @ ''='' @ join ''+'' rs) named)))"

definition roster_text :: "'cap capability_api \<Rightarrow> 'cap roster \<Rightarrow> string" where
  "roster_text K R = join '','' (map (\<lambda>(name, cap). cap_entry K cap name) R)"

definition roster_names :: "'cap roster \<Rightarrow> string list" where
  "roster_names R = map fst R"

definition roster_without :: "string list \<Rightarrow> 'cap roster \<Rightarrow> 'cap roster" where
  "roster_without real R = filter (\<lambda>(name, _). \<not> list_ex (\<lambda>one. eq_ignore_ascii_case one name) real) R"

definition roster_is_empty :: "'cap roster \<Rightarrow> bool" where
  "roster_is_empty R \<longleftrightarrow> R = []"

definition roster_capability :: "'cap capability_api \<Rightarrow> 'cap roster \<Rightarrow> string \<Rightarrow> 'cap" where
  "roster_capability K R name =
     (case find (\<lambda>(one, _). eq_ignore_ascii_case one name) R of
        Some (_, cap) \<Rightarrow> cap
      | None \<Rightarrow> cap_none K)"

fun roster_declared :: "string \<Rightarrow> 'cap \<Rightarrow> 'cap roster \<Rightarrow> 'cap roster" where
  "roster_declared name cap [] = [(name, cap)]"
| "roster_declared name cap ((one, old) # R) =
     (if eq_ignore_ascii_case one name then (one, cap) # R else (one, old) # roster_declared name cap R)"

definition roster_with :: "'cap capability_api \<Rightarrow> 'cap roster \<Rightarrow> stage \<Rightarrow> string list" where
  "roster_with K R st = map fst (filter (\<lambda>(_, cap). cap_can K cap st) R)"

definition serves_any_stage :: "'cap capability_api \<Rightarrow> 'cap roster \<Rightarrow> bool" where
  "serves_any_stage K R \<longleftrightarrow> list_ex (\<lambda>(_, cap). \<not> cap_declares_no_stage K cap) R"

definition covers_the_path :: "node_api \<Rightarrow> 'cap capability_api \<Rightarrow> 'cap roster \<Rightarrow> bool" where
  "covers_the_path N K R \<longleftrightarrow> list_all (\<lambda>st. roster_with K R st \<noteq> []) (stage_all N)"

definition roster_describe :: "node_api \<Rightarrow> 'cap capability_api \<Rightarrow> 'cap roster \<Rightarrow> string" where
  "roster_describe N K R =
     (let n = length R in
      if n = 0 then ''no nodes''
      else let many = (if n = 1 then ''node'' else ''nodes'') in
      if \<not> serves_any_stage K R
      then decimal n @ '' '' @ many @ '', none serving a stage: whole tests in each''
      else decimal n @ '' '' @ many @ '', '' @ join '', ''
        (map (\<lambda>st. decimal (length (roster_with K R st)) @ '' '' @ role_serving K st) (stage_all N)))"

definition refusal :: "node_api \<Rightarrow> 'cap capability_api \<Rightarrow> 'cap roster \<Rightarrow> string option" where
  "refusal N K R =
     (if \<not> serves_any_stage K R then None
      else let missing = map (role_serving K) (filter (\<lambda>st. roster_with K R st = []) (stage_all N)) in
        if missing = [] then None
        else Some (''REFUSED. RoundTrip across nodes needs the receiving, processing and sending ''
          @ ''roles declared, or executing; no node declares '' @ join '' or '' missing @ ''.''))"

definition roster_receives :: "'cap capability_api \<Rightarrow> 'cap roster \<Rightarrow> string \<Rightarrow> nat \<Rightarrow> bool" where
  "roster_receives K R name index =
     (let receivers = roster_with K R Receive in
      case position (\<lambda>one. one = name) receivers of
        None \<Rightarrow> False
      | Some at \<Rightarrow> index mod length receivers = at)"

definition fnv1a :: "string \<Rightarrow> u64" where
  "fnv1a text =
     (let hash = fold (\<lambda>byte hash. (hash XOR of_char byte) * 0x100000001B3) text 0xCBF29CE484222325;
          mixed = (hash XOR drop_bit 33 hash) * 0xFF51AFD7ED558CCD in
      mixed XOR drop_bit 33 mixed)"

definition roster_target ::
    "node_api \<Rightarrow> 'cap capability_api \<Rightarrow> 'cap roster \<Rightarrow> string \<Rightarrow> stage \<Rightarrow> string \<Rightarrow> contract \<Rightarrow> string option" where
  "roster_target N K R from st transport c =
     (if cap_executes K (roster_capability K R from) then Some from
      else let nodes = roster_with K R st in
      if nodes = [] then None
      else let hash = fnv1a (stage_name N st @ ''/'' @ transport @ ''/'' @ contract_name c) in
        Some (nodes ! unat (hash mod of_nat (length nodes))))"

section \<open>The share of a receiving node\<close>

lemma set_roster_with: "set (roster_with K R st) = {name. \<exists>cap. (name, cap) \<in> set R \<and> cap_can K cap st}"
  by (force simp: roster_with_def)

lemma roster_receives_nth:
  assumes "distinct (roster_with K R Receive)" "at < length (roster_with K R Receive)"
  shows "roster_receives K R (roster_with K R Receive ! at) index \<longleftrightarrow>
    index mod length (roster_with K R Receive) = at"
  using assms by (simp add: roster_receives_def Let_def position_distinct)

text \<open>The receiving nodes split the matrix among them: with distinct names, and at least one
  that receives, every pair of the matrix is taken by exactly one node, one that declared receive.\<close>

theorem receivers_partition_the_matrix:
  assumes "distinct (roster_with K R Receive)" and "roster_with K R Receive \<noteq> []"
  shows "\<exists>!name. roster_receives K R name index
    \<and> (\<exists>cap. (name, cap) \<in> set R \<and> cap_can K cap Receive)"
proof -
  let ?rs = "roster_with K R Receive"
  have at: "index mod length ?rs < length ?rs" using assms(2) by simp
  have "roster_receives K R (?rs ! (index mod length ?rs)) index"
    using roster_receives_nth [OF assms(1) at] by simp
  moreover have "\<exists>cap. (?rs ! (index mod length ?rs), cap) \<in> set R \<and> cap_can K cap Receive"
    using nth_mem [OF at] set_roster_with [of K R Receive] by blast
  moreover have "name = ?rs ! (index mod length ?rs)" if "roster_receives K R name index" for name
    using that by (auto simp: roster_receives_def Let_def dest!: position_Some split: option.splits)
  ultimately show ?thesis by blast
qed

text \<open>Capabilities as the set of stages a node declared, executing being all three.\<close>

definition stage_word :: "stage \<Rightarrow> string" where
  "stage_word st = (case st of Receive \<Rightarrow> ''receiving'' | Process \<Rightarrow> ''processing'' | Send \<Rightarrow> ''sending'')"

definition plain_capability :: "stage list capability_api" where
  "plain_capability =
     \<lparr>cap_none = [],
      cap_from_entry = (\<lambda>e. case split_on (CHR ''='') e of
          [name] \<Rightarrow> (name, Inr [])
        | [name, word] \<Rightarrow> (name, (case find (\<lambda>st. stage_word st = word) [Receive, Process, Send] of
            Some st \<Rightarrow> Inr [st] | None \<Rightarrow> Inl (word @ '' is no role'')))
        | _ \<Rightarrow> (e, Inl ''no entry'')),
      cap_entry = (\<lambda>cap name. case cap of [] \<Rightarrow> name | st # _ \<Rightarrow> name @ ''='' @ stage_word st),
      cap_can = (\<lambda>cap st. st \<in> set cap), cap_declares_no_stage = (\<lambda>cap. cap = []),
      cap_executes = (\<lambda>cap. length cap = 3), role_serving = stage_word\<rparr>"

definition example_roster :: "stage list roster" where
  "example_roster = [(''a'', [Receive]), (''b'', [Receive]), (''p'', [Process]), (''s'', [Send])]"

theorem receivers_partition_the_matrix_witness:
  "(\<exists>!name. roster_receives plain_capability example_roster name 7
      \<and> (\<exists>cap. (name, cap) \<in> set example_roster \<and> cap_can plain_capability cap Receive))
   \<and> roster_receives plain_capability example_roster ''b'' 7"
proof
  have "roster_with plain_capability example_roster Receive = [''a'', ''b'']" by code_simp
  then show "\<exists>!name. roster_receives plain_capability example_roster name 7
      \<and> (\<exists>cap. (name, cap) \<in> set example_roster \<and> cap_can plain_capability cap Receive)"
    by (intro receivers_partition_the_matrix) simp_all
qed code_simp

text \<open>
  Two nodes written with one name: \<open>parse\<close> takes them, and the place of the second in the list is
  nobody's, so every pair that falls to it is taken by no node.
\<close>

lemma duplicate_names_starve_pairs:
  "\<not> (\<exists>name. roster_receives plain_capability [(''a'', [Receive]), (''a'', [Receive])] name 1)"
  by (auto simp: roster_receives_def roster_with_def plain_capability_def)

text \<open>
  A node looks itself up without regard to case, and takes its share with it: one that writes its
  name in another case finds its capability and takes no pair.
\<close>

lemma share_is_case_sensitive:
  "cap_can plain_capability (roster_capability plain_capability [(''a'', [Receive])] ''A'') Receive
   \<and> \<not> roster_receives plain_capability [(''a'', [Receive])] ''A'' index"
proof
  show "cap_can plain_capability (roster_capability plain_capability [(''a'', [Receive])] ''A'') Receive"
    by code_simp
qed (simp add: roster_receives_def roster_with_def plain_capability_def)

section \<open>Where a pair goes next\<close>

lemma hash_index:
  fixes hash :: u64
  assumes "0 < n" "n < 2 ^ 64"
  shows "unat (hash mod of_nat n) < n"
proof -
  have "unat (of_nat n :: u64) = n" using assms(2) by (simp add: unat_of_nat take_bit_nat_eq_self)
  then show ?thesis using assms(1) by (simp add: unat_mod)
qed

lemma roster_target_serves:
  assumes "length R < 2 ^ 64" "roster_target N K R from st transport c = Some to"
  shows "to = from \<and> cap_executes K (roster_capability K R from) \<or> to \<in> set (roster_with K R st)"
proof (cases "cap_executes K (roster_capability K R from)")
  case False
  have "length (roster_with K R st) \<le> length R" by (simp add: roster_with_def)
  with assms(1) have "length (roster_with K R st) < 2 ^ 64" by (rule le_less_trans [rotated])
  with assms(2) False hash_index show ?thesis
    by (auto simp: roster_target_def Let_def split: if_splits intro!: nth_mem)
qed (use assms in \<open>simp add: roster_target_def\<close>)

lemma refusal_None:
  "refusal N K R = None \<longleftrightarrow> \<not> serves_any_stage K R \<or> covers_the_path N K R"
  by (auto simp: refusal_def covers_the_path_def Let_def list_all_iff filter_empty_conv)



section \<open>Written and read back\<close>

text \<open>An entry as the \<open>node\<close> crate writes and reads it: one comma-free, trimmed word.\<close>

definition entry_documented :: "'cap capability_api \<Rightarrow> string \<times> 'cap \<Rightarrow> bool" where
  "entry_documented K = (\<lambda>(name, cap).
     cap_from_entry K (cap_entry K cap name) = (name, Inr cap) \<and> cap_entry K cap name \<noteq> []
     \<and> CHR '','' \<notin> set (cap_entry K cap name) \<and> trim (cap_entry K cap name) = cap_entry K cap name)"

lemma roster_entries_text:
  "list_all (entry_documented K) R \<Longrightarrow>
     roster_entries K (map (\<lambda>(name, cap). cap_entry K cap name) R) = Inr R"
  by (induction R) (auto simp: entry_documented_def)

text \<open>A roster reads back from the text it is handed on as: the nodes, their order and what each
  declared, so the roll, the cluster and every node hold the same one.\<close>

theorem roster_text_round_trip:
  assumes "list_all (entry_documented K) R"
  shows "roster_parse K (roster_text K R) = Inr R"
proof (cases "R = []")
  case True
  have "trim [] = []" by (simp add: trim_def strip_front.simps find_None_iff white_space_def)
  with True show ?thesis by (simp add: roster_parse_def roster_text_def)
next
  case False
  let ?es = "map (\<lambda>(name, cap). cap_entry K cap name) R"
  have "split_on (CHR '','') (join '','' ?es) = ?es"
    using assms False by (intro split_on_join) (auto simp: entry_documented_def list_all_iff)
  moreover have "map trim ?es = ?es"
    using assms by (auto simp: entry_documented_def list_all_iff)
  ultimately show ?thesis
    unfolding roster_parse_def roster_text_def using roster_entries_text [OF assms] by (simp only:)
qed

theorem roster_text_round_trip_witness:
  "roster_text plain_capability example_roster = ''a=receiving,b=receiving,p=processing,s=sending''
   \<and> roster_parse plain_capability (roster_text plain_capability example_roster) = Inr example_roster"
proof
  have "list_all (entry_documented plain_capability) example_roster" by code_simp
  then show "roster_parse plain_capability (roster_text plain_capability example_roster) = Inr example_roster"
    by (rule roster_text_round_trip)
qed code_simp

end
