(* ===== verification/Files.thy ===== *)
theory Files
  imports Prelude
begin

text \<open>
  What the sources use of the file system: a directory is its files by name, \<open>rename\<close> and
  \<open>create_new\<close> are its atomic steps, and a file name has at most one extension.
\<close>

section \<open>Directories\<close>

type_synonym dir = "(string, bytes) btree"

text \<open>\<open>fs::rename\<close>: an error where the file is not there, otherwise the file under its new name.\<close>

definition rename :: "string \<Rightarrow> string \<Rightarrow> dir \<Rightarrow> dir option" where
  "rename a b d =
     (case btree_get d a of None \<Rightarrow> None | Some c \<Rightarrow> Some (btree_insert b c (btree_remove a d)))"

text \<open>\<open>Path::extension\<close> and \<open>Path::with_extension\<close> of a file's name: what follows its last dot, unless
  that is its first character.\<close>

definition extension :: "string \<Rightarrow> string option" where
  "extension name =
     (case position (\<lambda>c. c = CHR ''.'') (rev name) of
        None \<Rightarrow> None
      | Some i \<Rightarrow> if i + 1 = length name then None else Some (drop (length name - i) name))"

definition with_extension :: "string \<Rightarrow> string \<Rightarrow> string" where
  "with_extension ext name =
     (case extension name of
        None \<Rightarrow> name
      | Some old \<Rightarrow> take (length name - length old - 1) name) @ ''.'' @ ext"

text \<open>Opening a file with \<open>create_new\<close>, the exclusive creation of \<open>O_EXCL\<close>: an error where it is there.\<close>

definition create_new :: "string \<Rightarrow> dir \<Rightarrow> dir option" where
  "create_new name d = (case btree_get d name of None \<Rightarrow> Some (btree_insert name [] d) | Some _ \<Rightarrow> None)"

lemma create_new_None: "create_new name d = None \<longleftrightarrow> btree_get d name \<noteq> None"
  by (simp add: create_new_def split: option.splits)

lemma create_new_Some:
  "create_new name d = Some e \<longleftrightarrow> btree_get d name = None \<and> e = btree_insert name [] d"
  by (auto simp: create_new_def split: option.splits)

lemma btree_get_in: "btree_get d name \<noteq> None \<longleftrightarrow> name \<in> fst ` set d"
  by (simp add: btree_get_def map_of_eq_None_iff)

lemma rename_Some:
  "rename a b d = Some e \<longleftrightarrow> (\<exists>c. btree_get d a = Some c \<and> e = btree_insert b c (btree_remove a d))"
  by (auto simp: rename_def split: option.splits)

section \<open>Extensions\<close>

lemma position_append: "\<forall>x \<in> set xs. \<not> P x \<Longrightarrow> P y \<Longrightarrow> position P (xs @ y # ys) = Some (length xs)"
  by (induction xs) auto

lemma position_dot: "CHR ''.'' \<notin> set e \<Longrightarrow>
    position (\<lambda>c. c = CHR ''.'') (rev (n @ ''.'' @ e)) = Some (length e)"
  using position_append [of "rev e" "\<lambda>c. c = CHR ''.''" "CHR ''.''" "rev n"] by auto

lemma extension_dot: "CHR ''.'' \<notin> set e \<Longrightarrow> n \<noteq> [] \<Longrightarrow> extension (n @ ''.'' @ e) = Some e"
  using position_dot [of e n] by (simp add: extension_def)

lemma extension_Some:
  assumes "extension name = Some e"
  obtains n where "name = n @ ''.'' @ e" "n \<noteq> []"
proof -
  from assms obtain i where i: "position (\<lambda>c. c = CHR ''.'') (rev name) = Some i"
    and "i + 1 \<noteq> length name" and e: "e = drop (length name - i) name"
    by (auto simp: extension_def split: option.splits if_splits)
  from position_Some [OF i] have "i < length name" and "name ! (length name - Suc i) = CHR ''.''"
    by (auto simp: rev_nth)
  then have "name = take (length name - Suc i) name @ CHR ''.'' # drop (length name - i) name"
    using id_take_nth_drop [of "length name - Suc i" name] by (simp add: Suc_diff_Suc)
  moreover have "take (length name - Suc i) name \<noteq> []"
    using \<open>i < length name\<close> \<open>i + 1 \<noteq> length name\<close> by auto
  ultimately show thesis using that e by simp
qed

end
