(* ===== verification/Handoff.thy ===== *)
theory Handoff
  imports Roster Files
begin

text \<open>
  The handoff between node processes (\<open>src/handoff.rs\<close>): a pair's bytes as one file, the inbox it is
  renamed into and claimed out of by renaming, and the hops counted per link. An inbox's directory
  is its files by name, in the order \<open>claim\<close> sorts them; the processes that share it are the step
  relation \<open>inbox_step\<close>, whose steps are the renames, which the file system makes atomic.
\<close>

section \<open>A handoff as bytes\<close>

definition READY :: string where
  "READY = ''handoff''"

definition MAGIC :: string where
  "MAGIC = ''xmip-handoff-1''"

record handoff =
  hf_transport :: string
  hf_contract :: contract
  hf_round :: nat
  hf_from :: string
  hf_bytes :: bytes

definition handoff_header :: "handoff \<Rightarrow> string" where
  "handoff_header h =
     MAGIC @ '' '' @ hf_transport h @ '' '' @ contract_name (hf_contract h) @ '' ''
     @ decimal (hf_round h) @ '' '' @ hf_from h @ '' '' @ decimal (length (hf_bytes h))"

definition encode :: "handoff \<Rightarrow> bytes" where
  "encode h = handoff_header h @ [CHR 0x0A] @ hf_bytes h"

definition decode :: "bytes \<Rightarrow> handoff option" where
  "decode raw =
     (case position (\<lambda>byte. byte = CHR 0x0A) raw of
        None \<Rightarrow> None
      | Some end' \<Rightarrow>
          let header = take end' raw in
          if utf8_error 0 header \<noteq> None then None
          else (case split_on (CHR '' '') header of
              magic # transport # name # round # from # len # _ \<Rightarrow>
                if magic \<noteq> MAGIC then None
                else (case (contract_named name, parse_unsigned 64 round, parse_unsigned 64 len) of
                    (Some c, Some r, Some n) \<Rightarrow>
                      let bs = drop (end' + 1) raw in
                      if length bs = n
                      then Some \<lparr>hf_transport = transport, hf_contract = c, hf_round = r, hf_from = from,
                                 hf_bytes = bs\<rparr>
                      else None
                  | _ \<Rightarrow> None)
            | _ \<Rightarrow> None))"

text \<open>What a node hands on: names that are words of the header, and lengths a machine has.\<close>

definition header_word :: "string \<Rightarrow> bool" where
  "header_word s \<longleftrightarrow> CHR '' '' \<notin> set s \<and> CHR 0x0A \<notin> set s \<and> utf8_error 0 s = None"

definition handoff_wf :: "handoff \<Rightarrow> bool" where
  "handoff_wf h \<longleftrightarrow> header_word (hf_transport h) \<and> header_word (hf_from h)
     \<and> hf_round h < 2 ^ 64 \<and> length (hf_bytes h) < 2 ^ 64"

section \<open>Writing and reading back\<close>

lemma utf8_None_Cons:
  "utf8_error i (a # s) = None \<longleftrightarrow>
     utf8_width a = 1 \<and> utf8_error (i + 1) s = None
     \<or> utf8_width a = 2 \<and> (\<exists>b r. s = b # r \<and> second_ok a b \<and> utf8_error (i + 2) r = None)
     \<or> utf8_width a = 3 \<and> (\<exists>b c r. s = b # c # r \<and> second_ok a b \<and> continuation c
          \<and> utf8_error (i + 3) r = None)
     \<or> utf8_width a = 4 \<and> (\<exists>b c d r. s = b # c # d # r \<and> second_ok a b \<and> continuation c
          \<and> continuation d \<and> utf8_error (i + 4) r = None)"
proof -
  have "utf8_width a = 0 \<or> utf8_width a = 1 \<or> utf8_width a = 2 \<or> utf8_width a = 3 \<or> utf8_width a = 4"
    by (simp add: utf8_width_def)
  then show ?thesis
    by (elim disjE) (simp_all add: Let_def split: list.splits)
qed

text \<open>Well-formed UTF-8, sequence by sequence.\<close>

inductive utf8_ok :: "bytes \<Rightarrow> bool" where
  none: "utf8_ok []"
| one: "utf8_width a = 1 \<Longrightarrow> utf8_ok r \<Longrightarrow> utf8_ok (a # r)"
| two: "utf8_width a = 2 \<Longrightarrow> second_ok a b \<Longrightarrow> utf8_ok r \<Longrightarrow> utf8_ok (a # b # r)"
| three: "utf8_width a = 3 \<Longrightarrow> second_ok a b \<Longrightarrow> continuation c \<Longrightarrow> utf8_ok r \<Longrightarrow> utf8_ok (a # b # c # r)"
| four: "utf8_width a = 4 \<Longrightarrow> second_ok a b \<Longrightarrow> continuation c \<Longrightarrow> continuation d \<Longrightarrow> utf8_ok r \<Longrightarrow>
    utf8_ok (a # b # c # d # r)"

lemma utf8_ok_error: "utf8_ok s \<Longrightarrow> utf8_error i s = None"
proof (induction arbitrary: i rule: utf8_ok.induct)
  case none
  show ?case by simp
qed (simp_all only: utf8_None_Cons, auto)

lemma utf8_error_ok: "utf8_error i s = None \<Longrightarrow> utf8_ok s"
proof (induction "length s" arbitrary: i s rule: less_induct)
  case less
  show ?case
  proof (cases s)
    case Nil
    then show ?thesis by (simp add: utf8_ok.none)
  next
    case (Cons a r)
    note cons = less.prems [unfolded Cons utf8_None_Cons]
    have IH: "utf8_error j t = None \<Longrightarrow> length t \<le> length r \<Longrightarrow> utf8_ok t" for j t
      using less.hyps [of t j] by (simp add: Cons)
    from cons show ?thesis
      unfolding Cons by (elim disjE exE conjE) (auto intro: utf8_ok.intros dest: IH)
  qed
qed

lemma utf8_ok_append: "utf8_ok s \<Longrightarrow> utf8_ok t \<Longrightarrow> utf8_ok (s @ t)"
  by (induction rule: utf8_ok.induct) (auto intro: utf8_ok.intros)

lemma utf8_append: "utf8_error 0 s = None \<Longrightarrow> utf8_error 0 t = None \<Longrightarrow> utf8_error 0 (s @ t) = None"
  by (rule utf8_ok_error [OF utf8_ok_append [OF utf8_error_ok utf8_error_ok]])

lemma header_word_digits: "list_all is_digit s \<Longrightarrow> header_word s"
  using ascii_digits utf8_error_ascii by (auto simp: header_word_def list_all_iff is_digit_def)

lemma header_word_contract: "header_word (contract_name c)"
  using contract_name_word [of c] utf8_error_ascii
  by (auto simp: header_word_def path_word_def list_all_iff)

lemma header_word_MAGIC: "header_word MAGIC"
  by code_simp

lemma header_words:
  assumes "handoff_wf h"
  shows "split_on (CHR '' '') (handoff_header h) =
      [MAGIC, hf_transport h, contract_name (hf_contract h), decimal (hf_round h), hf_from h,
       decimal (length (hf_bytes h))]"
    and "utf8_error 0 (handoff_header h) = None" and "CHR 0x0A \<notin> set (handoff_header h)"
proof -
  note words = header_word_MAGIC header_word_contract [of "hf_contract h"]
    header_word_digits [OF list_all_is_digit_decimal]
  have space: "utf8_error 0 '' '' = None" by code_simp
  show "split_on (CHR '' '') (handoff_header h) =
      [MAGIC, hf_transport h, contract_name (hf_contract h), decimal (hf_round h), hf_from h,
       decimal (length (hf_bytes h))]"
    using assms words
    by (simp add: handoff_header_def handoff_wf_def header_word_def split_on_append split_on_clean)
  show "CHR 0x0A \<notin> set (handoff_header h)"
    using assms words by (simp add: handoff_header_def handoff_wf_def header_word_def)
  show "utf8_error 0 (handoff_header h) = None"
    unfolding handoff_header_def using assms words
    by (intro utf8_append space) (simp_all only: handoff_wf_def header_word_def)
qed

text \<open>Reading the header with whatever follows it.\<close>

lemma decode_header:
  assumes "handoff_wf h"
  shows "decode (handoff_header h @ CHR 0x0A # bs) =
    (if length bs = length (hf_bytes h) then Some (h\<lparr>hf_bytes := bs\<rparr>) else None)"
proof -
  have pos: "position (\<lambda>byte. byte = CHR 0x0A) (handoff_header h @ CHR 0x0A # bs) =
      Some (length (handoff_header h))"
    using header_words(3) [OF assms] by (intro position_append) auto
  show ?thesis
    using assms unfolding decode_def pos
    by (simp add: Let_def header_words [OF assms] parse_unsigned_decimal handoff_wf_def)
qed

text \<open>C28: a handoff reads back as it was written, whatever its bytes are, newlines included.\<close>

theorem handoff_round_trip:
  assumes "handoff_wf h"
  shows "decode (encode h) = Some h"
  using decode_header [OF assms, of "hf_bytes h"] by (simp add: encode_def)

definition example_handoff :: handoff where
  "example_handoff = \<lparr>hf_transport = ''tcp'', hf_contract = Json, hf_round = 7, hf_from = ''a'',
     hf_bytes = [CHR 0x0A, CHR 0xFF, CHR ''x'']\<rparr>"

lemma example_handoff_wf: "handoff_wf example_handoff"
proof -
  have "header_word ''tcp''" "header_word ''a''" by code_simp+
  then show ?thesis by (simp add: handoff_wf_def example_handoff_def)
qed

theorem handoff_round_trip_witness: "decode (encode example_handoff) = Some example_handoff"
  by (rule handoff_round_trip [OF example_handoff_wf])

text \<open>Half a file is never a handoff: no proper prefix of one reads as anything, wherever the
  write was cut off.\<close>

theorem half_a_file_is_no_handoff:
  assumes "handoff_wf h" and "strict_prefix raw (encode h)"
  shows "decode raw = None"
proof (cases "CHR 0x0A \<in> set raw")
  case False
  then have "position (\<lambda>byte. byte = CHR 0x0A) raw = None" by (auto simp: position_None)
  then show ?thesis by (simp add: decode_def)
next
  case True
  from assms(2) obtain rest where enc: "encode h = raw @ rest" and "rest \<noteq> []"
    by (auto simp: strict_prefix_def prefix_def)
  have "prefix (handoff_header h @ [CHR 0x0A]) raw"
  proof (rule ccontr)
    assume "\<not> prefix (handoff_header h @ [CHR 0x0A]) raw"
    moreover have "prefix (handoff_header h @ [CHR 0x0A]) (encode h)" by (simp add: encode_def)
    moreover have "prefix raw (encode h)" using assms(2) by (simp add: strict_prefix_def)
    ultimately have "strict_prefix raw (handoff_header h @ [CHR 0x0A])"
      by (metis prefix_same_cases strict_prefix_def)
    then have "prefix raw (handoff_header h)" by (auto simp: strict_prefix_def prefix_snoc)
    then show False using True header_words(3) [OF assms(1)] by (auto simp: prefix_def)
  qed
  then obtain bs where raw: "raw = handoff_header h @ CHR 0x0A # bs" by (auto simp: prefix_def)
  have "length bs < length (hf_bytes h)"
    using enc \<open>rest \<noteq> []\<close> by (simp add: encode_def raw)
  then show ?thesis using decode_header [OF assms(1), of bs] raw by simp
qed

theorem half_a_file_is_no_handoff_witness: "decode (butlast (encode example_handoff)) = None"
proof -
  have "encode example_handoff \<noteq> []" by (simp add: encode_def)
  then have "strict_prefix (butlast (encode example_handoff)) (encode example_handoff)"
    by (metis append_butlast_last_id strict_prefix_def prefixI not_Cons_self2 append_self_conv)
  then show ?thesis by (rule half_a_file_is_no_handoff [OF example_handoff_wf])
qed

section \<open>An inbox\<close>

definition handoff_name :: "handoff \<Rightarrow> nat \<Rightarrow> string" where
  "handoff_name h seq =
     padded 10 (hf_round h) @ ''-'' @ hf_from h @ ''-'' @ padded 10 seq @ ''-'' @ hf_transport h @ ''-''
     @ contract_name (hf_contract h)"

definition inbox_deliver :: "handoff \<Rightarrow> nat \<Rightarrow> dir \<Rightarrow> dir option" where
  "inbox_deliver h seq d =
     (let name = handoff_name h seq; writing = name @ ''.writing'' in
      rename writing (name @ ''.'' @ READY) (btree_insert writing (encode h) d))"

definition claimed_extension :: "nat \<Rightarrow> string" where
  "claimed_extension pid = ''claimed-'' @ decimal pid"

text \<open>The loop of \<open>claim\<close> over the files it saw; one no longer there is a race lost.\<close>

fun claim_each :: "nat \<Rightarrow> string list \<Rightarrow> dir \<Rightarrow> (handoff list \<times> nat) \<times> dir" where
  "claim_each pid [] d = (([], 0), d)"
| "claim_each pid (path # paths) d =
     (let mine = with_extension (claimed_extension pid) path in
      case rename path mine d of
        None \<Rightarrow> claim_each pid paths d
      | Some d1 \<Rightarrow>
          let read = Option.bind (btree_get d1 mine) decode;
              ((hs, unreadable), d2) = claim_each pid paths (btree_remove mine d1) in
          (case read of
             Some h \<Rightarrow> ((h # hs, unreadable), d2)
           | None \<Rightarrow> ((hs, unreadable + 1), d2)))"

definition inbox_ready :: "dir \<Rightarrow> string list" where
  "inbox_ready d = filter (\<lambda>name. extension name = Some READY) (map fst d)"

definition inbox_claim :: "nat \<Rightarrow> nat \<Rightarrow> dir \<Rightarrow> (handoff list \<times> nat) \<times> dir" where
  "inbox_claim pid limit d = claim_each pid (take limit (inbox_ready d)) d"

definition inbox_waiting :: "dir \<Rightarrow> nat" where
  "inbox_waiting d = length (inbox_ready d)"

section \<open>Processes sharing an inbox\<close>

definition writing_file :: "string \<Rightarrow> string" where
  "writing_file n = n @ ''.writing''"

definition ready_file :: "string \<Rightarrow> string" where
  "ready_file n = n @ ''.'' @ READY"

definition claimed_file :: "nat \<Rightarrow> string \<Rightarrow> string" where
  "claimed_file pid n = n @ ''.'' @ claimed_extension pid"

text \<open>
  An inbox, and beside it the two things the processes know: what was delivered under which name, and
  who claimed what.
\<close>

record inbox_world =
  iw_dir :: dir
  iw_delivered :: "(string \<times> handoff) list"
  iw_claimed :: "(nat \<times> string \<times> handoff) list"

definition inbox_empty :: inbox_world where
  "inbox_empty = \<lparr>iw_dir = [], iw_delivered = [], iw_claimed = []\<rparr>"

text \<open>
  The steps: a sender writes some of its temporary file; it renames a whole one into place, under a
  name of its own; a claimer renames a ready file to its own name for it, when it is still there;
  and reads and removes it. Between any two of them any other process may step, or stop for good.
\<close>

inductive inbox_step :: "inbox_world \<Rightarrow> inbox_world \<Rightarrow> bool" where
  writing: "inbox_step w (w\<lparr>iw_dir := btree_insert (writing_file n) raw (iw_dir w)\<rparr>)"
| deliver: "btree_get (iw_dir w) (writing_file n) = Some (encode h) \<Longrightarrow> handoff_wf h \<Longrightarrow>
    n \<notin> fst ` set (iw_delivered w) \<Longrightarrow> rename (writing_file n) (ready_file n) (iw_dir w) = Some d \<Longrightarrow>
    inbox_step w (w\<lparr>iw_dir := d, iw_delivered := (n, h) # iw_delivered w\<rparr>)"
| claim: "rename (ready_file n) (claimed_file pid n) (iw_dir w) = Some d \<Longrightarrow>
    inbox_step w (w\<lparr>iw_dir := d\<rparr>)"
| read: "btree_get (iw_dir w) (claimed_file pid n) = Some raw \<Longrightarrow> decode raw = Some h \<Longrightarrow>
    inbox_step w (w\<lparr>iw_dir := btree_remove (claimed_file pid n) (iw_dir w),
      iw_claimed := (pid, n, h) # iw_claimed w\<rparr>)"

inductive inbox_reachable :: "inbox_world \<Rightarrow> bool" where
  start: "inbox_reachable inbox_empty"
| step: "inbox_reachable w \<Longrightarrow> inbox_step w w' \<Longrightarrow> inbox_reachable w'"

lemma rev_decimal_digits:
  "takeWhile is_digit (rev (x @ CHR ''-'' # decimal n)) = rev (decimal n)"
proof -
  have "\<forall>c \<in> set (rev (decimal n)). is_digit c"
    using list_all_is_digit_decimal [of n] by (simp add: list_all_iff)
  then have "takeWhile is_digit (rev (decimal n) @ CHR ''-'' # rev x) = rev (decimal n)"
    by (subst takeWhile_append2) (auto simp: is_digit_def)
  then show ?thesis by simp
qed

lemma decimal_inj: "decimal n = decimal m \<longleftrightarrow> n = m"
  by (metis digits_value_decimal)

lemma claimed_file_eq: "claimed_file p n = claimed_file q m \<longleftrightarrow> p = q \<and> n = m"
proof
  let ?f = "\<lambda>p n. (n @ ''.claimed'') @ CHR ''-'' # decimal p"
  have shape: "claimed_file p n = ?f p n" for p n by (simp add: claimed_file_def claimed_extension_def)
  assume eq: "claimed_file p n = claimed_file q m"
  then have "takeWhile is_digit (rev (?f p n)) = takeWhile is_digit (rev (?f q m))"
    by (simp only: shape)
  then have "p = q" by (simp only: rev_decimal_digits rev_is_rev_conv decimal_inj)
  with eq show "p = q \<and> n = m" by (simp add: claimed_file_def)
qed simp

lemma last_decimal: "is_digit (last (decimal n))"
  using list_all_is_digit_decimal [of n] last_in_set [OF decimal_not_Nil, of n]
  by (auto simp: list_all_iff)

lemma file_names [simp]:
  "writing_file n = writing_file m \<longleftrightarrow> n = m" "ready_file n = ready_file m \<longleftrightarrow> n = m"
  "writing_file n \<noteq> ready_file m" "ready_file m \<noteq> writing_file n"
  "writing_file n \<noteq> claimed_file p m" "claimed_file p m \<noteq> writing_file n"
  "ready_file n \<noteq> claimed_file p m" "claimed_file p m \<noteq> ready_file n"
proof -
  have "last (writing_file n) \<noteq> last (ready_file m)"
    by (simp add: writing_file_def ready_file_def READY_def)
  then show "writing_file n \<noteq> ready_file m" "ready_file m \<noteq> writing_file n" by auto
  have "is_digit (last (claimed_file p m))"
    using last_decimal [of p] by (simp add: claimed_file_def claimed_extension_def)
  moreover have "\<not> is_digit (last (writing_file n))" "\<not> is_digit (last (ready_file n))"
    by (simp_all add: writing_file_def ready_file_def READY_def is_digit_def)
  ultimately show "writing_file n \<noteq> claimed_file p m" "claimed_file p m \<noteq> writing_file n"
    "ready_file n \<noteq> claimed_file p m" "claimed_file p m \<noteq> ready_file n"
    by auto
qed (simp_all add: writing_file_def ready_file_def)

text \<open>
  What an inbox promises: each name goes from nowhere to ready, from ready to one process that
  claimed it, and from there to being read by that process, and never back.
\<close>

datatype whereabouts = Nowhere | ReadyAt handoff | ClaimedBy nat handoff | ReadBy nat handoff

inductive passes_on :: "(string \<Rightarrow> whereabouts) \<Rightarrow> (string \<Rightarrow> whereabouts) \<Rightarrow> bool" where
  delivered: "A n = Nowhere \<Longrightarrow> passes_on A (A(n := ReadyAt h))"
| claimed: "A n = ReadyAt h \<Longrightarrow> passes_on A (A(n := ClaimedBy p h))"
| read: "A n = ClaimedBy p h \<Longrightarrow> passes_on A (A(n := ReadBy p h))"

fun handed :: "whereabouts \<Rightarrow> handoff option" where
  "handed Nowhere = None"
| "handed (ReadyAt h) = Some h"
| "handed (ClaimedBy p h) = Some h"
| "handed (ReadBy p h) = Some h"

text \<open>A directory and its logs hold exactly the whereabouts.\<close>

definition holds :: "inbox_world \<Rightarrow> (string \<Rightarrow> whereabouts) \<Rightarrow> bool" where
  "holds w A \<longleftrightarrow>
     (\<forall>n. btree_get (iw_dir w) (ready_file n) =
        (case A n of ReadyAt h \<Rightarrow> Some (encode h) | _ \<Rightarrow> None)) \<and>
     (\<forall>p n. btree_get (iw_dir w) (claimed_file p n) =
        (case A n of ClaimedBy q h \<Rightarrow> if q = p then Some (encode h) else None | _ \<Rightarrow> None)) \<and>
     (\<forall>n h. (n, h) \<in> set (iw_delivered w) \<longleftrightarrow> handed (A n) = Some h) \<and>
     (\<forall>p n h. (p, n, h) \<in> set (iw_claimed w) \<longleftrightarrow> A n = ReadBy p h) \<and>
     distinct (map (fst \<circ> snd) (iw_claimed w)) \<and>
     (\<forall>n h. handed (A n) = Some h \<longrightarrow> handoff_wf h)"

lemma holds_empty: "holds inbox_empty (\<lambda>_. Nowhere)"
  by (simp add: holds_def inbox_empty_def btree_get_def)

lemma holds_writing:
  "holds w A \<Longrightarrow> holds (w\<lparr>iw_dir := btree_insert (writing_file n) raw (iw_dir w)\<rparr>) A"
  by (simp add: holds_def store_simps)

lemma holds_nowhere:
  assumes "holds w A" "n \<notin> fst ` set (iw_delivered w)"
  shows "A n = Nowhere"
proof (rule ccontr)
  assume "A n \<noteq> Nowhere"
  then obtain h where "handed (A n) = Some h" by (cases "A n") auto
  then have "(n, h) \<in> set (iw_delivered w)" using assms(1) unfolding holds_def by blast
  then have "n \<in> fst ` set (iw_delivered w)" by (rule image_eqI [rotated]) simp
  with assms(2) show False by contradiction
qed

lemma holds_deliver:
  assumes "holds w A" "A n = Nowhere" "handoff_wf h"
  shows "holds (w\<lparr>iw_dir := btree_insert (ready_file n) (encode h) (btree_remove (writing_file n) (iw_dir w)),
    iw_delivered := (n, h) # iw_delivered w\<rparr>) (A(n := ReadyAt h))"
  using assms by (simp add: holds_def store_simps) auto

lemma holds_wf: "holds w A \<Longrightarrow> handed (A n) = Some h \<Longrightarrow> handoff_wf h"
  unfolding holds_def by blast

lemma holds_claim:
  assumes "holds w A" "A n = ReadyAt h"
  shows "holds (w\<lparr>iw_dir := btree_insert (claimed_file p n) (encode h) (btree_remove (ready_file n) (iw_dir w))\<rparr>)
    (A(n := ClaimedBy p h))"
  using assms holds_wf [OF assms(1), of n h] by (simp add: holds_def store_simps claimed_file_eq)

lemma holds_read:
  assumes "holds w A" "A n = ClaimedBy p h"
  shows "holds (w\<lparr>iw_dir := btree_remove (claimed_file p n) (iw_dir w), iw_claimed := (p, n, h) # iw_claimed w\<rparr>)
    (A(n := ReadBy p h))"
proof -
  have "n \<notin> (fst \<circ> snd) ` set (iw_claimed w)" using assms by (force simp: holds_def)
  then show ?thesis
    using assms holds_wf [OF assms(1), of n h] by (simp add: holds_def store_simps claimed_file_eq) auto
qed

lemma inbox_simulates:
  assumes "inbox_step w w'" "holds w A"
  shows "\<exists>A'. (A' = A \<or> passes_on A A') \<and> holds w' A'"
  using assms
proof (induction rule: inbox_step.induct)
  case (writing w n raw)
  then show ?case using holds_writing by blast
next
  case (deliver w n h d)
  then have "A n = Nowhere" using holds_nowhere by blast
  moreover have d: "d = btree_insert (ready_file n) (encode h) (btree_remove (writing_file n) (iw_dir w))"
    using deliver.hyps(1,4) by (simp add: rename_def)
  ultimately show ?case
    using holds_deliver [OF deliver.prems _ deliver.hyps(2)] passes_on.delivered unfolding d by blast
next
  case (claim n pid w d)
  then obtain c where "btree_get (iw_dir w) (ready_file n) = Some c" and
    d: "d = btree_insert (claimed_file pid n) c (btree_remove (ready_file n) (iw_dir w))"
    by (auto simp: rename_Some)
  with claim.prems obtain h where "A n = ReadyAt h" "c = encode h"
    by (auto simp: holds_def split: whereabouts.splits)
  then show ?case using holds_claim [OF claim.prems, of n h pid] passes_on.claimed [of A n h pid] d by auto
next
  case (read w pid n raw h)
  then obtain h' where "A n = ClaimedBy pid h'" "raw = encode h'"
    by (auto simp: holds_def split: whereabouts.splits if_splits)
  moreover from this have "handoff_wf h'" using holds_wf [OF read.prems, of n h'] by simp
  ultimately have "A n = ClaimedBy pid h"
    using read.hyps(2) decode_header [of h' "hf_bytes h'"] by (simp add: encode_def)
  then show ?case using holds_read [OF read.prems, of n pid h] passes_on.read [of A n pid h] by auto
qed

lemma reachable_holds: "inbox_reachable w \<Longrightarrow> \<exists>A. holds w A"
  by (induction rule: inbox_reachable.induct) (use holds_empty inbox_simulates in blast)+

text \<open>C2: an inbox keeps what it is given. However its processes interleave, and wherever any of them
  stops, each handoff delivered under a name of its own is in exactly one place: ready, in the one
  file of the one process that claimed it, or read by one process, once; and what is read is what
  was delivered, whole.\<close>

theorem inbox_neither_loses_nor_duplicates:
  assumes "inbox_reachable w"
  shows "\<exists>A. (\<forall>n h. (n, h) \<in> set (iw_delivered w) \<longleftrightarrow> handed (A n) = Some h)
    \<and> (\<forall>n. btree_get (iw_dir w) (ready_file n) = (case A n of ReadyAt h \<Rightarrow> Some (encode h) | _ \<Rightarrow> None))
    \<and> (\<forall>p n. btree_get (iw_dir w) (claimed_file p n) =
         (case A n of ClaimedBy q h \<Rightarrow> if q = p then Some (encode h) else None | _ \<Rightarrow> None))
    \<and> (\<forall>p n h. (p, n, h) \<in> set (iw_claimed w) \<longleftrightarrow> A n = ReadBy p h)
    \<and> distinct (map (fst \<circ> snd) (iw_claimed w))"
  using reachable_holds [OF assms] unfolding holds_def by (elim exE) (rule exI, intro conjI, auto)

theorem inbox_neither_loses_nor_duplicates_witness:
  "\<exists>w A. inbox_reachable w \<and> (7, ''x'', example_handoff) \<in> set (iw_claimed w)
     \<and> A ''x'' = ReadBy 7 example_handoff \<and> btree_get (iw_dir w) (ready_file ''x'') = None"
proof -
  let ?w1 = "inbox_empty\<lparr>iw_dir := btree_insert (writing_file ''x'') (encode example_handoff) []\<rparr>"
  let ?d2 = "btree_insert (ready_file ''x'') (encode example_handoff)
    (btree_remove (writing_file ''x'') (iw_dir ?w1))"
  let ?w2 = "?w1\<lparr>iw_dir := ?d2, iw_delivered := [(''x'', example_handoff)]\<rparr>"
  let ?d3 = "btree_insert (claimed_file 7 ''x'') (encode example_handoff)
    (btree_remove (ready_file ''x'') ?d2)"
  let ?w3 = "?w2\<lparr>iw_dir := ?d3\<rparr>"
  let ?w4 = "?w3\<lparr>iw_dir := btree_remove (claimed_file 7 ''x'') ?d3, iw_claimed := [(7, ''x'', example_handoff)]\<rparr>"
  have "inbox_reachable ?w1"
    using inbox_reachable.step [OF inbox_reachable.start inbox_step.writing [of inbox_empty "''x''" "encode example_handoff"]]
    by (simp add: inbox_empty_def)
  moreover have "inbox_step ?w1 ?w2"
    using inbox_step.deliver [of ?w1 "''x''" example_handoff ?d2] example_handoff_wf
    by (simp add: inbox_empty_def rename_Some store_simps btree_get_def)
  moreover have "inbox_step ?w2 ?w3"
    using inbox_step.claim [of "''x''" 7 ?w2 ?d3] by (simp add: rename_Some store_simps)
  moreover have "decode (encode example_handoff) = Some example_handoff"
    using decode_header [OF example_handoff_wf, of "hf_bytes example_handoff"] by (simp add: encode_def)
  then have "inbox_step ?w3 ?w4"
    using inbox_step.read [of ?w3 7 "''x''" "encode example_handoff" example_handoff]
    by (simp add: inbox_empty_def store_simps)
  ultimately have reached: "inbox_reachable ?w4" by (meson inbox_reachable.step)
  from inbox_neither_loses_nor_duplicates [OF this] obtain A
    where A: "\<forall>p n h. (p, n, h) \<in> set (iw_claimed ?w4) \<longleftrightarrow> A n = ReadBy p h"
      and r: "\<forall>n. btree_get (iw_dir ?w4) (ready_file n) = (case A n of ReadyAt h \<Rightarrow> Some (encode h) | _ \<Rightarrow> None)"
    by blast
  then have "A ''x'' = ReadBy 7 example_handoff"
    using A [rule_format, of 7 "''x''" example_handoff] by simp
  moreover from this r have "btree_get (iw_dir ?w4) (ready_file ''x'') = None" by simp
  ultimately show ?thesis using reached by (intro exI [of _ ?w4] exI [of _ A]) simp
qed

section \<open>A claim is steps of the inbox\<close>

lemma with_extension_ready: "n \<noteq> [] \<Longrightarrow> with_extension (claimed_extension pid) (ready_file n) = claimed_file pid n"
  using extension_dot [of READY n] by (simp add: with_extension_def ready_file_def claimed_file_def READY_def)

lemma inbox_ready_files: "name \<in> set (inbox_ready d) \<Longrightarrow> \<exists>n. n \<noteq> [] \<and> name = ready_file n"
  unfolding inbox_ready_def ready_file_def by (auto elim: extension_Some)

lemma deliver_is_steps:
  assumes "handoff_wf h" "handoff_name h seq \<notin> fst ` set (iw_delivered w)"
  shows "\<exists>d w1. inbox_deliver h seq (iw_dir w) = Some d \<and> inbox_step w w1 \<and>
    inbox_step w1 (w\<lparr>iw_dir := d, iw_delivered := (handoff_name h seq, h) # iw_delivered w\<rparr>)"
proof -
  let ?n = "handoff_name h seq"
  let ?w1 = "w\<lparr>iw_dir := btree_insert (writing_file ?n) (encode h) (iw_dir w)\<rparr>"
  obtain d where d: "rename (writing_file ?n) (ready_file ?n) (iw_dir ?w1) = Some d"
    by (simp add: rename_def store_simps)
  then have "inbox_deliver h seq (iw_dir w) = Some d"
    by (simp add: inbox_deliver_def Let_def writing_file_def ready_file_def)
  moreover have "inbox_step w ?w1" by (rule inbox_step.writing)
  moreover have "inbox_step ?w1 (?w1\<lparr>iw_dir := d, iw_delivered := (?n, h) # iw_delivered ?w1\<rparr>)"
    using assms d by (intro inbox_step.deliver) (simp_all add: store_simps)
  ultimately show ?thesis by auto
qed

lemma claim_one_is_steps:
  assumes "inbox_reachable w" "n \<noteq> []" "rename (ready_file n) (claimed_file pid n) (iw_dir w) = Some d"
  shows "\<exists>h. Option.bind (btree_get d (claimed_file pid n)) decode = Some h \<and>
    inbox_reachable (w\<lparr>iw_dir := btree_remove (claimed_file pid n) d, iw_claimed := (pid, n, h) # iw_claimed w\<rparr>)"
proof -
  from reachable_holds [OF assms(1)] obtain A where A: "holds w A" ..
  from assms(3) obtain c where c: "btree_get (iw_dir w) (ready_file n) = Some c"
    and d: "d = btree_insert (claimed_file pid n) c (btree_remove (ready_file n) (iw_dir w))"
    by (auto simp: rename_Some)
  from A c obtain h where "A n = ReadyAt h" "c = encode h"
    by (auto simp: holds_def split: whereabouts.splits)
  moreover from this have "handoff_wf h" using holds_wf [OF A, of n h] by simp
  ultimately have dec: "decode c = Some h"
    using decode_header [of h "hf_bytes h"] by (simp add: encode_def)
  have at: "btree_get d (claimed_file pid n) = Some c" by (simp add: d store_simps)
  have "inbox_reachable (w\<lparr>iw_dir := d\<rparr>)"
    using assms(1,3) by (blast intro: inbox_reachable.step inbox_step.claim)
  moreover have "inbox_step (w\<lparr>iw_dir := d\<rparr>) (w\<lparr>iw_dir := btree_remove (claimed_file pid n) d,
      iw_claimed := (pid, n, h) # iw_claimed w\<rparr>)"
    using inbox_step.read [of "w\<lparr>iw_dir := d\<rparr>" pid n c h] at dec by simp
  ultimately show ?thesis using at dec inbox_reachable.step by fastforce
qed

text \<open>Claiming reads whole handoffs. In an inbox its processes share, a claim of any files takes
  those still there, loses the rest to whoever was first, and finds none unreadable; and what it
  returns is what this process is recorded as having read, in the order of the files.\<close>

theorem claim_reads_whole_handoffs:
  assumes "inbox_reachable w" and "\<forall>n \<in> set ns. n \<noteq> []"
    and "claim_each pid (map ready_file ns) (iw_dir w) = ((hs, unreadable), d)"
  shows "unreadable = 0 \<and> (\<exists>w'. inbox_reachable w' \<and> iw_dir w' = d \<and> iw_delivered w' = iw_delivered w
    \<and> (\<exists>mine. iw_claimed w' = rev mine @ iw_claimed w \<and> map (snd \<circ> snd) mine = hs \<and> set (map fst mine) \<subseteq> {pid}))"
  using assms
proof (induction ns arbitrary: w hs unreadable)
  case Nil
  then show ?case by (auto intro!: exI [of _ w])
next
  case (Cons n ns)
  show ?case
  proof (cases "rename (ready_file n) (claimed_file pid n) (iw_dir w)")
    case None
    with Cons show ?thesis by (simp add: with_extension_ready)
  next
    case (Some d1)
    from claim_one_is_steps [OF Cons.prems(1) _ Some] Cons.prems(2) obtain h
      where h: "Option.bind (btree_get d1 (claimed_file pid n)) decode = Some h"
        and w1: "inbox_reachable (w\<lparr>iw_dir := btree_remove (claimed_file pid n) d1,
          iw_claimed := (pid, n, h) # iw_claimed w\<rparr>)" (is "inbox_reachable ?w1")
      by auto
    obtain hs' u' d' where rec: "claim_each pid (map ready_file ns) (btree_remove (claimed_file pid n) d1) = ((hs', u'), d')"
      by (metis surj_pair)
    with Cons.prems(3) Some h have hs: "hs = h # hs'" "unreadable = u'" "d = d'"
      using Cons.prems(2) by (simp_all add: with_extension_ready Let_def)
    from Cons.IH [OF w1, of hs' u'] rec Cons.prems(2) obtain w' mine
      where "u' = 0" "inbox_reachable w'" "iw_dir w' = d'" "iw_delivered w' = iw_delivered w"
        "iw_claimed w' = rev mine @ (pid, n, h) # iw_claimed w" "map (snd \<circ> snd) mine = hs'"
        "set (map fst mine) \<subseteq> {pid}"
      unfolding hs by auto
    then show ?thesis
      by (intro conjI exI [of _ w'] exI [of _ "(pid, n, h) # mine"]) (simp_all add: hs o_def)
  qed
qed

theorem claim_reads_whole_handoffs_witness:
  "fst (claim_each 7 (map ready_file [''gone'']) (iw_dir inbox_empty)) = ([], 0)"
proof -
  obtain hs u d where "claim_each 7 (map ready_file [''gone'']) (iw_dir inbox_empty) = ((hs, u), d)"
    by (metis surj_pair)
  moreover from claim_reads_whole_handoffs [OF inbox_reachable.start _ this] have "u = 0" by simp
  ultimately show ?thesis by (simp add: inbox_empty_def rename_def btree_get_def Let_def)
qed

section \<open>Hops\<close>

record hop =
  hop_from :: string
  hop_from_stage :: string
  hop_to :: string
  hop_to_stage :: string
  hop_count :: nat
  hop_last :: int

type_synonym hops = "(string \<times> string, hop) btree"

definition hop_ends :: "node_api \<Rightarrow> string \<times> stage \<Rightarrow> string \<times> stage \<Rightarrow> string \<times> string" where
  "hop_ends N from to =
     (fst from @ ''/'' @ stage_name N (snd from), fst to @ ''/'' @ stage_name N (snd to))"

definition hops_record ::
    "node_api \<Rightarrow> string \<times> stage \<Rightarrow> string \<times> stage \<Rightarrow> int \<Rightarrow> hops \<Rightarrow> hops" where
  "hops_record N from to now links =
     btree_upsert (hop_ends N from to)
       \<lparr>hop_from = fst from, hop_from_stage = stage_name N (snd from), hop_to = fst to,
        hop_to_stage = stage_name N (snd to), hop_count = 0, hop_last = now\<rparr>
       (\<lambda>hop. hop\<lparr>hop_count := hop_count hop + 1, hop_last := now\<rparr>) links"

definition hops_records ::
    "hops \<Rightarrow> string \<Rightarrow> (nat \<times> nat) option \<Rightarrow> int \<Rightarrow> health_record list" where
  "hops_records links node inbox now =
     map (\<lambda>(_, hop). \<lparr>hr_scope = node @ ''/handoff/'' @ hop_to hop, hr_health = Fine, hr_severity = 0,
            hr_evidence = decimal (hop_count hop) @ '' handoffs to '' @ hop_to hop, hr_observed = now\<rparr>) links
     @ (case inbox of
          None \<Rightarrow> []
        | Some (waiting, unreadable) \<Rightarrow>
            let (h, severity) = (if unreadable > 0 then (Stressed, 50) else (Fine, 0)) in
            [\<lparr>hr_scope = node @ ''/handoff/inbox'', hr_health = h, hr_severity = severity,
              hr_evidence = decimal waiting @ '' waiting, '' @ decimal unreadable @ '' unreadable'',
              hr_observed = now\<rparr>])"

definition hop_total :: "hops \<Rightarrow> string \<times> string \<Rightarrow> nat" where
  "hop_total links ends = (case btree_get links ends of None \<Rightarrow> 0 | Some hop \<Rightarrow> hop_count hop)"

lemma hop_total_record:
  "hop_total (hops_record N a b now links) ends = hop_total links ends + (if hop_ends N a b = ends then 1 else 0)"
  by (auto simp: hop_total_def hops_record_def store_simps split: option.splits)

lemma hop_total_history:
  "hop_total (fold (\<lambda>(a, b, now). hops_record N a b now) hs links) ends =
     hop_total links ends + length (filter (\<lambda>(a, b, now). hop_ends N a b = ends) hs)"
  by (induction hs arbitrary: links) (auto simp: hop_total_record)

end
