(* ===== verification/Drop_Box.thy ===== *)
theory Drop_Box
  imports Parties Files
begin

text \<open>
  The Parties' drop box (\<open>src/drop_box.rs\<close>, \<open>src/drop_box/judged.rs\<close> and the pacing of
  \<open>src/drop_box/far_ends.rs\<close>): bursts of files dropped and recorded, each taken and signed by the
  receiving node whose claim won it, each judged and cleared once its grace has passed. The
  transports that carry a file to its far end and claim it there are other crates': what a send
  answers and what a receive hands over are parameters. The records are two directories: what was
  dropped, with when, and who signed each file; a listing is in the order of its names.
\<close>

section \<open>The protocols and their pace\<close>

definition PROTOCOLS :: "string list" where
  "PROTOCOLS = [''file'', ''ftp'', ''ftps'', ''sftp'']"

definition remote_protocol :: "string \<Rightarrow> bool" where
  "remote_protocol protocol \<longleftrightarrow> protocol \<noteq> ''file''"

definition bursts_every :: "string \<Rightarrow> nat" where
  "bursts_every protocol = (if remote_protocol protocol then 5 else 1)"

definition listed_every :: "string \<Rightarrow> nat" where
  "listed_every protocol = (if prefix ''ftp'' protocol then 2 else 1)"

definition BURST :: nat where
  "BURST = 8"

text \<open>In nanoseconds, as the times of the records.\<close>

definition GRACE :: nat where
  "GRACE = 10 * 1000000000"

section \<open>The records of the drop box\<close>

record drop_box =
  bx_dropped :: "(string \<times> string, (string, nat) btree) btree"
  bx_won :: "(string \<times> string \<times> string, string list) btree"

definition drop_box_empty :: drop_box where
  "drop_box_empty = \<lparr>bx_dropped = [], bx_won = []\<rparr>"

definition box_records :: "drop_box \<Rightarrow> string \<Rightarrow> string \<Rightarrow> (string, nat) btree" where
  "box_records B protocol party =
     (case btree_get (bx_dropped B) (protocol, party) of None \<Rightarrow> [] | Some rs \<Rightarrow> rs)"

definition signers :: "drop_box \<Rightarrow> string \<Rightarrow> string \<Rightarrow> string \<Rightarrow> string list" where
  "signers B protocol party name =
     (case btree_get (bx_won B) (protocol, party, name) of None \<Rightarrow> [] | Some who \<Rightarrow> who)"

definition record_dropped :: "string \<Rightarrow> string \<Rightarrow> string \<Rightarrow> nat \<Rightarrow> drop_box \<Rightarrow> drop_box" where
  "record_dropped protocol party name at B =
     B\<lparr>bx_dropped := btree_upsert (protocol, party) [] (btree_insert name at) (bx_dropped B)\<rparr>"

definition sign_won :: "string \<Rightarrow> string \<Rightarrow> string \<Rightarrow> string \<Rightarrow> drop_box \<Rightarrow> drop_box" where
  "sign_won protocol party name node B =
     B\<lparr>bx_won := btree_upsert (protocol, party, name) [] (\<lambda>who. List.insert node who) (bx_won B)\<rparr>"

definition clear_file :: "string \<Rightarrow> string \<Rightarrow> string \<Rightarrow> drop_box \<Rightarrow> drop_box" where
  "clear_file protocol party name B =
     B\<lparr>bx_dropped := btree_upsert (protocol, party) [] (btree_remove name) (bx_dropped B),
       bx_won := btree_remove (protocol, party, name) (bx_won B)\<rparr>"

section \<open>A burst\<close>

text \<open>The files of one Party over one protocol, each recorded before it is sent; the first that is
  not sent ends it.\<close>

fun drop_files ::
    "(string \<Rightarrow> string \<Rightarrow> string \<Rightarrow> bytes \<Rightarrow> string option) \<Rightarrow> nat \<Rightarrow> nat \<Rightarrow> string \<Rightarrow> string
       \<Rightarrow> nat list \<Rightarrow> nat \<Rightarrow> drop_box \<Rightarrow> (string + nat) \<times> drop_box" where
  "drop_files sent at round protocol party [] dropped B = (Inr dropped, B)"
| "drop_files sent at round protocol party (one # ones) dropped B =
     (let name = padded 10 round @ ''-'' @ padded 2 one @ ''.txt'';
          B = record_dropped protocol party name at B;
          body = party @ '' dropped '' @ name @ '' over '' @ protocol in
      (case sent protocol party name body of
         Some e \<Rightarrow> (Inl (protocol @ '': '' @ party @ '': '' @ name @ '': '' @ e), B)
       | None \<Rightarrow> drop_files sent at round protocol party ones (dropped + 1) B))"

text \<open>What the far ends answer: the building of a transport, which is nothing while its server has
  not said where it listens, and a send.\<close>

record far_ends =
  far_builds :: "string \<Rightarrow> string \<Rightarrow> (string + unit) option"
  far_sends :: "string \<Rightarrow> string \<Rightarrow> string \<Rightarrow> bytes \<Rightarrow> string option"

type_synonym senders = "(string \<times> string) list"

definition sender_for ::
    "far_ends \<Rightarrow> string \<Rightarrow> string \<Rightarrow> senders \<Rightarrow> string + senders" where
  "sender_for F protocol party senders =
     (if (protocol, party) \<in> set senders then Inr senders
      else (case far_builds F protocol party of
          None \<Rightarrow> Inl (protocol @ '' for '' @ party @ '': no server'')
        | Some (Inl e) \<Rightarrow> Inl e
        | Some (Inr _) \<Rightarrow> Inr ((protocol, party) # senders)))"

fun drop_parties ::
    "far_ends \<Rightarrow> nat \<Rightarrow> nat \<Rightarrow> string \<Rightarrow> string list \<Rightarrow> nat \<Rightarrow> senders \<times> drop_box
       \<Rightarrow> (string + nat) \<times> senders \<times> drop_box" where
  "drop_parties F at round protocol [] dropped (senders, B) = (Inr dropped, senders, B)"
| "drop_parties F at round protocol (party # ps) dropped (senders, B) =
     (let B = B\<lparr>bx_dropped := btree_upsert (protocol, party) [] id (bx_dropped B)\<rparr> in
      case sender_for F protocol party senders of
        Inl e \<Rightarrow> (Inl e, senders, B)
      | Inr senders \<Rightarrow>
          (case drop_files (far_sends F) at round protocol party [0..<BURST] dropped B of
             (Inl e, B) \<Rightarrow> (Inl e, senders, B)
           | (Inr dropped, B) \<Rightarrow> drop_parties F at round protocol ps dropped (senders, B)))"

fun drop_protocols ::
    "far_ends \<Rightarrow> nat \<Rightarrow> nat \<Rightarrow> string list \<Rightarrow> string list \<Rightarrow> nat \<Rightarrow> senders \<times> drop_box
       \<Rightarrow> (string + nat) \<times> senders \<times> drop_box" where
  "drop_protocols F at round names [] dropped W = (Inr dropped, W)"
| "drop_protocols F at round names (protocol # rest) dropped W =
     (if (round - 1) mod bursts_every protocol \<noteq> 0 then drop_protocols F at round names rest dropped W
      else (case drop_parties F at round protocol names dropped W of
          (Inl e, W) \<Rightarrow> (Inl e, W)
        | (Inr dropped, W) \<Rightarrow> drop_protocols F at round names rest dropped W))"

definition drop_burst ::
    "far_ends \<Rightarrow> nat \<Rightarrow> parties \<Rightarrow> nat \<Rightarrow> senders \<times> drop_box \<Rightarrow> (string + nat) \<times> senders \<times> drop_box" where
  "drop_burst F at ps round W = drop_protocols F at round (party_names ps) PROTOCOLS 0 W"

section \<open>Taking\<close>

text \<open>One Stream a claim handed over: where it came from, whether its body could be read, and whether
  the acknowledgement of a verdict, accepted or failed, was taken.\<close>

record claimed_stream =
  cs_origin :: string
  cs_read :: bool
  cs_acknowledges :: "bool \<Rightarrow> bool"

record location =
  lc_protocol :: string
  lc_party :: string
  lc_built :: bool
  lc_taken :: nat

record taker =
  tk_name :: string
  tk_locations :: "location list"
  tk_round :: nat

definition taker_new :: "string \<Rightarrow> parties \<Rightarrow> taker" where
  "taker_new name ps =
     \<lparr>tk_name = name,
      tk_locations = concat (map (\<lambda>protocol. map (\<lambda>party.
        \<lparr>lc_protocol = protocol, lc_party = party, lc_built = False, lc_taken = 0\<rparr>) (party_names ps)) PROTOCOLS),
      tk_round = 0\<rparr>"

definition file_of_origin :: "string \<Rightarrow> string" where
  "file_of_origin origin = last (split_on (CHR ''/'') (hd (split_on (CHR ''?'') origin)))"

definition take_stream :: "string \<Rightarrow> claimed_stream \<Rightarrow> location \<times> drop_box \<Rightarrow> location \<times> drop_box" where
  "take_stream name s = (\<lambda>(l, B).
     if cs_acknowledges s (cs_read s) \<and> cs_read s
     then (l\<lparr>lc_taken := lc_taken l + 1\<rparr>,
           sign_won (lc_protocol l) (lc_party l) (file_of_origin (cs_origin s)) name B)
     else (l, B))"

text \<open>What the claims of a node are answered now: whether a transport can be built, and what its
  receive hands over, nothing where it fails.\<close>

record claims =
  cl_builds :: "string \<Rightarrow> string \<Rightarrow> bool"
  cl_receives :: "string \<Rightarrow> string \<Rightarrow> claimed_stream list option"

definition take_from :: "claims \<Rightarrow> string \<Rightarrow> location \<times> drop_box \<Rightarrow> location \<times> drop_box" where
  "take_from A name = (\<lambda>(l, B).
     let l = (if lc_built l then l else l\<lparr>lc_built := cl_builds A (lc_protocol l) (lc_party l)\<rparr>) in
     if \<not> lc_built l then (l, B)
     else (case cl_receives A (lc_protocol l) (lc_party l) of
         None \<Rightarrow> (l, B)
       | Some arrived \<Rightarrow> fold (take_stream name) arrived (l, B)))"

fun take_locations ::
    "claims \<Rightarrow> string \<Rightarrow> nat \<Rightarrow> location list \<Rightarrow> drop_box \<Rightarrow> location list \<times> drop_box" where
  "take_locations A name round [] B = ([], B)"
| "take_locations A name round (l # ls) B =
     (let (l, B) = (if round mod listed_every (lc_protocol l) = 0 then take_from A name (l, B) else (l, B));
          (ls, B) = take_locations A name round ls B in (l # ls, B))"

definition location_count :: "string \<Rightarrow> int \<Rightarrow> location \<Rightarrow> recording" where
  "location_count node now l = RecordCount
     \<lparr>cr_scope = node @ ''/drop-box/'' @ lc_protocol l @ ''/'' @ lc_party l, cr_counted = Counted_Streams,
      cr_value = lc_taken l, cr_observed = now\<rparr>"

definition taker_take ::
    "claims \<Rightarrow> string \<Rightarrow> int \<Rightarrow> taker \<Rightarrow> snapshot \<Rightarrow> drop_box \<Rightarrow> (taker \<times> snapshot) \<times> drop_box" where
  "taker_take A node now T snap B =
     (let round = tk_round T + 1;
          (ls, B) = take_locations A (tk_name T) round (tk_locations T) B in
      ((T\<lparr>tk_round := round, tk_locations := ls\<rparr>, snap @ map (location_count node now) ls), B))"

section \<open>The judgment\<close>

definition NAMED :: nat where
  "NAMED = 8"

record judged =
  jd_files :: nat
  jd_by_node :: "(string, nat) btree"
  jd_twice :: "(string \<times> string list) list"
  jd_never :: "string list"

definition judged_default :: judged where
  "judged_default = \<lparr>jd_files = 0, jd_by_node = [], jd_twice = [], jd_never = []\<rparr>"

definition due :: "nat \<Rightarrow> nat \<Rightarrow> bool" where
  "due now at \<longleftrightarrow> at \<le> now \<and> GRACE \<le> now - at"

definition judge_winners :: "string \<Rightarrow> string list \<Rightarrow> judged \<Rightarrow> judged" where
  "judge_winners named winners J =
     (let J = J\<lparr>jd_files := jd_files J + 1\<rparr> in
      case winners of
        [] \<Rightarrow> J\<lparr>jd_never := jd_never J @ [named]\<rparr>
      | [one] \<Rightarrow> J\<lparr>jd_by_node := btree_upsert one 0 (\<lambda>n. n + 1) (jd_by_node J)\<rparr>
      | _ \<Rightarrow> J\<lparr>jd_twice := jd_twice J @ [(named, winners)]\<rparr>)"

definition judge_record :: "string \<Rightarrow> string \<Rightarrow> nat \<Rightarrow> string \<times> nat \<Rightarrow> judged \<times> drop_box \<Rightarrow> judged \<times> drop_box" where
  "judge_record protocol party now = (\<lambda>(name, at) (J, B).
     if \<not> due now at then (J, B)
     else (judge_winners (party @ ''/'' @ name) (sort (signers B protocol party name)) J,
           clear_file protocol party name B))"

definition judge_party :: "string \<Rightarrow> nat \<Rightarrow> string \<Rightarrow> judged \<times> drop_box \<Rightarrow> judged \<times> drop_box" where
  "judge_party protocol now party = (\<lambda>(J, B).
     fold (judge_record protocol party now) (box_records B protocol party) (J, B))"

definition judged_judge ::
    "string \<Rightarrow> parties \<Rightarrow> nat \<Rightarrow> judged \<times> drop_box \<Rightarrow> judged \<times> drop_box" where
  "judged_judge protocol ps now = fold (judge_party protocol now) (party_names ps)"

definition judged_held :: "judged \<Rightarrow> bool" where
  "judged_held J \<longleftrightarrow> jd_twice J = [] \<and> jd_never J = []"

definition listed :: "string list \<Rightarrow> string" where
  "listed names =
     (let shown = join '', '' (take NAMED names); more = length names - NAMED in
      if more = 0 then shown else shown @ '' and '' @ decimal more @ '' more'')"

definition judged_words :: "judged \<Rightarrow> string" where
  "judged_words J =
     (let split = map (\<lambda>(node, n). node @ '' '' @ decimal n) (jd_by_node J);
          split = (if split = [] then ''none yet'' else join '', '' split) in
      if judged_held J
      then ''every file taken by exactly one receiving node: '' @ decimal (jd_files J) @ '' files, '' @ split
      else
        (let said = (if jd_twice J \<noteq> []
                     then [decimal (length (jd_twice J)) @ '' taken twice: '' @
                       listed (map (\<lambda>(name, by). name @ '' by '' @ join '' and '' by) (jd_twice J))]
                     else [])
                  @ (if jd_never J \<noteq> []
                     then [decimal (length (jd_never J)) @ '' never taken: '' @ listed (jd_never J)]
                     else []) in
         join ''; '' said @ '' of '' @ decimal (jd_files J) @ '' files; once each: '' @ split))"

definition judged_record :: "string \<Rightarrow> string \<Rightarrow> int \<Rightarrow> judged \<Rightarrow> health_record" where
  "judged_record root protocol now J =
     \<lparr>hr_scope = root @ ''/drop-box/'' @ protocol, hr_health = (if judged_held J then Fine else Done),
      hr_severity = (if judged_held J then 0 else 80), hr_evidence = judged_words J, hr_observed = now\<rparr>"

section \<open>The roll's round\<close>

record dropping =
  dp_far_ends :: "string option"
  dp_senders :: senders
  dp_judged :: "(string, judged) btree"
  dp_round :: nat

text \<open>\<open>why\<close> is why the far ends did not start, where they did not.\<close>

definition dropping_new :: "string option \<Rightarrow> dropping" where
  "dropping_new why =
     \<lparr>dp_far_ends = why, dp_senders = [], dp_judged = map (\<lambda>one. (one, judged_default)) PROTOCOLS,
      dp_round = 0\<rparr>"

fun judge_protocols ::
    "string \<Rightarrow> parties \<Rightarrow> nat \<Rightarrow> int \<Rightarrow> string + nat \<Rightarrow> (string, judged) btree \<Rightarrow> drop_box
       \<Rightarrow> ((string, judged) btree \<times> snapshot) \<times> drop_box" where
  "judge_protocols root ps at now dropped [] B = (([], []), B)"
| "judge_protocols root ps at now dropped ((protocol, J) # Js) B =
     (let (J, B) = judged_judge protocol ps at (J, B);
          R = judged_record root protocol now J;
          R = (case dropped of
              Inl why \<Rightarrow> R\<lparr>hr_health := Done,
                hr_evidence := ''a burst was not dropped: '' @ why @ ''; '' @ hr_evidence R\<rparr>
            | Inr _ \<Rightarrow> R);
          ((Js, snap), B) = judge_protocols root ps at now dropped Js B in
      (((protocol, J) # Js, RecordHealth R # snap), B))"

definition dropping_round ::
    "far_ends \<Rightarrow> string \<Rightarrow> parties \<Rightarrow> nat \<Rightarrow> int \<Rightarrow> dropping \<times> drop_box \<Rightarrow> (dropping \<times> snapshot) \<times> drop_box" where
  "dropping_round F root ps at now = (\<lambda>(D, B).
     let round = dp_round D + 1;
         (dropped, senders, B) = (case dp_far_ends D of
             None \<Rightarrow> drop_burst F at ps round (dp_senders D, B)
           | Some why \<Rightarrow> (Inl (''the drop box's servers did not start: '' @ why), dp_senders D, B));
         ((Js, snap), B) = judge_protocols root ps at now dropped (dp_judged D) B in
     ((D\<lparr>dp_round := round, dp_senders := senders, dp_judged := Js\<rparr>, snap), B))"

definition dropping_words :: "dropping \<Rightarrow> string" where
  "dropping_words D = join ''; '' (map (\<lambda>(protocol, J). protocol @ '': '' @ judged_words J) (dp_judged D))"

section \<open>What judging does to the records\<close>

lemma records_clear:
  "box_records (clear_file p a n B) q b =
     (if q = p \<and> b = a then filter (\<lambda>(m, _). m \<noteq> n) (box_records B p a) else box_records B q b)"
  by (auto simp: box_records_def clear_file_def store_simps btree_remove_def case_prod_beta split: option.splits)

lemma signers_clear:
  "signers (clear_file p a n B) q b m = (if q = p \<and> b = a \<and> m = n then [] else signers B q b m)"
  by (auto simp: signers_def clear_file_def store_simps)

lemma signers_fold_clear:
  "signers (fold (clear_file p a) ns B) q b m = (if q = p \<and> b = a \<and> m \<in> set ns then [] else signers B q b m)"
  by (induction ns arbitrary: B) (auto simp: signers_clear)

lemma records_fold_clear:
  "box_records (fold (clear_file p a) ns B) q b =
     (if q = p \<and> b = a then filter (\<lambda>(m, _). m \<notin> set ns) (box_records B p a) else box_records B q b)"
  by (induction ns arbitrary: B) (auto simp: records_clear case_prod_beta intro: filter_cong)

text \<open>The files of a Party that are due, and what is made of one of them.\<close>

definition due_of :: "nat \<Rightarrow> drop_box \<Rightarrow> string \<Rightarrow> string \<Rightarrow> string list" where
  "due_of now B protocol party = map fst (filter (\<lambda>(_, at). due now at) (box_records B protocol party))"

definition due_files :: "string \<Rightarrow> parties \<Rightarrow> nat \<Rightarrow> drop_box \<Rightarrow> (string \<times> string) list" where
  "due_files protocol ps now B =
     concat (map (\<lambda>party. map (Pair party) (due_of now B protocol party)) (party_names ps))"

definition judge_file :: "string \<Rightarrow> drop_box \<Rightarrow> string \<times> string \<Rightarrow> judged \<Rightarrow> judged" where
  "judge_file protocol B = (\<lambda>(party, name).
     judge_winners (party @ ''/'' @ name) (sort (signers B protocol party name)))"

lemma judge_records:
  "distinct (map fst rs) \<Longrightarrow> fold (judge_record p a now) rs (J, B) =
     (let ns = map fst (filter (\<lambda>(_, at). due now at) rs) in
      (fold (judge_file p B) (map (Pair a) ns) J, fold (clear_file p a) ns B))"
proof (induction rs arbitrary: J B)
  case (Cons r rs)
  obtain n at where r: "r = (n, at)" by fastforce
  have same: "fold (judge_file p (clear_file p a n B)) (map (Pair a) ms) J' = fold (judge_file p B) (map (Pair a) ms) J'"
    if "n \<notin> set ms" for ms J'
    using that by (intro fold_cong) (auto simp: judge_file_def signers_clear)
  have "n \<notin> set (map fst (filter (\<lambda>(_, at). due now at) rs))"
    using Cons.prems by (auto simp: r)
  note same = same [OF this]
  show ?case
    using Cons.IH Cons.prems same by (simp add: r judge_record_def judge_file_def Let_def)
qed simp

lemma judge_party_result:
  assumes "distinct (map fst (box_records B p a))"
  shows "judge_party p now a (J, B) =
    (fold (judge_file p B) (map (Pair a) (due_of now B p a)) J, fold (clear_file p a) (due_of now B p a) B)"
  using judge_records [OF assms] by (simp add: judge_party_def due_of_def Let_def)

lemma due_of_clear: "a \<noteq> b \<Longrightarrow> due_of now (fold (clear_file p a) ns B) p b = due_of now B p b"
  by (simp add: due_of_def records_fold_clear)

lemma judge_parties:
  assumes "distinct as" and "\<And>a. distinct (map fst (box_records B p a))"
  shows "fold (judge_party p now) as (J, B) =
    (fold (judge_file p B) (concat (map (\<lambda>a. map (Pair a) (due_of now B p a)) as)) J,
     fold (\<lambda>a. fold (clear_file p a) (due_of now B p a)) as B)"
  using assms
proof (induction as arbitrary: J B)
  case (Cons a as)
  let ?B = "fold (clear_file p a) (due_of now B p a) B"
  have others: "due_of now ?B p b = due_of now B p b" if "b \<in> set as" for b
    using that Cons.prems(1) by (intro due_of_clear) auto
  have files: "concat (map (\<lambda>b. map (Pair b) (due_of now ?B p b)) as) =
      concat (map (\<lambda>b. map (Pair b) (due_of now B p b)) as)" (is "?l = ?r")
    using others by (intro arg_cong [of _ _ concat] map_cong) simp_all
  have "fold (judge_file p ?B) ?r J' = fold (judge_file p B) ?r J'" for J'
    using Cons.prems(1) by (intro fold_cong) (auto simp: judge_file_def signers_fold_clear)
  moreover have "fold (\<lambda>b. fold (clear_file p b) (due_of now ?B p b)) as B' =
      fold (\<lambda>b. fold (clear_file p b) (due_of now B p b)) as B'" for B'
    using others by (intro fold_cong) simp_all
  moreover have "distinct (map fst (box_records ?B p b))" for b
    using Cons.prems(2) by (simp add: records_fold_clear case_prod_beta distinct_map_filter)
  ultimately show ?case
    using Cons.IH [of ?B] Cons.prems files judge_party_result [OF Cons.prems(2)] by simp
qed simp

lemma records_cleared:
  "box_records (fold (\<lambda>a. fold (clear_file p a) (ns a)) as B) p b =
     filter (\<lambda>(m, _). \<not> (b \<in> set as \<and> m \<in> set (ns b))) (box_records B p b)"
  by (induction as arbitrary: B) (auto simp: records_fold_clear case_prod_beta intro!: filter_cong)

lemma signers_cleared:
  "signers (fold (\<lambda>a. fold (clear_file p a) (ns a)) as B) p b m =
     (if b \<in> set as \<and> m \<in> set (ns b) then [] else signers B p b m)"
  by (induction as arbitrary: B) (auto simp: signers_fold_clear)

text \<open>C29: every dropped file is judged once, when it is due, by who had signed it then. Judging is
  one pass over the files due, in the order of the Parties; each is cleared with its signatures, so
  judging again finds nothing due; and a file not yet due keeps its record and its signatures.\<close>

theorem every_due_file_is_judged_once:
  assumes "distinct (party_names ps)" and "\<forall>a. distinct (map fst (box_records B p a))"
    and "judged_judge p ps now (J, B) = (J', B')"
  shows "J' = fold (judge_file p B) (due_files p ps now B) J
    \<and> (\<forall>(a, m) \<in> set (due_files p ps now B). signers B' p a m = [])
    \<and> due_files p ps now B' = []
    \<and> (\<forall>a m at. (m, at) \<in> set (box_records B p a) \<and> \<not> due now at \<longrightarrow>
         (m, at) \<in> set (box_records B' p a) \<and> signers B' p a m = signers B p a m)"
proof -
  let ?clear = "fold (\<lambda>a. fold (clear_file p a) (due_of now B p a)) (party_names ps) B"
  have result: "J' = fold (judge_file p B) (due_files p ps now B) J" "B' = ?clear"
    using judge_parties [of "party_names ps" B p now J] assms
    by (simp_all add: judged_judge_def due_files_def)
  have mine: "(m, at) \<in> set (box_records B p a) \<Longrightarrow> m \<in> set (due_of now B p a) \<Longrightarrow> due now at" for a m at
    using assms(2) unfolding due_of_def by (clarsimp) (metis eq_key_imp_eq_value)
  have "due_of now B' p a = []" if "a \<in> set (party_names ps)" for a
    using that by (force simp: due_of_def result(2) records_cleared filter_empty_conv)
  then have "due_files p ps now B' = []" by (simp add: due_files_def)
  moreover have "\<forall>(a, m) \<in> set (due_files p ps now B). signers B' p a m = []"
    by (auto simp: due_files_def result(2) signers_cleared)
  ultimately show ?thesis
    using result(1) mine by (auto simp: result(2) records_cleared signers_cleared)
qed

text \<open>A burst dropped and taken: one Party, one file signed and due, one not yet due.\<close>

definition example_party :: party_configuration where
  "example_party = \<lparr>pc_id = Some ''id'', pc_name = ''ann'', pc_identities = []\<rparr>"

definition example_box :: drop_box where
  "example_box = sign_won ''ftp'' ''ann'' ''x.txt'' ''r1''
     (record_dropped ''ftp'' ''ann'' ''y.txt'' 5 (record_dropped ''ftp'' ''ann'' ''x.txt'' 0 drop_box_empty))"

lemma example_records:
  "box_records example_box ''ftp'' ''ann'' = [(''x.txt'', 0), (''y.txt'', 5)]"
  "a \<noteq> ''ann'' \<Longrightarrow> box_records example_box ''ftp'' a = []"
  by (auto simp: example_box_def box_records_def sign_won_def record_dropped_def drop_box_empty_def store_simps)

theorem every_due_file_is_judged_once_witness:
  "\<exists>J B. judged_judge ''ftp'' [example_party] GRACE (judged_default, example_box) = (J, B)
     \<and> jd_by_node J = [(''r1'', 1)] \<and> due_files ''ftp'' [example_party] GRACE B = []"
proof -
  obtain J B where run: "judged_judge ''ftp'' [example_party] GRACE (judged_default, example_box) = (J, B)"
    by fastforce
  have "distinct (map fst (box_records example_box ''ftp'' a))" for a
    by (cases "a = ''ann''") (simp_all add: example_records)
  then have "\<forall>a. distinct (map fst (box_records example_box ''ftp'' a))" by blast
  from every_due_file_is_judged_once [OF _ this run] have
    "J = fold (judge_file ''ftp'' example_box) (due_files ''ftp'' [example_party] GRACE example_box) judged_default"
    and "due_files ''ftp'' [example_party] GRACE B = []"
    by (simp_all add: party_names_def)
  moreover have "due_files ''ftp'' [example_party] GRACE example_box = [(''ann'', ''x.txt'')]"
    by (simp add: due_files_def due_of_def party_names_def example_party_def example_records due_def GRACE_def)
  moreover have "signers example_box ''ftp'' ''ann'' ''x.txt'' = [''r1'']"
    by (simp add: example_box_def signers_def sign_won_def record_dropped_def drop_box_empty_def store_simps
        btree_upsert_def btree_get_def)
  ultimately show ?thesis
    using run by (intro exI [of _ J] exI [of _ B])
      (simp add: judge_file_def judge_winners_def judged_default_def btree_upsert_def btree_get_def)
qed

section \<open>A run of the drop box\<close>

text \<open>The operations the roll and the nodes do on the shared records, in the order they land.\<close>

datatype box_op =
    Dropped string string string nat
  | Signed string string string string
  | Judging string parties nat

fun box_apply :: "box_op \<Rightarrow> (string \<Rightarrow> judged) \<times> drop_box \<Rightarrow> (string \<Rightarrow> judged) \<times> drop_box" where
  "box_apply (Dropped p a n at) (Js, B) = (Js, record_dropped p a n at B)"
| "box_apply (Signed p a n node) (Js, B) = (Js, sign_won p a n node B)"
| "box_apply (Judging p ps now) (Js, B) =
     (let (J, B) = judged_judge p ps now (Js p, B) in (Js(p := J), B))"

definition box_run :: "box_op list \<Rightarrow> (string \<Rightarrow> judged) \<times> drop_box" where
  "box_run ops = fold box_apply ops (\<lambda>_. judged_default, drop_box_empty)"

text \<open>The claims are exclusive: no file is handed to two nodes.\<close>

definition exclusive_claims :: "box_op list \<Rightarrow> bool" where
  "exclusive_claims ops \<longleftrightarrow>
     (\<forall>p a n x y. Signed p a n x \<in> set ops \<longrightarrow> Signed p a n y \<in> set ops \<longrightarrow> x = y)"

definition accounted :: "judged \<Rightarrow> bool" where
  "accounted J \<longleftrightarrow> jd_files J = sum_list (map snd (jd_by_node J)) + length (jd_twice J) + length (jd_never J)"

lemma sum_btree_count:
  "btree_wf m \<Longrightarrow> sum_list (map snd (btree_upsert k 0 Suc m)) = Suc (sum_list (map snd m))"
  using sum_btree_upsert [of m "\<lambda>n. n" 0 Suc k] by simp

lemma winners_accounted:
  "accounted J \<and> btree_wf (jd_by_node J) \<Longrightarrow>
     accounted (judge_winners named who J) \<and> btree_wf (jd_by_node (judge_winners named who J))"
  by (auto simp: accounted_def judge_winners_def Let_def sum_btree_count btree_wf_upsert split: list.splits)

text \<open>What a run keeps: who signed a file did sign it, each node once, and the judgments add up.\<close>

definition box_sound :: "box_op list \<Rightarrow> (string \<Rightarrow> judged) \<times> drop_box \<Rightarrow> bool" where
  "box_sound ops = (\<lambda>(Js, B).
     (\<forall>p a n. distinct (signers B p a n) \<and> (\<forall>x \<in> set (signers B p a n). Signed p a n x \<in> set ops))
     \<and> (\<forall>p. accounted (Js p) \<and> btree_wf (jd_by_node (Js p)))
     \<and> (\<forall>p. \<forall>(named, who) \<in> set (jd_twice (Js p)). distinct who \<and> 2 \<le> length who
          \<and> (\<exists>a n. named = a @ ''/'' @ n \<and> (\<forall>x \<in> set who. Signed p a n x \<in> set ops))))"

lemma box_sound_record:
  assumes "box_sound ops (Js, B)" "judge_record p a now r (Js p, B) = (J, B')"
  shows "box_sound ops (Js(p := J), B')"
proof (cases "due now (snd r)")
  case False
  then have "J = Js p" "B' = B" using assms(2) by (simp_all add: judge_record_def case_prod_beta)
  then show ?thesis using assms(1) by simp
next
  case True
  obtain n at where r: "r = (n, at)" by fastforce
  have J: "J = judge_winners (a @ ''/'' @ n) (sort (signers B p a n)) (Js p)" and B': "B' = clear_file p a n B"
    using assms(2) True by (simp_all add: judge_record_def r)
  have twice: "jd_twice J = jd_twice (Js p) \<or> 2 \<le> length (signers B p a n)
      \<and> jd_twice J = jd_twice (Js p) @ [(a @ ''/'' @ n, sort (signers B p a n))]"
    unfolding J judge_winners_def Let_def
    by (cases "sort (signers B p a n)" rule: remdups_adj.cases) (auto dest: arg_cong [of _ _ length])
  have "accounted J \<and> btree_wf (jd_by_node J)"
    unfolding J by (rule winners_accounted) (use assms(1) in \<open>simp add: box_sound_def\<close>)
  moreover have "\<forall>q b m. distinct (signers B' q b m) \<and> (\<forall>x \<in> set (signers B' q b m). Signed q b m x \<in> set ops)"
    using assms(1) by (auto simp: box_sound_def B' signers_clear)
  moreover have "\<forall>(named, who) \<in> set (jd_twice J). distinct who \<and> 2 \<le> length who
      \<and> (\<exists>a n. named = a @ ''/'' @ n \<and> (\<forall>x \<in> set who. Signed p a n x \<in> set ops))"
    using assms(1) twice unfolding box_sound_def by (auto split: prod.splits) blast+
  ultimately show ?thesis using assms(1) by (auto simp: box_sound_def)
qed

lemma box_sound_records:
  "box_sound ops (Js, B) \<Longrightarrow> fold (judge_record p a now) rs (Js p, B) = (J, B') \<Longrightarrow> box_sound ops (Js(p := J), B')"
proof (induction rs arbitrary: Js B)
  case (Cons r rs)
  obtain J1 B1 where one: "judge_record p a now r (Js p, B) = (J1, B1)" by fastforce
  from box_sound_record [OF Cons.prems(1) one] have "box_sound ops (Js(p := J1), B1)" .
  from Cons.IH [OF this] Cons.prems(2) one show ?case by (simp del: fun_upd_apply add: fun_upd_same)
qed auto

lemma box_sound_judge:
  "box_sound ops (Js, B) \<Longrightarrow> fold (judge_party p now) as (Js p, B) = (J, B') \<Longrightarrow> box_sound ops (Js(p := J), B')"
proof (induction as arbitrary: Js B)
  case (Cons a as)
  obtain J1 B1 where one: "judge_party p now a (Js p, B) = (J1, B1)" by fastforce
  from box_sound_records [OF Cons.prems(1)] one have "box_sound ops (Js(p := J1), B1)"
    by (simp add: judge_party_def)
  from Cons.IH [OF this] Cons.prems(2) one show ?case by (simp del: fun_upd_apply add: fun_upd_same)
qed auto

lemma box_sound_more:
  assumes "box_sound ops W" "set ops \<subseteq> set ops'"
  shows "box_sound ops' W"
proof -
  obtain Js B where W: "W = (Js, B)" by fastforce
  have "\<exists>a n. named = a @ ''/'' @ n \<and> (\<forall>x \<in> set who. Signed p a n x \<in> set ops')"
    if "\<exists>a n. named = a @ ''/'' @ n \<and> (\<forall>x \<in> set who. Signed p a n x \<in> set ops)" for named who p
    using that assms(2) by blast
  with assms show ?thesis unfolding box_sound_def W by fastforce
qed

lemma box_sound_apply:
  assumes "box_sound ops W" "op \<in> set ops"
  shows "box_sound ops (box_apply op W)"
proof -
  obtain Js B where W: "W = (Js, B)" by fastforce
  show ?thesis
  proof (cases op)
    case (Dropped p a n at)
    then show ?thesis using assms by (simp add: W box_sound_def signers_def record_dropped_def)
  next
    case (Signed p a n node)
    have "signers (sign_won p a n node B) q b m =
        (if q = p \<and> b = a \<and> m = n then List.insert node (signers B p a n) else signers B q b m)" for q b m
      by (auto simp: signers_def sign_won_def store_simps split: option.splits)
    then show ?thesis using assms by (auto simp: W Signed box_sound_def)
  next
    case (Judging p ps now)
    obtain J B' where "judged_judge p ps now (Js p, B) = (J, B')" by fastforce
    then show ?thesis
      using box_sound_judge [of ops Js B p now "party_names ps" J B'] assms by (simp add: W Judging judged_judge_def)
  qed
qed

lemma box_run_sound: "box_sound ops (box_run ops)"
proof (induction ops rule: rev_induct)
  case Nil
  show ?case
    by (simp add: box_run_def box_sound_def judged_default_def accounted_def signers_def drop_box_empty_def store_simps)
next
  case (snoc op ops)
  have "box_sound (ops @ [op]) (box_run ops)" by (rule box_sound_more [OF snoc]) auto
  from box_sound_apply [OF this, of op] show ?case by (simp add: box_run_def)
qed

text \<open>Only one receiving node wins, and the board says so. However drops, signatures and
  judgments interleave, where the claims are exclusive no judgment names a file taken twice; every
  file judged is accounted for, taken once or never; and the record is red exactly when a file was
  judged that nobody had signed.\<close>

theorem exclusive_claims_are_judged_held:
  assumes "exclusive_claims ops"
  shows "jd_twice (fst (box_run ops) p) = []
    \<and> jd_files (fst (box_run ops) p) =
        sum_list (map snd (jd_by_node (fst (box_run ops) p))) + length (jd_never (fst (box_run ops) p))
    \<and> (hr_health (judged_record root p now (fst (box_run ops) p)) = Done
        \<longleftrightarrow> jd_never (fst (box_run ops) p) \<noteq> [])"
proof -
  let ?J = "fst (box_run ops) p"
  have sound: "box_sound ops (fst (box_run ops), snd (box_run ops))" by (simp add: box_run_sound)
  have twice: "jd_twice ?J = []"
  proof (rule ccontr)
    assume "jd_twice ?J \<noteq> []"
    then obtain named who where "(named, who) \<in> set (jd_twice ?J)" by (cases "jd_twice ?J") auto
    with sound obtain a n where who: "distinct who" "2 \<le> length who" "\<forall>x \<in> set who. Signed p a n x \<in> set ops"
      unfolding box_sound_def by fastforce
    then obtain x y where "x \<in> set who" "y \<in> set who" "x \<noteq> y"
      by (cases who rule: remdups_adj.cases) auto
    then show False using who(3) assms unfolding exclusive_claims_def by blast
  qed
  moreover have "accounted ?J" using sound unfolding box_sound_def by blast
  ultimately show ?thesis by (simp add: accounted_def judged_record_def judged_held_def)
qed

theorem exclusive_claims_are_judged_held_witness:
  "jd_twice (fst (box_run [Dropped ''ftp'' ''ann'' ''x.txt'' 0, Signed ''ftp'' ''ann'' ''x.txt'' ''r1'',
     Judging ''ftp'' [example_party] GRACE]) ''ftp'') = []"
  by (rule exclusive_claims_are_judged_held [THEN conjunct1]) (simp add: exclusive_claims_def)

end
