(* ===== verification/Relay.thy ===== *)
theory Relay
  imports Schedule Handoff Drop_Box
begin

text \<open>
  The relay (\<open>src/relay.rs\<close>, \<open>src/relay/judging.rs\<close>): one stage of the message path run by one node
  process. A receiving node takes its share of the matrix, a processing or sending node what is in
  its inbox; what a stage delivers it hands on to a node that declared the next, and each verdict is
  folded into the node's ledger. The inboxes of every node are one shared world; a node's
  Subscriptions, which rest on the runtime of other crates, are a parameter with a state of their
  own.
\<close>

section \<open>What a relay is given and shares\<close>

text \<open>The operations of \<open>Subscribing\<close> the relay calls.\<close>

record ('sub, 'picked) subscriptions =
  sb_route :: "handoff \<Rightarrow> 'sub \<Rightarrow> (string + bool) \<times> 'sub"
  sb_released :: "'sub \<Rightarrow> 'picked list \<times> 'sub"
  sb_handoff :: "'picked \<Rightarrow> handoff"
  sb_done :: "'picked \<Rightarrow> string + unit \<Rightarrow> 'sub \<Rightarrow> 'sub"

text \<open>
  What surrounds a relay: the other crates, the machine's identifier of its process, what its
  subscriptions do, why the disk refuses a file put into an inbox, where it does, with what it says of a
  file to be renamed that is not there, and what the claims of its drop box are answered.
\<close>

record ('id, 'facts, 'cap, 'sub, 'picked) surroundings =
  su_estate :: "('id, 'facts) estate"
  su_capability :: "'cap capability_api"
  su_pid :: nat
  su_subscriptions :: "('sub, 'picked) subscriptions"
  su_disk_refuses :: "string \<times> stage \<Rightarrow> handoff \<Rightarrow> string option"
  su_not_there :: string
  su_claims :: claims

record 'sub shared_world =
  wd_inboxes :: "string \<times> stage \<Rightarrow> dir"
  wd_subscriptions :: 'sub
  wd_drop_box :: drop_box

record judged_pair =
  jp_verdicts :: "verdict list"
  jp_forward :: "handoff option"

record 'cap relay =
  rl_name :: string
  rl_stage :: stage
  rl_roster :: "'cap roster"
  rl_transports :: "adapter list"
  rl_faults :: fault_plan
  rl_identity_faults :: bool
  rl_spread :: spread
  rl_rotation :: "spread option"
  rl_taker :: "taker option"
  rl_ledger :: ledger
  rl_hops :: hops
  rl_round :: nat
  rl_cursor :: nat
  rl_per_round :: nat
  rl_workers :: nat
  rl_sequence :: nat
  rl_unreadable :: nat
  rl_subscribing :: bool

section \<open>A relay and its settings\<close>

definition relay_new ::
    "('id, 'facts, 'cap, 'sub, 'picked) surroundings \<Rightarrow> string \<Rightarrow> string \<Rightarrow> stage \<Rightarrow> 'cap roster
       \<Rightarrow> adapter list \<Rightarrow> 'cap relay option" where
  "relay_new X name node st R all_ts =
     (let E = su_estate X in
      if refusal (es_node E) (su_capability X) R \<noteq> None \<or> name \<notin> set (roster_with (su_capability X) R st)
      then None
      else
        let ts = (if st = Process then [] else all_ts) in
        Some \<lparr>rl_name = name, rl_stage = st, rl_roster = R, rl_transports = ts, rl_faults = plan_none,
          rl_identity_faults = False, rl_spread = parties_spread_over E ts, rl_rotation = None,
          rl_taker = (if st = Receive then Some (taker_new name (es_parties E)) else None),
          rl_ledger = ledger_new node, rl_hops = [], rl_round = 0, rl_cursor = 0, rl_per_round = 16,
          rl_workers = 1, rl_sequence = 0, rl_unreadable = 0, rl_subscribing = False\<rparr>)"

definition relay_with_faults :: "fault_plan \<Rightarrow> 'cap relay \<Rightarrow> 'cap relay" where
  "relay_with_faults faults R = R\<lparr>rl_identity_faults := \<not> plan_is_empty faults, rl_faults := faults\<rparr>"

definition relay_bounded :: "nat \<Rightarrow> nat \<Rightarrow> 'cap relay \<Rightarrow> 'cap relay" where
  "relay_bounded pairs workers R = R\<lparr>rl_per_round := max pairs 1, rl_workers := max workers 1\<rparr>"

definition relay_at ::
    "('id, 'facts, 'cap, 'sub, 'picked) surroundings \<Rightarrow> stress \<Rightarrow> 'cap relay \<Rightarrow> 'cap relay" where
  "relay_at X level R =
     (let (faults, rotating) = leveled level;
          senders = (if rl_stage R = Receive then 1
            else max (length (roster_with (su_capability X) (rl_roster R) Receive)) 1);
          workers = stress_workers (es_cores (su_estate X)) level;
          R = relay_bounded (workers * 4 * senders) workers (relay_with_faults faults R) in
      R\<lparr>rl_rotation := (if rotating then Some (rl_spread R) else None)\<rparr>)"

definition relay_subscribing :: "bool \<Rightarrow> 'cap relay \<Rightarrow> 'cap relay" where
  "relay_subscribing subscribing R = (if rl_stage R = Process then R\<lparr>rl_subscribing := subscribing\<rparr> else R)"

definition relay_over :: "('id, 'facts) estate \<Rightarrow> adapter list \<Rightarrow> 'cap relay \<Rightarrow> 'cap relay" where
  "relay_over E transports R =
     (if rl_stage R \<noteq> Process
      then let R = R\<lparr>rl_spread := parties_spread_over E transports, rl_transports := transports\<rparr> in
        if rl_rotation R \<noteq> None then R\<lparr>rl_rotation := Some (rl_spread R)\<rparr> else R
      else R)"

section \<open>What a stage makes of a pair\<close>

definition relay_fault ::
    "('id, 'facts) estate \<Rightarrow> 'cap relay \<Rightarrow> string \<Rightarrow> contract \<Rightarrow> nat \<Rightarrow> int \<Rightarrow> outcome option" where
  "relay_fault E R name c round now =
     map_option (\<lambda>fault. Failed (evidence fault))
       (case Option.bind (rl_rotation R) (\<lambda>S. rotation_fault_for S (rl_stage R) name c (seconds now)) of
          Some fault \<Rightarrow> Some fault
        | None \<Rightarrow> fault_for (es_node E) (rl_faults R) (rl_stage R) name c round)"

definition relay_verdict ::
    "'cap relay \<Rightarrow> string \<Rightarrow> contract \<Rightarrow> outcome \<Rightarrow> nat \<Rightarrow> int \<Rightarrow> verdict" where
  "relay_verdict R name c r n now =
     \<lparr>v_stage = rl_stage R, v_transport = name, v_contract = c, v_outcome = r, v_bytes = n, v_point = None,
      v_observed = now\<rparr>"

definition relay_handoff :: "'cap relay \<Rightarrow> string \<Rightarrow> contract \<Rightarrow> nat \<Rightarrow> bytes \<Rightarrow> handoff" where
  "relay_handoff R name c round bs =
     \<lparr>hf_transport = name, hf_contract = c, hf_round = round, hf_from = rl_name R, hf_bytes = bs\<rparr>"

definition relay_facing :: "'cap relay \<Rightarrow> nat \<Rightarrow> facing" where
  "relay_facing R place = \<lparr>fa_parties = sp_parties (rl_spread R), fa_party = place\<rparr>"

definition relay_judge_receive ::
    "('id, 'facts) estate \<Rightarrow> 'cap relay \<Rightarrow> int \<Rightarrow> nat \<times> contract \<Rightarrow> judged_pair" where
  "relay_judge_receive E R now = (\<lambda>(at, c).
     let T = rl_transports R ! at;
         name = ad_transport T;
         arrival = (case relay_fault E R name c (rl_round R) now of
             Some r \<Rightarrow> Inl r
           | None \<Rightarrow> carried T (st_bytes (contract_stream (es_codecs E) c)));
         (r, forward) = (case arrival of
             Inr bs \<Rightarrow> (Delivered, Some (relay_handoff R name c (rl_round R) bs))
           | Inl r \<Rightarrow> (r, None)) in
     \<lparr>jp_verdicts = relay_verdict R name c r 0 now
        # receive_verdicts (es_gates E) (es_configure E) (es_cluster_root E) (rl_identity_faults R)
            (relay_facing R (spread_sender (rl_spread R) name)) name c (rl_round R) now,
      jp_forward = forward\<rparr>)"

definition relay_sent :: "'cap relay \<Rightarrow> string \<Rightarrow> bytes \<Rightarrow> outcome + nat" where
  "relay_sent R name bs =
     (case find (\<lambda>T. ad_transport T = name) (rl_transports R) of
        None \<Rightarrow> Inl (Failed (''no transport named '' @ name @ '' on this node''))
      | Some T \<Rightarrow> (case carried T bs of Inr back \<Rightarrow> Inr (length back) | Inl r \<Rightarrow> Inl r))"

definition relay_judge_claimed ::
    "('id, 'facts) estate \<Rightarrow> 'cap relay \<Rightarrow> int \<Rightarrow> handoff \<Rightarrow> judged_pair" where
  "relay_judge_claimed E R now h =
     (let name = hf_transport h; c = hf_contract h in
      case relay_fault E R name c (hf_round h) now of
        Some r \<Rightarrow> \<lparr>jp_verdicts = [relay_verdict R name c r 0 now], jp_forward = None\<rparr>
      | None \<Rightarrow>
          if rl_stage R = Process
          then let r = held (es_contracts E) c (hf_bytes h) in
            \<lparr>jp_verdicts = [relay_verdict R name c r 0 now],
             jp_forward = (if r = Delivered then Some (relay_handoff R name c (hf_round h) (hf_bytes h)) else None)\<rparr>
          else let (r, n) = (case relay_sent R name (hf_bytes h) of Inr n \<Rightarrow> (Delivered, n) | Inl r \<Rightarrow> (r, 0)) in
            \<lparr>jp_verdicts = [relay_verdict R name c r n now,
               send_verdict (es_gates E) (es_configure E) (rl_identity_faults R)
                 (relay_facing R (spread_receiver (rl_spread R) name)) name c (hf_round h) now],
             jp_forward = None\<rparr>)"

section \<open>A round's pairs\<close>

definition relay_share :: "'cap capability_api \<Rightarrow> 'cap roster \<Rightarrow> string \<Rightarrow> 't list \<Rightarrow> (nat \<times> contract) list" where
  "relay_share K R name transports =
     map snd (filter (\<lambda>(index, _). roster_receives K R name index)
       (List.enumerate 0 (all_pairs transports)))"

text \<open>Each pair is judged on a worker's thread; what that comes to is judging them in order
  (\<open>Workers\<close>), whatever the number of workers.\<close>

definition relay_receive ::
    "('id, 'facts, 'cap, 'sub, 'picked) surroundings \<Rightarrow> int \<Rightarrow> 'cap relay \<Rightarrow> judged_pair list \<times> 'cap relay" where
  "relay_receive X now R =
     (let share = relay_share (su_capability X) (rl_roster R) (rl_name R) (rl_transports R);
          pairs = slice share (rl_cursor R) (Some (rl_per_round R));
          R = R\<lparr>rl_cursor := (rl_cursor R + length pairs) mod max (length share) 1\<rparr> in
      (map (relay_judge_receive (su_estate X) R now) pairs, R))"

definition relay_drain ::
    "('id, 'facts, 'cap, 'sub, 'picked) surroundings \<Rightarrow> int \<Rightarrow> 'cap relay \<times> 'sub shared_world
       \<Rightarrow> judged_pair list \<times> 'cap relay \<times> 'sub shared_world" where
  "relay_drain X now = (\<lambda>(R, W).
     let mine = (rl_name R, rl_stage R);
         ((hs, unreadable), d) = inbox_claim (su_pid X) (rl_per_round R) (wd_inboxes W mine);
         R = R\<lparr>rl_unreadable := rl_unreadable R + unreadable\<rparr>;
         W = W\<lparr>wd_inboxes := (wd_inboxes W)(mine := d)\<rparr> in
     (map (relay_judge_claimed (su_estate X) R now) hs, R, W))"

section \<open>Handing on\<close>

definition relay_hand_on ::
    "('id, 'facts, 'cap, 'sub, 'picked) surroundings \<Rightarrow> handoff \<Rightarrow> int \<Rightarrow> 'cap relay \<times> 'sub shared_world
       \<Rightarrow> (string + unit) \<times> 'cap relay \<times> 'sub shared_world" where
  "relay_hand_on X h now = (\<lambda>(R, W).
     let N = es_node (su_estate X) in
     case stage_next N (rl_stage R) of
       None \<Rightarrow> (Inl ''no stage to hand on to'', R, W)
     | Some next' \<Rightarrow>
         (case roster_target N (su_capability X) (rl_roster R) (rl_name R) next' (hf_transport h) (hf_contract h) of
            None \<Rightarrow> (Inl ''no node declares the role the next stage needs'', R, W)
          | Some to \<Rightarrow>
              let R = R\<lparr>rl_sequence := rl_sequence R + 1\<rparr>;
                  failed = (\<lambda>e. Inl (''handoff to '' @ to @ '' failed: '' @ e)) in
              (case su_disk_refuses X (to, next') h of
                 Some e \<Rightarrow> (failed e, R, W)
               | None \<Rightarrow>
                   (case inbox_deliver h (rl_sequence R) (wd_inboxes W (to, next')) of
                      None \<Rightarrow> (failed (su_not_there X), R, W)
                    | Some d \<Rightarrow>
                        (Inr (), R\<lparr>rl_hops := hops_record N (rl_name R, rl_stage R) (to, next') now (rl_hops R)\<rparr>,
                         W\<lparr>wd_inboxes := (wd_inboxes W)((to, next') := d)\<rparr>)))))"

definition relay_route ::
    "('id, 'facts, 'cap, 'sub, 'picked) surroundings \<Rightarrow> 'cap relay \<Rightarrow> handoff \<Rightarrow> 'sub shared_world
       \<Rightarrow> (string + bool) \<times> 'sub shared_world" where
  "relay_route X R h W =
     (if rl_subscribing R
      then (case sb_route (su_subscriptions X) h (wd_subscriptions W) of
          (picked, s) \<Rightarrow> (picked, W\<lparr>wd_subscriptions := s\<rparr>))
      else (Inr True, W))"

text \<open>What a judged pair comes to once what it hands on is handed on, or could not be.\<close>

definition relay_settle ::
    "('id, 'facts, 'cap, 'sub, 'picked) surroundings \<Rightarrow> int \<Rightarrow> judged_pair \<Rightarrow> 'cap relay \<times> 'sub shared_world
       \<Rightarrow> verdict list \<times> 'cap relay \<times> 'sub shared_world" where
  "relay_settle X now one = (\<lambda>(R, W).
     case (jp_forward one, jp_verdicts one) of
       (Some h, v # vs) \<Rightarrow>
         let (picked, W) = relay_route X R h W;
             (handed, R, W) = (case picked of
                 Inr True \<Rightarrow> relay_hand_on X h now (R, W)
               | Inr False \<Rightarrow> (Inr (), R, W)
               | Inl why \<Rightarrow> (Inl why, R, W)) in
         ((case handed of Inl why \<Rightarrow> v\<lparr>v_outcome := Failed why, v_bytes := 0\<rparr> | Inr _ \<Rightarrow> v) # vs, R, W)
     | (_, vs) \<Rightarrow> (vs, R, W))"

definition relay_fold ::
    "('id, 'facts, 'cap, 'sub, 'picked) surroundings \<Rightarrow> int \<Rightarrow> judged_pair
       \<Rightarrow> ('cap relay \<times> 'sub shared_world) \<times> snapshot \<Rightarrow> ('cap relay \<times> 'sub shared_world) \<times> snapshot" where
  "relay_fold X now one = (\<lambda>(S, snap).
     let (vs, R, W) = relay_settle X now one S;
         (L, snap) = fold (ledger_fold (es_node (su_estate X)) now) vs (rl_ledger R, snap) in
     ((R\<lparr>rl_ledger := L\<rparr>, W), snap))"

definition relay_hand_on_released ::
    "('id, 'facts, 'cap, 'sub, 'picked) surroundings \<Rightarrow> int \<Rightarrow> 'cap relay \<times> 'sub shared_world
       \<Rightarrow> 'cap relay \<times> 'sub shared_world" where
  "relay_hand_on_released X now = (\<lambda>(R, W).
     if \<not> rl_subscribing R then (R, W)
     else
       let A = su_subscriptions X;
           (released, s) = sb_released A (wd_subscriptions W) in
       fold (\<lambda>picked S.
           let (handed, R, W) = relay_hand_on X (sb_handoff A picked) now S in
           (R, W\<lparr>wd_subscriptions := sb_done A picked handed (wd_subscriptions W)\<rparr>))
         released (R, W\<lparr>wd_subscriptions := s\<rparr>))"

definition relay_judge_round ::
    "('id, 'facts, 'cap, 'sub, 'picked) surroundings \<Rightarrow> int \<Rightarrow> 'cap relay \<times> 'sub shared_world
       \<Rightarrow> judged_pair list \<times> 'cap relay \<times> 'sub shared_world" where
  "relay_judge_round X now = (\<lambda>(R, W).
     if rl_stage R = Receive then (case relay_receive X now R of (judged, R) \<Rightarrow> (judged, R, W))
     else relay_drain X now (R, W))"

definition relay_tick ::
    "('id, 'facts, 'cap, 'sub, 'picked) surroundings \<Rightarrow> int \<Rightarrow> 'cap relay \<times> 'sub shared_world
       \<Rightarrow> ('cap relay \<times> 'sub shared_world) \<times> snapshot" where
  "relay_tick X now = (\<lambda>(R, W).
     let E = su_estate X;
         R = R\<lparr>rl_round := rl_round R + 1\<rparr>;
         (judged, R, W) = relay_judge_round X now (R, W);
         ((R, W), snap) = fold (relay_fold X now) judged ((R, W), []);
         (R, W) = relay_hand_on_released X now (R, W);
         snap = ledger_close (es_node E) (es_observe E) (rl_ledger R) snap now;
         node = lg_node (rl_ledger R);
         ((taker, snap), B) = (case rl_taker R of
             None \<Rightarrow> ((None, snap), wd_drop_box W)
           | Some T \<Rightarrow> (case taker_take (su_claims X) node now T snap (wd_drop_box W) of
               ((T, snap), B) \<Rightarrow> ((Some T, snap), B)));
         R = R\<lparr>rl_taker := taker\<rparr>;
         W = W\<lparr>wd_drop_box := B\<rparr>;
         inbox = (if rl_stage R = Receive then None
           else Some (inbox_waiting (wd_inboxes W (rl_name R, rl_stage R)), rl_unreadable R)) in
     ((R, W), snap @ map RecordHealth (hops_records (rl_hops R) node inbox now)))"

section \<open>Which node takes which pair\<close>

lemma set_relay_share:
  "set (relay_share K R name ts) =
     {all_pairs ts ! i | i. i < length (all_pairs ts) \<and> roster_receives K R name i}"
  by (force simp: relay_share_def enumerate_eq_zip in_set_zip image_iff)

lemma distinct_relay_share: "distinct (relay_share K R name ts)"
proof -
  have "distinct (map snd (List.enumerate 0 (all_pairs ts)))" by (simp add: distinct_all_pairs)
  then show ?thesis by (simp add: relay_share_def distinct_map_filter)
qed

lemma roster_receives_iff:
  assumes "distinct (roster_with K R Receive)" "roster_with K R Receive \<noteq> []"
  shows "roster_receives K R name i \<longleftrightarrow>
    name = roster_with K R Receive ! (i mod length (roster_with K R Receive))"
proof -
  have "i mod length (roster_with K R Receive) < length (roster_with K R Receive)" using assms(2) by simp
  from roster_receives_nth [OF assms(1) this, of i] show ?thesis
    by (auto simp: roster_receives_def Let_def dest: position_Some split: option.splits)
qed

text \<open>The receiving nodes of a cluster drive the whole matrix between them and nothing twice: every
  transport under every contract is in the share of exactly one node.\<close>

theorem every_pair_is_one_nodes_share:
  assumes "distinct (roster_with K R Receive)" and "roster_with K R Receive \<noteq> []"
    and "t < length ts"
  shows "\<exists>!name. (t, c) \<in> set (relay_share K R name ts)"
proof -
  have "(t, c) \<in> set (all_pairs ts)" using assms(3) by (simp add: set_all_pairs)
  then obtain i where i: "i < length (all_pairs ts)" "all_pairs ts ! i = (t, c)" by (auto simp: in_set_conv_nth)
  have "(t, c) \<in> set (relay_share K R name ts) \<longleftrightarrow> roster_receives K R name i" for name
  proof
    assume "(t, c) \<in> set (relay_share K R name ts)"
    then obtain j where j: "all_pairs ts ! j = (t, c)" "j < length (all_pairs ts)" "roster_receives K R name j"
      unfolding set_relay_share by auto
    then have "j = i" using nth_eq_iff_index_eq [OF distinct_all_pairs j(2) i(1)] i(2) by simp
    with j show "roster_receives K R name i" by simp
  next
    assume "roster_receives K R name i"
    then show "(t, c) \<in> set (relay_share K R name ts)"
      unfolding set_relay_share using i by (intro CollectI exI [of _ i]) simp
  qed
  then show ?thesis by (simp add: roster_receives_iff [OF assms(1,2)])
qed

theorem every_pair_is_one_nodes_share_witness:
  "\<exists>!name. (0, Sql) \<in> set (relay_share plain_capability example_roster name [echo])"
proof -
  have "roster_with plain_capability example_roster Receive = [''a'', ''b'']" by code_simp
  then show ?thesis by (intro every_pair_is_one_nodes_share) simp_all
qed

section \<open>What a tick leaves of a relay\<close>

text \<open>What no handing on changes.\<close>

definition rl_settled :: "'cap relay \<Rightarrow> string \<times> stage \<times> 'cap roster \<times> nat \<times> nat \<times> bool \<times> nat \<times> taker option" where
  "rl_settled R = (rl_name R, rl_stage R, rl_roster R, rl_per_round R, rl_cursor R, rl_subscribing R, rl_round R,
     rl_taker R)"

lemma hand_on_settled: "relay_hand_on X h now (R, W) = (r, R', W') \<Longrightarrow> rl_settled R' = rl_settled R"
  by (auto simp: relay_hand_on_def rl_settled_def Let_def split: option.splits)

lemma settle_settled: "relay_settle X now one (R, W) = (vs, R', W') \<Longrightarrow> rl_settled R' = rl_settled R"
  by (auto simp: relay_settle_def Let_def hand_on_settled split: option.splits list.splits prod.splits sum.splits
      bool.splits if_splits)

section \<open>What is handed on\<close>

text \<open>The pairs of a round settled one after another, without the ledger.\<close>

primrec relay_settles ::
    "('id, 'facts, 'cap, 'sub, 'picked) surroundings \<Rightarrow> int \<Rightarrow> judged_pair list
       \<Rightarrow> 'cap relay \<times> 'sub shared_world \<Rightarrow> verdict list list \<times> 'cap relay \<times> 'sub shared_world" where
  "relay_settles X now [] S = ([], S)"
| "relay_settles X now (one # ones) S =
     (let (vs, S) = relay_settle X now one S; (vss, S) = relay_settles X now ones S in (vs # vss, S))"

lemma hand_on_ledger:
  "relay_hand_on X h now (R\<lparr>rl_ledger := L\<rparr>, W) =
     (case relay_hand_on X h now (R, W) of (r, R', W') \<Rightarrow> (r, R'\<lparr>rl_ledger := L\<rparr>, W'))"
  by (simp add: relay_hand_on_def Let_def split: option.splits)

lemma settle_ledger:
  "relay_settle X now one (R\<lparr>rl_ledger := L\<rparr>, W) =
     (case relay_settle X now one (R, W) of (vs, R', W') \<Rightarrow> (vs, R'\<lparr>rl_ledger := L\<rparr>, W'))"
  by (auto simp: relay_settle_def relay_route_def Let_def hand_on_ledger
      split: option.splits list.splits prod.splits sum.splits bool.splits)

lemma settles_ledger:
  "relay_settles X now ones (R\<lparr>rl_ledger := L\<rparr>, W) =
     (case relay_settles X now ones (R, W) of (vss, R', W') \<Rightarrow> (vss, R'\<lparr>rl_ledger := L\<rparr>, W'))"
  by (induction ones arbitrary: R W) (auto simp: settle_ledger case_prod_beta)

lemma settle_keeps_ledger: "relay_settle X now one (R, W) = (vs, R', W') \<Longrightarrow> rl_ledger R' = rl_ledger R"
  by (auto simp: relay_settle_def relay_hand_on_def Let_def
      split: option.splits list.splits prod.splits sum.splits bool.splits if_splits)

text \<open>A round's loop is that, and the ledger's folding of the verdicts it leaves.\<close>

lemma fold_is_settles:
  assumes "relay_settles X now ones (R, W) = (vss, R', W')"
  shows "fold (relay_fold X now) ones ((R, W), snap) =
    (case fold (ledger_fold (es_node (su_estate X)) now) (concat vss) (rl_ledger R, snap) of
       (L, snap) \<Rightarrow> ((R'\<lparr>rl_ledger := L\<rparr>, W'), snap))"
  using assms
proof (induction ones arbitrary: R W vss snap R')
  case Nil
  then show ?case by simp
next
  case (Cons one ones)
  obtain vs R1 W1 where one: "relay_settle X now one (R, W) = (vs, R1, W1)" by (metis surj_pair)
  obtain vss' where rest: "relay_settles X now ones (R1, W1) = (vss', R', W')" and vss: "vss = vs # vss'"
    using Cons.prems by (auto simp: one Let_def split: prod.splits)
  obtain L s where L: "fold (ledger_fold (es_node (su_estate X)) now) vs (rl_ledger R, snap) = (L, s)" by fastforce
  have "relay_settles X now ones (R1\<lparr>rl_ledger := L\<rparr>, W1) = (vss', R'\<lparr>rl_ledger := L\<rparr>, W')"
    using settles_ledger [of X now ones L R1 W1] rest by simp
  from Cons.IH [OF this, of s] show ?case
    by (simp add: relay_fold_def one vss settle_keeps_ledger [OF one] L)
qed

text \<open>Names of files handed on by one node: its sequence tells them apart.\<close>

lemma takeWhile_digits: "list_all is_digit d \<Longrightarrow> \<not> is_digit x \<Longrightarrow> takeWhile is_digit (d @ x # r) = d"
  by (induction d) auto

lemma list_all_padded: "list_all is_digit (padded k n)"
  by (simp add: padded_def list_all_is_digit_decimal list_all_iff [of _ "replicate _ _"] is_digit_def)

lemma handoff_name_seq:
  assumes "hf_from h = hf_from g" "handoff_name h m = handoff_name g n"
  shows "m = n"
proof -
  have dash: "\<not> is_digit (CHR ''-'')" by (simp add: is_digit_def)
  have split: "d = e \<and> r = q" if "d @ CHR ''-'' # r = e @ CHR ''-'' # q" "list_all is_digit d" "list_all is_digit e" for d e r q
  proof -
    have "d = e" using that takeWhile_digits [OF _ dash] by metis
    with that show ?thesis by simp
  qed
  from assms(2) have "padded 10 (hf_round h) @ CHR ''-'' # hf_from h @ ''-'' @ padded 10 m @ ''-'' @ hf_transport h @ ''-''
        @ contract_name (hf_contract h)
      = padded 10 (hf_round g) @ CHR ''-'' # hf_from g @ ''-'' @ padded 10 n @ ''-'' @ hf_transport g @ ''-''
        @ contract_name (hf_contract g)"
    by (simp add: handoff_name_def)
  from split [OF this list_all_padded list_all_padded] have
    "padded 10 m @ CHR ''-'' # hf_transport h @ ''-'' @ contract_name (hf_contract h)
      = padded 10 n @ CHR ''-'' # hf_transport g @ ''-'' @ contract_name (hf_contract g)"
    by (simp add: assms(1))
  from split [OF this list_all_padded list_all_padded] show ?thesis by (simp add: padded_inj)
qed

text \<open>What handing on does: a whole file of a name of its own in the target's inbox, and a hop; or
  nothing but a number of the sequence used up.\<close>

definition hop_sum :: "hops \<Rightarrow> nat" where
  "hop_sum links = sum_list (map (\<lambda>x. hop_count (snd x)) links)"

lemma hop_sum_record:
  "btree_wf links \<Longrightarrow> hop_sum (hops_record N a b now links) = Suc (hop_sum links)
     \<and> btree_wf (hops_record N a b now links)"
  by (simp add: hop_sum_def hops_record_def sum_btree_upsert btree_wf_upsert)

lemma deliver_result:
  "inbox_deliver h seq d = Some e \<longleftrightarrow>
     e = btree_insert (ready_file (handoff_name h seq)) (encode h)
       (btree_remove (writing_file (handoff_name h seq)) (btree_insert (writing_file (handoff_name h seq)) (encode h) d))"
  by (auto simp: inbox_deliver_def Let_def writing_file_def ready_file_def rename_Some store_simps)

lemma deliver_ready:
  assumes "inbox_deliver h seq d = Some e"
  shows "btree_get e (ready_file n) = (if n = handoff_name h seq then Some (encode h) else btree_get d (ready_file n))"
  using assms by (simp add: deliver_result store_simps file_names)

lemma hand_on_result:
  assumes "relay_hand_on X h now (R, W) = (r, R', W')"
  obtains (handed) next' to d where "r = Inr ()" "stage_next (es_node (su_estate X)) (rl_stage R) = Some next'"
      "roster_target (es_node (su_estate X)) (su_capability X) (rl_roster R) (rl_name R) next' (hf_transport h)
        (hf_contract h) = Some to"
      "inbox_deliver h (rl_sequence R + 1) (wd_inboxes W (to, next')) = Some d"
      "wd_inboxes W' = (wd_inboxes W)((to, next') := d)" "rl_sequence R' = rl_sequence R + 1"
      "rl_hops R' = hops_record (es_node (su_estate X)) (rl_name R, rl_stage R) (to, next') now (rl_hops R)"
  | (kept) why where "r = Inl why" "wd_inboxes W' = wd_inboxes W" "rl_sequence R \<le> rl_sequence R'"
      "rl_hops R' = rl_hops R"
proof -
  let ?N = "es_node (su_estate X)"
  show thesis
  proof (cases "stage_next ?N (rl_stage R)")
    case None
    then show ?thesis by (intro kept) (use assms in \<open>auto simp: relay_hand_on_def\<close>)
  next
    case (Some next')
    note st = this
    show ?thesis
    proof (cases "roster_target ?N (su_capability X) (rl_roster R) (rl_name R) next' (hf_transport h) (hf_contract h)")
      case None
      then show ?thesis by (intro kept) (use assms in \<open>auto simp: relay_hand_on_def st\<close>)
    next
      case (Some to)
      obtain d where d: "inbox_deliver h (rl_sequence R + 1) (wd_inboxes W (to, next')) = Some d"
        by (simp add: deliver_result)
      show ?thesis
      proof (cases "su_disk_refuses X (to, next') h")
        case None
        with assms d have "r = Inr ()" "W' = W\<lparr>wd_inboxes := (wd_inboxes W)((to, next') := d)\<rparr>"
          "R' = R\<lparr>rl_sequence := rl_sequence R + 1,
             rl_hops := hops_record ?N (rl_name R, rl_stage R) (to, next') now (rl_hops R)\<rparr>"
          by (auto simp: relay_hand_on_def st Some Let_def)
        with handed [OF _ st Some d] show ?thesis by simp
      next
        case refused: (Some e)
        show ?thesis
          by (rule kept) (use assms in \<open>auto simp: relay_hand_on_def st Some refused Let_def\<close>)
      qed
    qed
  qed
qed

text \<open>Where a handed-on pair is, and what becomes of a judged pair's verdicts.\<close>

definition in_targets_inbox ::
    "('id, 'facts, 'cap, 'sub, 'picked) surroundings \<Rightarrow> 'cap relay \<Rightarrow> handoff \<Rightarrow> 'sub shared_world \<Rightarrow> bool" where
  "in_targets_inbox X R h W \<longleftrightarrow>
     (\<exists>next' to seq. stage_next (es_node (su_estate X)) (rl_stage R) = Some next'
       \<and> roster_target (es_node (su_estate X)) (su_capability X) (rl_roster R) (rl_name R) next' (hf_transport h)
           (hf_contract h) = Some to
       \<and> btree_get (wd_inboxes W (to, next')) (ready_file (handoff_name h seq)) = Some (encode h))"

definition settled_as ::
    "('id, 'facts, 'cap, 'sub, 'picked) surroundings \<Rightarrow> 'cap relay \<Rightarrow> 'sub shared_world \<Rightarrow> judged_pair
       \<Rightarrow> verdict list \<Rightarrow> bool" where
  "settled_as X R W one vs \<longleftrightarrow>
     (case jp_forward one of
        None \<Rightarrow> vs = jp_verdicts one
      | Some h \<Rightarrow> vs = jp_verdicts one \<and> in_targets_inbox X R h W
          \<or> (\<exists>why. vs = (hd (jp_verdicts one))\<lparr>v_outcome := Failed why, v_bytes := 0\<rparr> # tl (jp_verdicts one)))"

definition handed_on :: "judged_pair \<times> verdict list \<Rightarrow> bool" where
  "handed_on = (\<lambda>(one, vs). jp_forward one \<noteq> None \<and> v_outcome (hd vs) = Delivered)"

definition forwards_mine :: "string \<Rightarrow> judged_pair \<Rightarrow> bool" where
  "forwards_mine name one \<longleftrightarrow> jp_verdicts one \<noteq> []
     \<and> (\<forall>h. jp_forward one = Some h \<longrightarrow> hf_from h = name \<and> v_outcome (hd (jp_verdicts one)) = Delivered)"

lemma settled_targets: "rl_settled R = rl_settled R' \<Longrightarrow> in_targets_inbox X R h W = in_targets_inbox X R' h W"
  by (simp add: in_targets_inbox_def rl_settled_def)

lemma settled_settled: "rl_settled R = rl_settled R' \<Longrightarrow> settled_as X R W = settled_as X R' W"
  by (intro ext) (simp add: settled_as_def settled_targets [of R R'] split: option.splits)

text \<open>The names a node has not yet given out.\<close>

definition fresh_name :: "'cap relay \<Rightarrow> string \<Rightarrow> bool" where
  "fresh_name R n \<longleftrightarrow> (\<exists>h seq. hf_from h = rl_name R \<and> rl_sequence R < seq \<and> n = handoff_name h seq)"

lemma settle_result:
  assumes "relay_settle X now one (R, W) = (vs, R', W')" "\<not> rl_subscribing R" "forwards_mine (rl_name R) one"
    "btree_wf (rl_hops R)"
  shows "rl_sequence R \<le> rl_sequence R' \<and> btree_wf (rl_hops R')
    \<and> (\<forall>I n. \<not> fresh_name R n \<longrightarrow>
         btree_get (wd_inboxes W' I) (ready_file n) = btree_get (wd_inboxes W I) (ready_file n))
    \<and> (\<exists>n. \<not> fresh_name R' n \<and> (\<forall>W''. (\<forall>I. btree_get (wd_inboxes W'' I) (ready_file n)
           = btree_get (wd_inboxes W' I) (ready_file n)) \<longrightarrow> settled_as X R W'' one vs))
    \<and> hop_sum (rl_hops R') = hop_sum (rl_hops R) + (if handed_on (one, vs) then 1 else 0)"
proof (cases "jp_forward one")
  case None
  then have "vs = jp_verdicts one" "R' = R" "W' = W"
    using assms(1) by (simp_all add: relay_settle_def)
  moreover have "\<exists>n. \<not> fresh_name R n"
    by (rule exI [of _ "[]"]) (simp add: fresh_name_def handoff_name_def)
  ultimately show ?thesis
    using None assms(4) by (auto simp: settled_as_def handed_on_def)
next
  case (Some h)
  obtain v ws where v: "jp_verdicts one = v # ws" and from': "hf_from h = rl_name R" and d: "v_outcome v = Delivered"
    using assms(3) Some by (cases "jp_verdicts one") (auto simp: forwards_mine_def)
  obtain r where hand: "relay_hand_on X h now (R, W) = (r, R', W')"
    and vs: "vs = (case r of Inl why \<Rightarrow> v\<lparr>v_outcome := Failed why, v_bytes := 0\<rparr> | Inr _ \<Rightarrow> v) # ws"
    using assms(1,2) by (auto simp: relay_settle_def Some v relay_route_def split: prod.splits)
  have same: "rl_name R' = rl_name R" using hand_on_settled [OF hand] by (simp add: rl_settled_def)
  from hand show ?thesis
  proof (cases rule: hand_on_result)
    case (handed next' to d')
    let ?n = "handoff_name h (rl_sequence R + 1)"
    have fresh: "fresh_name R ?n" using from' by (auto simp: fresh_name_def)
    have used: "\<not> fresh_name R' ?n"
    proof
      assume "fresh_name R' ?n"
      then obtain g seq where g: "hf_from g = rl_name R'" "rl_sequence R' < seq" "?n = handoff_name g seq"
        unfolding fresh_name_def by blast
      then have "rl_sequence R + 1 = seq" using from' same by (intro handoff_name_seq [of h g]) simp_all
      with g(2) handed(6) show False by simp
    qed
    have got: "btree_get (wd_inboxes W' (to, next')) (ready_file ?n) = Some (encode h)"
      by (simp add: handed(5) deliver_ready [OF handed(4)])
    have others: "btree_get (wd_inboxes W' I) (ready_file n) = btree_get (wd_inboxes W I) (ready_file n)"
      if "\<not> fresh_name R n" for I n
    proof -
      have "n \<noteq> ?n" using that fresh by blast
      then show ?thesis by (simp add: handed(5) deliver_ready [OF handed(4)])
    qed
    have "settled_as X R W'' one vs"
      if "\<forall>I. btree_get (wd_inboxes W'' I) (ready_file ?n) = btree_get (wd_inboxes W' I) (ready_file ?n)" for W''
    proof -
      have "in_targets_inbox X R h W''"
        unfolding in_targets_inbox_def using handed(2,3) got that
        by (intro exI [of _ next'] exI [of _ to] exI [of _ "rl_sequence R + 1"]) simp
      then show ?thesis by (simp add: settled_as_def Some v vs handed(1))
    qed
    with used have landed: "\<exists>n. \<not> fresh_name R' n \<and> (\<forall>W''. (\<forall>I. btree_get (wd_inboxes W'' I) (ready_file n)
           = btree_get (wd_inboxes W' I) (ready_file n)) \<longrightarrow> settled_as X R W'' one vs)" by blast
    have "handed_on (one, vs)" using d by (simp add: handed_on_def Some vs handed(1))
    with others landed show ?thesis
      using hop_sum_record [OF assms(4)] by (simp add: handed(6,7))
  next
    case (kept why)
    have "\<exists>n. \<not> fresh_name R' n"
      by (rule exI [of _ "[]"]) (simp add: fresh_name_def handoff_name_def)
    moreover have "settled_as X R W'' one vs" for W''
      by (auto simp: settled_as_def Some v vs kept(1))
    moreover have "\<not> handed_on (one, vs)" by (simp add: handed_on_def vs kept(1))
    ultimately show ?thesis using kept assms(4) by auto
  qed
qed

lemma fresh_name_later:
  "rl_settled R' = rl_settled R \<Longrightarrow> rl_sequence R \<le> rl_sequence R' \<Longrightarrow> fresh_name R' n \<Longrightarrow> fresh_name R n"
  unfolding fresh_name_def rl_settled_def by (elim exE conjE) (intro exI conjI, auto)

lemma settles_result:
  assumes "relay_settles X now ones (R, W) = (vss, R', W')" "\<not> rl_subscribing R"
    "list_all (forwards_mine (rl_name R)) ones" "btree_wf (rl_hops R)"
  shows "rl_settled R' = rl_settled R \<and> rl_sequence R \<le> rl_sequence R'
    \<and> (\<forall>I n. \<not> fresh_name R n \<longrightarrow>
         btree_get (wd_inboxes W' I) (ready_file n) = btree_get (wd_inboxes W I) (ready_file n))
    \<and> list_all2 (settled_as X R W') ones vss
    \<and> hop_sum (rl_hops R') = hop_sum (rl_hops R) + length (filter handed_on (zip ones vss))"
  using assms
proof (induction ones arbitrary: R W vss)
  case Nil
  then show ?case by simp
next
  case (Cons one ones)
  obtain vs R1 W1 where one: "relay_settle X now one (R, W) = (vs, R1, W1)" by (metis surj_pair)
  obtain vss' where rest: "relay_settles X now ones (R1, W1) = (vss', R', W')" and vss: "vss = vs # vss'"
    using Cons.prems(1) by (auto simp: one Let_def split: prod.splits)
  have same: "rl_settled R1 = rl_settled R" by (rule settle_settled [OF one])
  have fields: "rl_name R1 = rl_name R" "rl_subscribing R1 = rl_subscribing R"
    using same by (simp_all add: rl_settled_def)
  have mine: "forwards_mine (rl_name R) one" using Cons.prems(3) by simp
  note first = settle_result [OF one Cons.prems(2) mine Cons.prems(4)]
  have wf1: "btree_wf (rl_hops R1)" and seq1: "rl_sequence R \<le> rl_sequence R1" using first by simp_all
  have "list_all (forwards_mine (rl_name R1)) ones" using Cons.prems(3) by (simp add: fields)
  note later = Cons.IH [OF rest _ this wf1, unfolded fields, OF Cons.prems(2)]
  have keep: "\<not> fresh_name R n \<Longrightarrow> \<not> fresh_name R1 n" for n
    using fresh_name_later [OF same seq1] by blast
  have "settled_as X R W' one vs" using first later by blast
  moreover have "settled_as X R1 W' = settled_as X R W'" by (rule settled_settled [OF same])
  ultimately show ?case
    using first later keep same by (simp add: vss)
qed

lemma judged_forwards_mine:
  "forwards_mine (rl_name R) (relay_judge_receive E R now p)"
  "forwards_mine (rl_name R) (relay_judge_claimed E R now h)"
  by (auto simp: forwards_mine_def relay_judge_receive_def relay_judge_claimed_def relay_verdict_def relay_handoff_def
      Let_def case_prod_beta split: option.splits sum.splits if_splits)

lemma judge_round_result:
  assumes "relay_judge_round X now (R, W) = (judged, R1, W1)"
  shows "list_all (forwards_mine (rl_name R)) judged \<and> rl_name R1 = rl_name R \<and> rl_stage R1 = rl_stage R
    \<and> rl_roster R1 = rl_roster R \<and> rl_subscribing R1 = rl_subscribing R \<and> rl_sequence R1 = rl_sequence R
    \<and> rl_hops R1 = rl_hops R \<and> rl_ledger R1 = rl_ledger R"
proof -
  have "rl_name R = rl_name (R\<lparr>rl_cursor := c\<rparr>)" "rl_name R = rl_name (R\<lparr>rl_unreadable := c\<rparr>)" for c by simp_all
  then show ?thesis
    using assms judged_forwards_mine [of "R\<lparr>rl_cursor := _\<rparr>"] judged_forwards_mine [of "R\<lparr>rl_unreadable := _\<rparr>"]
    by (auto simp: relay_judge_round_def relay_receive_def relay_drain_def list_all_iff Let_def
        split: if_splits prod.splits)
qed


text \<open>A cluster of two receiving, one processing and one sending node, with no subscriptions.\<close>

definition example_surroundings :: "(string, string, stage list, unit, handoff) surroundings" where
  "example_surroundings =
     \<lparr>su_estate = example_estate, su_capability = plain_capability, su_pid = 7,
      su_subscriptions = \<lparr>sb_route = \<lambda>h s. (Inr True, s), sb_released = \<lambda>s. ([], s), sb_handoff = id,
        sb_done = \<lambda>p r s. s\<rparr>,
      su_disk_refuses = \<lambda>to h. None, su_not_there = ''not found'',
      su_claims = \<lparr>cl_builds = \<lambda>p a. False, cl_receives = \<lambda>p a. None\<rparr>\<rparr>"

definition example_world :: "unit shared_world" where
  "example_world = \<lparr>wd_inboxes = \<lambda>_. [], wd_subscriptions = (), wd_drop_box = drop_box_empty\<rparr>"

lemma relay_new_fields:
  "relay_new X name node st K ts = Some R \<Longrightarrow> rl_name R = name \<and> rl_stage R = st \<and> rl_roster R = K
     \<and> rl_faults R = plan_none \<and> rl_identity_faults R = False \<and> rl_rotation R = None \<and> rl_hops R = []
     \<and> \<not> rl_subscribing R \<and> rl_transports R = (if st = Process then [] else ts)
     \<and> rl_spread R = parties_spread_over (su_estate X) (if st = Process then [] else ts)"
  by (auto simp: relay_new_def Let_def split: if_splits)


section \<open>The message path\<close>

lemma calm_relay_fault:
  "rl_faults R = plan_none \<Longrightarrow> rl_rotation R = None \<Longrightarrow> relay_fault E R name c round now = None"
  by (simp add: relay_fault_def plan_none_def fault_for_def)

text \<open>C14: the message path across three node processes is one: with no fault injected, transports that
  carry the payload and a contract that holds, what the receiving node hands on is read back whole
  from its file by the processing node, which hands it on as its own, and what the sending node reads
  it sends and counts, byte for byte, in the round the receiving node took it in.\<close>

theorem calm_path_delivers:
  assumes "rl_stage Rp = Process" "rl_stage Rs = Send"
    and "\<forall>R \<in> {Rr, Rp, Rs}. rl_faults R = plan_none \<and> rl_rotation R = None"
    and "payload = st_bytes (contract_stream (es_codecs E) c)"
    and "T = rl_transports Rr ! at" and "find (\<lambda>S. ad_transport S = ad_transport T) (rl_transports Rs) = Some S"
    and "\<forall>A \<in> {T, S}. ad_refuses A payload = None \<and> ad_exchange A payload = Returned payload"
    and "held (es_contracts E) c payload = Delivered"
    and "header_word (ad_transport T)" "header_word (rl_name Rr)" "header_word (rl_name Rp)"
    and "rl_round Rr < 2 ^ 64" "length payload < 2 ^ 64"
  shows "\<exists>h h'. jp_forward (relay_judge_receive E Rr now (at, c)) = Some h
    \<and> decode (encode h) = Some h
    \<and> jp_forward (relay_judge_claimed E Rp now' h) = Some h' \<and> hf_from h' = rl_name Rp
    \<and> decode (encode h') = Some h'
    \<and> hf_round h' = rl_round Rr
    \<and> hd (jp_verdicts (relay_judge_claimed E Rs now'' h')) =
        \<lparr>v_stage = Send, v_transport = ad_transport T, v_contract = c, v_outcome = Delivered,
         v_bytes = length payload, v_point = None, v_observed = now''\<rparr>"
proof -
  define h where "h = relay_handoff Rr (ad_transport T) c (rl_round Rr) payload"
  define h' where "h' = relay_handoff Rp (ad_transport T) c (rl_round Rr) payload"
  have whole: "carried T payload = Inr payload" "carried S payload = Inr payload"
    using assms(7) by (simp_all add: carried_def)
  have calm: "relay_fault E R name d r m = None" if "R \<in> {Rr, Rp, Rs}" for R name d r m
    using that assms(3) by (intro calm_relay_fault) auto
  have "handoff_wf h" "handoff_wf h'"
    using assms(9-13) by (simp_all add: h_def h'_def handoff_wf_def relay_handoff_def)
  then have "decode (encode h) = Some h" "decode (encode h') = Some h'"
    using decode_header [of h "hf_bytes h"] decode_header [of h' "hf_bytes h'"] by (simp_all add: encode_def)
  moreover have "jp_forward (relay_judge_receive E Rr now (at, c)) = Some h"
    using whole(1) by (simp add: relay_judge_receive_def calm assms(4,5) h_def Let_def)
  moreover have "jp_forward (relay_judge_claimed E Rp now' h) = Some h'"
    using assms(1,8) by (simp add: relay_judge_claimed_def calm h_def h'_def relay_handoff_def Let_def)
  moreover have "relay_sent Rs (ad_transport T) payload = Inr (length payload)"
    by (simp add: relay_sent_def assms(6) whole(2))
  then have "hd (jp_verdicts (relay_judge_claimed E Rs now'' h')) =
      \<lparr>v_stage = Send, v_transport = ad_transport T, v_contract = c, v_outcome = Delivered,
       v_bytes = length payload, v_point = None, v_observed = now''\<rparr>"
    using assms(2) by (simp add: relay_judge_claimed_def calm h'_def relay_handoff_def relay_verdict_def Let_def)
  ultimately show ?thesis by (auto simp: h'_def relay_handoff_def)
qed

theorem calm_path_delivers_witness:
  "\<exists>Rr Rp Rs h h'. relay_new example_surroundings ''a'' ''xmip:///a'' Receive example_roster [echo] = Some Rr
     \<and> relay_new example_surroundings ''p'' ''xmip:///p'' Process example_roster [echo] = Some Rp
     \<and> relay_new example_surroundings ''s'' ''xmip:///s'' Send example_roster [echo] = Some Rs
     \<and> jp_forward (relay_judge_receive example_estate Rr 0 (0, Json)) = Some h
     \<and> jp_forward (relay_judge_claimed example_estate Rp 1 h) = Some h'
     \<and> v_outcome (hd (jp_verdicts (relay_judge_claimed example_estate Rs 2 h'))) = Delivered"
proof -
  have "refusal documented_node plain_capability example_roster = None" by code_simp
  moreover have "''a'' \<in> set (roster_with plain_capability example_roster Receive)"
    "''p'' \<in> set (roster_with plain_capability example_roster Process)"
    "''s'' \<in> set (roster_with plain_capability example_roster Send)" by code_simp+
  ultimately obtain Rr Rp Rs where R:
      "relay_new example_surroundings ''a'' ''xmip:///a'' Receive example_roster [echo] = Some Rr"
      "relay_new example_surroundings ''p'' ''xmip:///p'' Process example_roster [echo] = Some Rp"
      "relay_new example_surroundings ''s'' ''xmip:///s'' Send example_roster [echo] = Some Rs"
    by (simp add: relay_new_def example_surroundings_def example_estate_def Let_def)
  note fields = relay_new_fields [OF R(1)] relay_new_fields [OF R(2)] relay_new_fields [OF R(3)]
  have "rl_round Rr = 0" using R(1) by (auto simp: relay_new_def Let_def split: if_splits)
  moreover have "header_word (ad_transport echo)" "header_word ''a''" "header_word ''p''" by code_simp+
  moreover have "\<forall>payload. ad_refuses echo payload = None \<and> ad_exchange echo payload = Returned payload"
    by (simp add: echo_def)
  moreover have "held (es_contracts example_estate) Json (st_bytes (contract_stream (es_codecs example_estate) Json)) = Delivered"
    by (simp add: example_estate_def held_Delivered content_validate_def accepting_contracts_def check_def Let_def)
  moreover have "length (st_bytes (contract_stream (es_codecs example_estate) Json)) < 2 ^ 64"
    by (simp add: example_estate_def contract_stream_def contract_payload_def)
  ultimately show ?thesis
    using calm_path_delivers [of Rp Rs Rr _ example_estate Json echo 0 echo 0 1 2] fields R by auto
qed

end
