(* ===== verification/Low_Latency.thy ===== *)
theory Low_Latency
  imports Schedule
begin

text \<open>
  The low latency test (\<open>src/low_latency.rs\<close>): a ring of recent latencies per pair, its percentiles,
  and the health they come to. How long an exchange took is the environment's, the parameter
  \<open>elapsed\<close> in microseconds; how a latency is displayed in an evidence line is the parameter \<open>millis\<close>.
\<close>

section \<open>The ring\<close>

definition RING :: nat where
  "RING = 256"

definition SPIKE_RATE :: u8 where
  "SPIKE_RATE = 4"

definition WARMUP :: nat where
  "WARMUP = 3"

record ring =
  rg_samples :: "nat list"
  rg_next :: nat

definition ring_default :: ring where
  "ring_default = \<lparr>rg_samples = [], rg_next = 0\<rparr>"

definition ring_record :: "nat \<Rightarrow> ring \<Rightarrow> ring" where
  "ring_record micros r =
     (if length (rg_samples r) < RING then r\<lparr>rg_samples := rg_samples r @ [micros]\<rparr>
      else r\<lparr>rg_samples := (rg_samples r)[rg_next r := micros], rg_next := (rg_next r + 1) mod RING\<rparr>)"

definition ring_percentile :: "nat \<Rightarrow> ring \<Rightarrow> nat" where
  "ring_percentile p r =
     (if rg_samples r = [] then 0
      else let sorted = sort (rg_samples r);
               rank = (p * (length sorted - 1)) div 100 in
        sorted ! rank)"

definition ring_len :: "ring \<Rightarrow> nat" where
  "ring_len r = length (rg_samples r)"

definition budget_micros :: "string \<Rightarrow> nat" where
  "budget_micros transport =
     (if transport \<in> {''file'', ''udp'', ''tcp''} then 100000
      else if transport \<in> {''websocket'', ''http''} then 120000
      else 160000)"

section \<open>The test\<close>

record low_latency =
  ll_node :: string
  ll_transports :: "adapter list"
  ll_stress :: "stress option"
  ll_round :: nat
  ll_rings :: "(string, ring) btree"
  ll_seen :: "(string, string) btree"
  ll_per_round :: "nat option"
  ll_cursor :: nat

definition low_latency_new :: "string \<Rightarrow> adapter list \<Rightarrow> low_latency" where
  "low_latency_new node transports =
     \<lparr>ll_node = node, ll_transports = transports, ll_stress = None, ll_round = 0, ll_rings = [],
      ll_seen = [], ll_per_round = None, ll_cursor = 0\<rparr>"

definition low_latency_at :: "stress \<Rightarrow> low_latency \<Rightarrow> low_latency" where
  "low_latency_at level L = L\<lparr>ll_stress := Some level\<rparr>"

definition low_latency_over :: "adapter list \<Rightarrow> low_latency \<Rightarrow> low_latency" where
  "low_latency_over transports L = L\<lparr>ll_transports := transports\<rparr>"

definition low_latency_per_round :: "nat \<Rightarrow> low_latency \<Rightarrow> low_latency" where
  "low_latency_per_round pairs L = L\<lparr>ll_per_round := Some (max pairs 1)\<rparr>"

definition latency_sample :: "low_latency \<Rightarrow> string \<Rightarrow> contract \<Rightarrow> nat \<Rightarrow> nat" where
  "latency_sample L transport c measured =
     (case ll_stress L of
        Some level \<Rightarrow>
          if transport \<noteq> ''file''
             \<and> fires_keyed (scaled_rate SPIKE_RATE level)
                 (''spike/'' @ transport @ ''/'' @ contract_name c) (ll_round L)
          then budget_micros transport * 3 else measured
      | None \<Rightarrow> measured)"

definition latency_health ::
    "(nat \<Rightarrow> string) \<Rightarrow> low_latency \<Rightarrow> string \<Rightarrow> string \<Rightarrow> int \<Rightarrow> health_record" where
  "latency_health millis L scope transport now =
     (let (p50, p99, n) =
        (case btree_get (ll_rings L) scope of
           Some r \<Rightarrow> (ring_percentile 50 r, ring_percentile 99 r, ring_len r)
         | None \<Rightarrow> (0, 0, 0));
          budget = budget_micros transport in
      if n = 0
      then \<lparr>hr_scope = scope, hr_health = Fine, hr_severity = 0, hr_evidence = ''warming up'',
            hr_observed = now\<rparr>
      else let (h, severity) =
          (if p99 \<le> budget then (Fine, 0) else if p99 \<le> budget * 2 then (Stressed, 45) else (Done, 90)) in
        \<lparr>hr_scope = scope, hr_health = h, hr_severity = severity,
         hr_evidence = ''p50 '' @ millis p50 @ '' p99 '' @ millis p99 @ '' (budget '' @ millis budget
           @ '') over '' @ decimal n,
         hr_observed = now\<rparr>)"

definition latency_yellow :: "string \<Rightarrow> string \<Rightarrow> int \<Rightarrow> health_record" where
  "latency_yellow scope why now =
     \<lparr>hr_scope = scope, hr_health = Stressed, hr_severity = 40, hr_evidence = why, hr_observed = now\<rparr>"

definition latency_red :: "string \<Rightarrow> string \<Rightarrow> int \<Rightarrow> health_record" where
  "latency_red scope why now =
     \<lparr>hr_scope = scope, hr_health = Done, hr_severity = 90, hr_evidence = why, hr_observed = now\<rparr>"

text \<open>The body of the loop: one pair, timed and recorded.\<close>

definition latency_pair ::
    "(nat \<Rightarrow> string) \<Rightarrow> codec_api \<Rightarrow> (nat \<times> contract \<Rightarrow> nat) \<Rightarrow> int \<Rightarrow> nat \<times> contract
       \<Rightarrow> low_latency \<times> snapshot \<Rightarrow> low_latency \<times> snapshot" where
  "latency_pair millis W elapsed now pair = (\<lambda>(L, snap).
     (let T = ll_transports L ! fst pair;
          c = snd pair;
          name = ad_transport T;
          scope = ll_node L @ ''/'' @ name @ ''/'' @ contract_name c;
          L = L\<lparr>ll_seen := btree_insert scope name (ll_seen L)\<rparr>;
          payload = st_bytes (contract_stream W c);
          answer = ad_exchange T payload;
          measured = min (elapsed pair) (2 ^ 64 - 1);
          (L, record) =
            (case answer of
               Returned back \<Rightarrow>
                 if back = payload
                 then let L = (if ll_round L > WARMUP
                               then L\<lparr>ll_rings := btree_upsert scope ring_default
                                        (ring_record (latency_sample L name c measured)) (ll_rings L)\<rparr>
                               else L) in
                      (L, latency_health millis L scope name now)
                 else (L, latency_red scope ''what came back did not match'' now)
             | ExOneSided why \<Rightarrow> (L, latency_yellow scope why now)
             | ExFailed why \<Rightarrow> (L, latency_red scope why now)) in
      (L, snap @ [RecordHealth record])))"

definition latency_scope :: "low_latency \<Rightarrow> nat \<times> contract \<Rightarrow> string" where
  "latency_scope L pair =
     ll_node L @ ''/'' @ ad_transport (ll_transports L ! fst pair) @ ''/'' @ contract_name (snd pair)"

definition low_latency_tick ::
    "(nat \<Rightarrow> string) \<Rightarrow> codec_api \<Rightarrow> (nat \<times> contract \<Rightarrow> nat) \<Rightarrow> int \<Rightarrow> low_latency
       \<Rightarrow> low_latency \<times> snapshot" where
  "low_latency_tick millis W elapsed now L =
     (let L = L\<lparr>ll_round := ll_round L + 1\<rparr>;
          pairs = slice (all_pairs (ll_transports L)) (ll_cursor L) (ll_per_round L);
          driven = map (latency_scope L) pairs;
          (L, snap) = fold (latency_pair millis W elapsed now) pairs (L, []);
          snap = snap @ map (\<lambda>(scope, name). RecordHealth (latency_health millis L scope name now))
                   (filter (\<lambda>(scope, name). scope \<notin> set driven) (ll_seen L));
          L = (case ll_per_round L of
                 Some per_round \<Rightarrow>
                   let matrix = max (length (ll_transports L) * length CONTRACTS) 1 in
                   L\<lparr>ll_cursor := (ll_cursor L + min per_round matrix) mod matrix\<rparr>
               | None \<Rightarrow> L) in
      (L, snap))"

section \<open>The ring holds the latest samples\<close>

text \<open>What a ring promises: the last 256 samples, oldest first.\<close>

definition ring_abs :: "ring \<Rightarrow> nat list" where
  "ring_abs r = drop (rg_next r) (rg_samples r) @ take (rg_next r) (rg_samples r)"

definition ring_inv :: "ring \<Rightarrow> bool" where
  "ring_inv r \<longleftrightarrow> (length (rg_samples r) < 256 \<and> rg_next r = 0)
     \<or> (length (rg_samples r) = 256 \<and> rg_next r < 256)"

definition latest :: "nat list \<Rightarrow> nat list" where
  "latest xs = drop (length xs - 256) xs"

lemma ring_inv_record: "ring_inv r \<Longrightarrow> ring_inv (ring_record x r)"
  by (auto simp: ring_inv_def ring_record_def RING_def)

lemma ring_abs_record:
  assumes "ring_inv r"
  shows "ring_abs (ring_record x r) = latest (ring_abs r @ [x])"
proof (cases "length (rg_samples r) < 256")
  case True
  with assms show ?thesis by (simp add: ring_inv_def ring_abs_def ring_record_def RING_def latest_def)
next
  case False
  let ?s = "rg_samples r" and ?n = "rg_next r"
  from assms False have len: "length ?s = 256" and n: "?n < 256" by (auto simp: ring_inv_def)
  have split: "?s = take ?n ?s @ ?s ! ?n # drop (Suc ?n) ?s"
    using id_take_nth_drop [of ?n ?s] len n by simp
  have new: "?s[?n := x] = take ?n ?s @ x # drop (Suc ?n) ?s"
    using upd_conv_take_nth_drop [of ?n ?s x] len n by simp
  have old: "drop ?n ?s = ?s ! ?n # drop (Suc ?n) ?s"
    using Cons_nth_drop_Suc [of ?n ?s] len n by simp
  have "latest (ring_abs r @ [x]) = drop (Suc ?n) ?s @ take ?n ?s @ [x]"
    using len n by (simp add: latest_def ring_abs_def old)
  moreover have "ring_abs (ring_record x r) = drop (Suc ?n) ?s @ take ?n ?s @ [x]"
  proof (cases "?n = 255")
    case True
    then show ?thesis using len new by (simp add: ring_abs_def ring_record_def RING_def)
  next
    case False
    with n have "(?n + 1) mod 256 = Suc ?n" by simp
    then show ?thesis
      using len n False by (simp add: ring_abs_def ring_record_def RING_def new min_def)
  qed
  ultimately show ?thesis by simp
qed

lemma latest_append: "latest (latest xs @ ys) = latest (xs @ ys)"
  by (cases "length xs \<le> 256") (simp_all add: latest_def add.commute)

lemma ring_history: "ring_inv (fold ring_record xs r) \<and> ring_abs (fold ring_record xs r) = latest (ring_abs r @ xs)"
  if "ring_inv r"
  using that
proof (induction xs arbitrary: r)
  case Nil
  then show ?case by (auto simp: latest_def ring_abs_def ring_inv_def)
next
  case (Cons x xs)
  then show ?case by (simp add: ring_inv_record ring_abs_record latest_append)
qed

text \<open>A ring refines the list of the last 256 samples. Whatever was recorded, what it holds is
  the latest of it, each sample as often, and read from its next slot it is in the order recorded.\<close>

theorem ring_holds_the_latest:
  "ring_abs (fold ring_record xs ring_default) = latest xs
   \<and> mset (rg_samples (fold ring_record xs ring_default)) = mset (latest xs)"
proof -
  have "ring_inv ring_default" "ring_abs ring_default = []"
    by (simp_all add: ring_inv_def ring_default_def ring_abs_def)
  with ring_history [of ring_default xs]
  have abs: "ring_abs (fold ring_record xs ring_default) = latest xs" by simp
  have "mset (ring_abs r) = mset (rg_samples r)" for r
    unfolding ring_abs_def mset_append
    by (metis append_take_drop_id mset_append union_commute)
  with abs show ?thesis by metis
qed

section \<open>Percentiles\<close>

lemma sorted_nth_gt:
  assumes "sorted xs" "k < length xs"
  shows "t < xs ! k \<longleftrightarrow> length (filter (\<lambda>x. x \<le> t) xs) \<le> k"
  using assms
proof (induction xs arbitrary: k)
  case (Cons x xs)
  show ?case
  proof (cases "x \<le> t")
    case True
    with Cons show ?thesis by (cases k) auto
  next
    case False
    with Cons.prems have "filter (\<lambda>y. y \<le> t) (x # xs) = []" by (auto simp: filter_empty_conv)
    moreover have "t < (x # xs) ! k"
      using False Cons.prems nth_mem [of k "x # xs"] by (auto simp: not_le intro: less_le_trans)
    ultimately show ?thesis by simp
  qed
qed simp

lemma rank_lt: "p \<le> 100 \<Longrightarrow> 0 < n \<Longrightarrow> p * (n - 1) div 100 < n" for p n :: nat
proof -
  assume "p \<le> 100" "0 < n"
  then have "p * (n - 1) div 100 \<le> 100 * (n - 1) div 100" by (intro div_le_mono mult_le_mono1)
  with \<open>0 < n\<close> show ?thesis by simp
qed

text \<open>The \<open>p\<close>th percentile of a ring is one of its samples, and it is over a threshold exactly
  when the samples within the threshold are too few to reach its rank; so a full ring's 99th
  percentile tolerates exactly three samples over it, and a percentile never falls as \<open>p\<close> grows.\<close>

theorem percentile_counts_samples:
  assumes "rg_samples r \<noteq> []" and "p \<le> 100"
  shows "ring_percentile p r \<in> set (rg_samples r)
    \<and> (t < ring_percentile p r \<longleftrightarrow>
         length (filter (\<lambda>x. x \<le> t) (rg_samples r)) \<le> p * (length (rg_samples r) - 1) div 100)
    \<and> (length (rg_samples r) = 256 \<longrightarrow>
         (t < ring_percentile 99 r \<longleftrightarrow> 4 \<le> length (filter (\<lambda>x. t < x) (rg_samples r))))
    \<and> (q \<le> p \<longrightarrow> ring_percentile q r \<le> ring_percentile p r)"
proof -
  let ?s = "rg_samples r"
  have count: "length (filter P (sort ?s)) = length (filter P ?s)" for P
    by (metis mset_filter mset_sort size_mset)
  have over: "t < ring_percentile p r \<longleftrightarrow> length (filter (\<lambda>x. x \<le> t) ?s) \<le> p * (length ?s - 1) div 100"
    if "p \<le> 100" for p
    using assms(1) sorted_nth_gt [of "sort ?s" "p * (length ?s - 1) div 100" t] rank_lt [OF that, of "length ?s"]
    by (simp add: ring_percentile_def Let_def count)
  have "ring_percentile p r \<in> set ?s"
    using assms rank_lt [OF assms(2), of "length ?s"] nth_mem [of _ "sort ?s"]
    by (simp add: ring_percentile_def Let_def)
  moreover have "t < ring_percentile 99 r \<longleftrightarrow> 4 \<le> length (filter (\<lambda>x. t < x) ?s)" if "length ?s = 256"
    using over [of 99] sum_length_filter_compl [of "\<lambda>x. x \<le> t" ?s] that by (simp add: not_le) arith
  moreover have "ring_percentile q r \<le> ring_percentile p r" if "q \<le> p"
  proof -
    have "q * (length ?s - 1) div 100 \<le> p * (length ?s - 1) div 100"
      using that by (intro div_le_mono mult_le_mono1)
    with assms rank_lt [OF assms(2), of "length ?s"] show ?thesis
      by (simp add: ring_percentile_def Let_def sorted_nth_mono)
  qed
  ultimately show ?thesis using over [OF assms(2)] by blast
qed

theorem percentile_counts_samples_witness:
  "ring_percentile 50 \<lparr>rg_samples = [3, 1, 2], rg_next = 0\<rparr> \<in> set [3, 1, 2]
   \<and> 1 < ring_percentile 50 \<lparr>rg_samples = [3, 1, 2], rg_next = 0\<rparr>"
  using percentile_counts_samples [of "\<lparr>rg_samples = [3, 1, 2], rg_next = 0\<rparr>" 50 1] by simp

section \<open>The board\<close>

lemma latency_pair_fields:
  "ll_transports (fst (latency_pair millis W elapsed now pair Ls)) = ll_transports (fst Ls)"
  "ll_node (fst (latency_pair millis W elapsed now pair Ls)) = ll_node (fst Ls)"
  "ll_per_round (fst (latency_pair millis W elapsed now pair Ls)) = ll_per_round (fst Ls)"
  "ll_seen (fst (latency_pair millis W elapsed now pair Ls)) =
     btree_insert (latency_scope (fst Ls) pair) (ad_transport (ll_transports (fst Ls) ! fst pair)) (ll_seen (fst Ls))"
  by (cases Ls; simp add: latency_pair_def latency_scope_def Let_def split: exchange.splits)+

lemma hr_scope_latency [simp]:
  "hr_scope (latency_health millis L scope name now) = scope"
  "hr_scope (latency_yellow scope why now) = scope" "hr_scope (latency_red scope why now) = scope"
  by (auto simp: latency_health_def latency_yellow_def latency_red_def Let_def split: prod.splits)

lemma latency_pair_scope:
  "hr_scope ` set (recorded (snd (latency_pair millis W elapsed now pair Ls))) =
     insert (latency_scope (fst Ls) pair) (hr_scope ` set (recorded (snd Ls)))"
  by (cases Ls) (simp add: latency_pair_def latency_scope_def Let_def split: exchange.splits)

lemma latency_run_scopes:
  "fst ` set (ll_seen (fst (fold (latency_pair millis W elapsed now) ps Ls))) =
     fst ` set (ll_seen (fst Ls)) \<union> latency_scope (fst Ls) ` set ps"
  "hr_scope ` set (recorded (snd (fold (latency_pair millis W elapsed now) ps Ls))) =
     hr_scope ` set (recorded (snd Ls)) \<union> latency_scope (fst Ls) ` set ps"
proof (induction ps arbitrary: Ls)
  case (Cons p ps)
  have same: "latency_scope (fst (latency_pair millis W elapsed now p Ls)) q = latency_scope (fst Ls) q" for q Ls
    by (simp add: latency_scope_def latency_pair_fields)
  {
    case 1
    show ?case by (simp add: Cons(1) same latency_pair_fields fst_set_btree_insert)
  next
    case 2
    show ?case by (simp add: Cons(2) same latency_pair_scope)
  }
qed simp_all

text \<open>A round of the low latency test keeps every pair on the board: the snapshot has a health
  record for each pair it timed and for each pair any earlier round timed, and for no other.\<close>

theorem latency_round_keeps_every_pair:
  "hr_scope ` set (recorded (snd (low_latency_tick millis W elapsed now L))) =
     fst ` set (ll_seen L) \<union> latency_scope L ` set (slice (all_pairs (ll_transports L)) (ll_cursor L) (ll_per_round L))"
proof -
  let ?L = "L\<lparr>ll_round := ll_round L + 1\<rparr>"
  let ?ps = "slice (all_pairs (ll_transports L)) (ll_cursor L) (ll_per_round L)"
  let ?run = "fold (latency_pair millis W elapsed now) ?ps (?L, [])"
  have same: "latency_scope (L\<lparr>ll_round := r\<rparr>) q = latency_scope L q" for r q
    by (simp add: latency_scope_def)
  note runs = latency_run_scopes [of millis W elapsed now ?ps "(?L, [])"]
  have "recorded (snd (low_latency_tick millis W elapsed now L)) =
      recorded (snd ?run) @ map (\<lambda>(scope, name). latency_health millis (fst ?run) scope name now)
        (filter (\<lambda>(scope, name). scope \<notin> latency_scope L ` set ?ps) (ll_seen (fst ?run)))"
    by (simp add: low_latency_tick_def Let_def case_prod_beta same recorded_map_pair)
  moreover have "hr_scope ` set (map (\<lambda>(scope, name). latency_health millis (fst ?run) scope name now)
      (filter (\<lambda>(scope, name). scope \<notin> latency_scope L ` set ?ps) (ll_seen (fst ?run)))) =
      fst ` set (ll_seen (fst ?run)) - latency_scope L ` set ?ps"
    by (force simp: image_iff)
  ultimately show ?thesis using runs by (auto simp: same image_Un)
qed

text \<open>
  A pair that failed the round it was timed in and then waits is published from its ring alone: with
  no sample yet it reads green, where the round before read red.
\<close>

lemma waiting_pair_forgets_its_failure:
  "btree_get (ll_rings L) scope = None \<Longrightarrow>
     hr_health (latency_red scope why now) = Done
     \<and> hr_health (latency_health millis L scope name now) = Fine"
  by (simp add: latency_red_def latency_health_def)

end
