(* ===== verification/Retention.thy ===== *)
theory Retention
  imports Ledger "HOL-Library.Multiset"
begin

text \<open>
  The retention test (\<open>src/retention.rs\<close>): an item per class each simulated day, kept for ninety days
  and then archived, with sweeps missed at a level's rate. Simulated time is a number of seconds,
  the test's own argument. The archive's lock, which is never poisoned by this code, is not modelled.
\<close>

definition SECONDS_PER_DAY :: nat where
  "SECONDS_PER_DAY = 86400"

definition MISS_RATE :: u8 where
  "MISS_RATE = 5"

definition KEEP_DAYS :: nat where
  "KEEP_DAYS = 90"

definition MAX_DAYS_PER_TICK :: nat where
  "MAX_DAYS_PER_TICK = 60"

datatype retention_action = KeepIt | ArchiveIt

text \<open>The policy \<open>Windows\<close>.\<close>

definition action_for :: "string \<Rightarrow> nat \<Rightarrow> retention_action" where
  "action_for data_type age = (if age div SECONDS_PER_DAY < KEEP_DAYS then KeepIt else ArchiveIt)"

record archive_item =
  ai_data_type :: string
  ai_identifier :: string

text \<open>\<open>MemoryArchive::archive\<close>: what it holds afterwards, or the refusal of a poisoned identifier.\<close>

definition store_archive :: "archive_item \<Rightarrow> archive_item list \<Rightarrow> string + archive_item list" where
  "store_archive item held =
     (if prefix ''poison-'' (ai_identifier item)
      then Inl (''the archive store rejected '' @ ai_identifier item)
      else Inr (held @ [item]))"

record retained =
  re_contract :: contract
  re_created :: nat
  re_id :: nat

datatype sweep = Retain | Archive

definition SWEEPS :: "sweep list" where
  "SWEEPS = [Retain, Archive]"

fun sweep_name :: "sweep \<Rightarrow> string" where
  "sweep_name Retain = ''retain''"
| "sweep_name Archive = ''archive''"

record leaks =
  lk_retain :: "string list"
  lk_archive :: "string list"

record retention =
  rt_node :: string
  rt_store :: "archive_item list"
  rt_live :: "retained list"
  rt_archived :: "retained list"
  rt_round :: nat
  rt_emitted_days :: nat
  rt_next_id :: nat
  rt_stress :: "stress option"
  rt_standings :: "(string, standing) btree"

definition retention_new :: "string \<Rightarrow> retention" where
  "retention_new node =
     \<lparr>rt_node = node, rt_store = [], rt_live = [], rt_archived = [], rt_round = 0, rt_emitted_days = 0,
      rt_next_id = 0, rt_stress = None, rt_standings = []\<rparr>"

definition retention_at :: "stress \<Rightarrow> retention \<Rightarrow> retention" where
  "retention_at level R = R\<lparr>rt_stress := Some level\<rparr>"

text \<open>One day's items, one per class.\<close>

definition create_day :: "retention \<Rightarrow> retention" where
  "create_day R =
     (let day = rt_emitted_days R + 1; created = day * SECONDS_PER_DAY in
      fold (\<lambda>c R. R\<lparr>rt_live := rt_live R @ [\<lparr>re_contract = c, re_created = created, re_id = rt_next_id R\<rparr>],
                     rt_next_id := rt_next_id R + 1\<rparr>) CONTRACTS (R\<lparr>rt_emitted_days := day\<rparr>))"

definition create_through :: "nat \<Rightarrow> retention \<Rightarrow> retention" where
  "create_through now_secs R =
     (let today = now_secs div SECONDS_PER_DAY;
          target = min today (rt_emitted_days R + MAX_DAYS_PER_TICK) in
      (create_day ^^ (target - rt_emitted_days R)) R)"

definition age_of :: "nat \<Rightarrow> retained \<Rightarrow> nat" where
  "age_of now_secs item = now_secs - re_created item"

definition miss :: "retention \<Rightarrow> string \<Rightarrow> contract \<Rightarrow> bool" where
  "miss R kind c =
     (case rt_stress R of
        None \<Rightarrow> False
      | Some level \<Rightarrow> fires_keyed (scaled_rate MISS_RATE level) (kind @ ''/'' @ contract_name c) (rt_round R))"

definition archive_identifier :: "bool \<Rightarrow> retained \<Rightarrow> string" where
  "archive_identifier poisoned item =
     (if poisoned then ''poison-'' @ contract_name (re_contract item) @ ''#'' @ decimal (re_id item)
      else contract_name (re_contract item) @ ''#'' @ decimal (re_id item))"

definition try_archive ::
    "retained \<Rightarrow> retention \<times> leaks \<times> retained list \<Rightarrow> retention \<times> leaks \<times> retained list" where
  "try_archive item = (\<lambda>(R, lk, kept).
     (let name = contract_name (re_contract item) in
      if miss R ''archive-skip'' (re_contract item)
      then (R, lk\<lparr>lk_retain := name # lk_retain lk\<rparr>, kept @ [item])
      else let poisoned = miss R ''archive-fault'' (re_contract item) in
        (case store_archive \<lparr>ai_data_type = name, ai_identifier = archive_identifier poisoned item\<rparr> (rt_store R) of
           Inl _ \<Rightarrow> (R, lk\<lparr>lk_archive := name # lk_archive lk\<rparr>, kept @ [item])
         | Inr held \<Rightarrow> (R\<lparr>rt_store := held, rt_archived := rt_archived R @ [item]\<rparr>, lk, kept))))"

definition sweep_live :: "nat \<Rightarrow> retention \<Rightarrow> retention \<times> leaks" where
  "sweep_live now_secs R =
     (let (R, lk, kept) =
        fold (\<lambda>item (R, lk, kept).
            case action_for (contract_name (re_contract item)) (age_of now_secs item) of
              KeepIt \<Rightarrow> (R, lk, kept @ [item])
            | ArchiveIt \<Rightarrow> try_archive item (R, lk, kept))
          (rt_live R) (R\<lparr>rt_live := []\<rparr>, \<lparr>lk_retain = [], lk_archive = []\<rparr>, []) in
      (R\<lparr>rt_live := kept\<rparr>, lk))"

definition count_of :: "contract \<Rightarrow> retained list \<Rightarrow> nat" where
  "count_of c items = length (filter (\<lambda>i. re_contract i = c) items)"

definition retain_line :: "retention \<Rightarrow> contract \<Rightarrow> leaks \<Rightarrow> string" where
  "retain_line R c lk =
     (if contract_name c \<in> set (lk_retain lk) then ''retention leak: an item past its window is still live''
      else decimal (count_of c (rt_live R)) @ '' retained within the window'')"

definition archive_line :: "retention \<Rightarrow> contract \<Rightarrow> leaks \<Rightarrow> string" where
  "archive_line R c lk =
     (if contract_name c \<in> set (lk_archive lk) then ''the archive store refused an item''
      else decimal (count_of c (rt_archived R)) @ '' archived'')"

definition retention_verdict ::
    "string \<Rightarrow> sweep \<Rightarrow> contract \<Rightarrow> leaks \<Rightarrow> int \<Rightarrow> retention \<Rightarrow> retention \<times> health_record" where
  "retention_verdict scope sw c lk now R =
     (let (leaked, line) =
        (case sw of
           Retain \<Rightarrow> (contract_name c \<in> set (lk_retain lk), retain_line R c lk)
         | Archive \<Rightarrow> (contract_name c \<in> set (lk_archive lk), archive_line R c lk));
          m = (if leaked then Fail else Pass);
          s = standing_record (m, line)
                (case btree_get (rt_standings R) scope of None \<Rightarrow> standing_default | Some s \<Rightarrow> s) in
      (R\<lparr>rt_standings := btree_insert scope s (rt_standings R)\<rparr>, standing_health s scope now))"

definition retention_scope :: "retention \<Rightarrow> sweep \<times> contract \<Rightarrow> string" where
  "retention_scope R = (\<lambda>(sw, c). rt_node R @ ''/'' @ sweep_name sw @ ''/'' @ contract_name c)"

definition retention_tick :: "int \<Rightarrow> nat \<Rightarrow> retention \<Rightarrow> retention \<times> snapshot" where
  "retention_tick now now_secs R =
     (let R = R\<lparr>rt_round := rt_round R + 1\<rparr>;
          R = create_through now_secs R;
          (R, lk) = sweep_live now_secs R in
      fold (\<lambda>sc (R, snap).
          let (R, r) = retention_verdict (retention_scope R sc) (fst sc) (snd sc) lk now R in
          (R, snap @ [RecordHealth r]))
        (List.product SWEEPS CONTRACTS) (R, []))"

section \<open>A sweep\<close>

definition aged :: "nat \<Rightarrow> retained \<Rightarrow> bool" where
  "aged now_secs item \<longleftrightarrow> 90 \<le> (now_secs - re_created item) div 86400"

definition skipped :: "retention \<Rightarrow> retained \<Rightarrow> bool" where
  "skipped R item \<longleftrightarrow> miss R ''archive-skip'' (re_contract item)"

definition refused :: "retention \<Rightarrow> retained \<Rightarrow> bool" where
  "refused R item \<longleftrightarrow> \<not> skipped R item \<and> miss R ''archive-fault'' (re_contract item)"

definition archives :: "nat \<Rightarrow> retention \<Rightarrow> retained \<Rightarrow> bool" where
  "archives now_secs R item \<longleftrightarrow> aged now_secs item \<and> \<not> skipped R item \<and> \<not> refused R item"

lemma not_poisoned: "\<not> prefix ''poison-'' (archive_identifier False item)"
  by (cases "re_contract item") (simp_all add: archive_identifier_def)

lemma poisoned: "prefix ''poison-'' (archive_identifier True item)"
  by (simp add: archive_identifier_def)

definition stored :: "retained \<Rightarrow> archive_item" where
  "stored item = \<lparr>ai_data_type = contract_name (re_contract item), ai_identifier = archive_identifier False item\<rparr>"

definition class_of :: "retained \<Rightarrow> string" where
  "class_of item = contract_name (re_contract item)"

lemma sweep_step:
  "(case action_for (contract_name (re_contract item)) (age_of t item) of
      KeepIt \<Rightarrow> (S, lk, kept @ [item]) | ArchiveIt \<Rightarrow> try_archive item (S, lk, kept)) =
   (S\<lparr>rt_store := rt_store S @ (if archives t S item then [stored item] else []),
      rt_archived := rt_archived S @ (if archives t S item then [item] else [])\<rparr>,
    \<lparr>lk_retain = (if aged t item \<and> skipped S item then [class_of item] else []) @ lk_retain lk,
     lk_archive = (if aged t item \<and> refused S item then [class_of item] else []) @ lk_archive lk\<rparr>,
    kept @ (if archives t S item then [] else [item]))"
  by (auto simp: action_for_def age_of_def aged_def SECONDS_PER_DAY_def KEEP_DAYS_def try_archive_def
      Let_def skipped_def refused_def archives_def store_archive_def not_poisoned poisoned class_of_def
      stored_def)

lemma miss_cong: "rt_stress S = rt_stress R \<Longrightarrow> rt_round S = rt_round R \<Longrightarrow> miss S = miss R"
  by (simp add: miss_def fun_eq_iff split: option.splits)

lemma archives_cong:
  assumes "rt_stress S = rt_stress R" "rt_round S = rt_round R"
  shows "archives t S = archives t R" "skipped S = skipped R" "refused S = refused R"
  using miss_cong [OF assms] by (simp_all add: archives_def skipped_def refused_def fun_eq_iff)

lemma archives_update [simp]:
  "archives t (S\<lparr>rt_store := a, rt_archived := b\<rparr>) = archives t S"
  "skipped (S\<lparr>rt_store := a, rt_archived := b\<rparr>) = skipped S"
  "refused (S\<lparr>rt_store := a, rt_archived := b\<rparr>) = refused S"
  "archives t (S\<lparr>rt_live := l\<rparr>) = archives t S" "skipped (S\<lparr>rt_live := l\<rparr>) = skipped S"
  "refused (S\<lparr>rt_live := l\<rparr>) = refused S"
  by (rule archives_cong; simp)+

lemma sweep_fold:
  "fold (\<lambda>item (R, lk, kept).
      case action_for (contract_name (re_contract item)) (age_of t item) of
        KeepIt \<Rightarrow> (R, lk, kept @ [item]) | ArchiveIt \<Rightarrow> try_archive item (R, lk, kept)) items (S, lk, kept) =
   (S\<lparr>rt_store := rt_store S @ map stored (filter (archives t S) items),
      rt_archived := rt_archived S @ filter (archives t S) items\<rparr>,
    \<lparr>lk_retain = rev (map class_of (filter (\<lambda>i. aged t i \<and> skipped S i) items)) @ lk_retain lk,
     lk_archive = rev (map class_of (filter (\<lambda>i. aged t i \<and> refused S i) items)) @ lk_archive lk\<rparr>,
    kept @ filter (\<lambda>i. \<not> archives t S i) items)"
proof (induction items arbitrary: S lk kept)
  case (Cons i items)
  then show ?case by (simp add: sweep_step)
qed simp

lemma sweep_live_result:
  "sweep_live t R =
   (R\<lparr>rt_store := rt_store R @ map stored (filter (archives t R) (rt_live R)),
      rt_archived := rt_archived R @ filter (archives t R) (rt_live R),
      rt_live := filter (\<lambda>i. \<not> archives t R i) (rt_live R)\<rparr>,
    \<lparr>lk_retain = rev (map class_of (filter (\<lambda>i. aged t i \<and> skipped R i) (rt_live R))),
     lk_archive = rev (map class_of (filter (\<lambda>i. aged t i \<and> refused R i) (rt_live R)))\<rparr>)"
  by (simp add: sweep_live_def sweep_fold)

section \<open>What a day brings\<close>

text \<open>The \<open>n\<close>th item a test ever creates.\<close>

definition nth_item :: "nat \<Rightarrow> retained" where
  "nth_item n = \<lparr>re_contract = CONTRACTS ! (n mod 20), re_created = (n div 20 + 1) * 86400, re_id = n\<rparr>"

lemma create_fold:
  "fold (\<lambda>c R. R\<lparr>rt_live := rt_live R @ [\<lparr>re_contract = c, re_created = created, re_id = rt_next_id R\<rparr>],
                 rt_next_id := rt_next_id R + 1\<rparr>) cs R =
   R\<lparr>rt_live := rt_live R @
        map (\<lambda>k. \<lparr>re_contract = cs ! k, re_created = created, re_id = rt_next_id R + k\<rparr>) [0..<length cs],
     rt_next_id := rt_next_id R + length cs\<rparr>"
proof (induction cs rule: rev_induct)
  case (snoc c cs)
  then show ?case by (simp add: nth_append)
qed simp

lemma create_day_result:
  assumes "rt_next_id R = 20 * rt_emitted_days R"
  shows "create_day R =
    R\<lparr>rt_emitted_days := rt_emitted_days R + 1,
      rt_live := rt_live R @ map nth_item [rt_next_id R..<rt_next_id R + 20],
      rt_next_id := rt_next_id R + 20\<rparr>"
proof -
  have "map nth_item [20 * d..<20 * d + 20] =
      map (\<lambda>k. \<lparr>re_contract = CONTRACTS ! k, re_created = (d + 1) * 86400, re_id = 20 * d + k\<rparr>) [0..<20]" for d
    by (intro nth_equalityI) (simp_all add: nth_item_def)
  with assms show ?thesis unfolding create_day_def Let_def create_fold by (simp add: SECONDS_PER_DAY_def)
qed

section \<open>A test run\<close>

definition retention_start :: "string \<Rightarrow> stress option \<Rightarrow> retention" where
  "retention_start node level =
     (case level of None \<Rightarrow> retention_new node | Some l \<Rightarrow> retention_at l (retention_new node))"

definition retention_run :: "(int \<times> nat) list \<Rightarrow> retention \<Rightarrow> retention" where
  "retention_run ticks R = fold (\<lambda>(now, t) R. fst (retention_tick now t R)) ticks R"

text \<open>Nothing is lost and nothing is invented, and the store holds what was archived.\<close>

definition keeps_all :: "retention \<Rightarrow> bool" where
  "keeps_all R \<longleftrightarrow>
     rt_next_id R = 20 * rt_emitted_days R
     \<and> mset (rt_live R @ rt_archived R) = mset (map nth_item [0..<rt_next_id R])
     \<and> rt_store R = map stored (rt_archived R)"

lemma keeps_all_create_day: "keeps_all R \<Longrightarrow> keeps_all (create_day R)"
  using upt_add_eq_append [of 0 "rt_next_id R" 20] by (auto simp: keeps_all_def create_day_result)

lemma keeps_all_create_through: "keeps_all R \<Longrightarrow> keeps_all (create_through t R)"
proof -
  assume "keeps_all R"
  then have "keeps_all ((create_day ^^ n) R)" for n by (induction n) (simp_all add: keeps_all_create_day)
  then show ?thesis by (simp add: create_through_def Let_def)
qed

lemma keeps_all_sweep: "keeps_all R \<Longrightarrow> keeps_all (fst (sweep_live t R))"
  using multiset_partition [of "mset (rt_live R)" "archives t R"]
  by (simp add: keeps_all_def sweep_live_result mset_filter ac_simps)

definition has_leak :: "leaks \<Rightarrow> sweep \<times> contract \<Rightarrow> bool" where
  "has_leak lk = (\<lambda>(sw, c). contract_name c \<in> set (case sw of Retain \<Rightarrow> lk_retain lk | Archive \<Rightarrow> lk_archive lk))"

lemma retention_verdict_result:
  "fst (retention_verdict scope sw c lk now R) = R\<lparr>rt_standings := rt_standings (fst (retention_verdict scope sw c lk now R))\<rparr>"
  "hr_scope (snd (retention_verdict scope sw c lk now R)) = scope"
  "hr_health (snd (retention_verdict scope sw c lk now R)) = Done \<longleftrightarrow> has_leak lk (sw, c)"
  by (cases sw; simp add: retention_verdict_def standing_health_def standing_record_def has_leak_def Let_def)+

lemma retention_scope_update [simp]: "retention_scope (R\<lparr>rt_standings := st\<rparr>) = retention_scope R"
  by (simp add: retention_scope_def fun_eq_iff)

definition publish :: "leaks \<Rightarrow> int \<Rightarrow> sweep \<times> contract \<Rightarrow> retention \<times> snapshot \<Rightarrow> retention \<times> snapshot" where
  "publish lk now sc = (\<lambda>(R, snap).
     let (R, r) = retention_verdict (retention_scope R sc) (fst sc) (snd sc) lk now R in (R, snap @ [RecordHealth r]))"

lemma publish_step:
  obtains st r where "publish lk now sc (R, snap) = (R\<lparr>rt_standings := st\<rparr>, snap @ [RecordHealth r])"
    and "hr_scope r = retention_scope R sc" and "hr_health r = Done \<longleftrightarrow> has_leak lk sc"
proof -
  let ?v = "retention_verdict (retention_scope R sc) (fst sc) (snd sc) lk now R"
  note facts = retention_verdict_result [of "retention_scope R sc" "fst sc" "snd sc" lk now R]
  have "publish lk now sc (R, snap) = (fst ?v, snap @ [RecordHealth (snd ?v)])"
    by (simp add: publish_def case_prod_beta)
  also have "\<dots> = (R\<lparr>rt_standings := rt_standings (fst ?v)\<rparr>, snap @ [RecordHealth (snd ?v)])"
    by (rule arg_cong [OF facts(1), of "\<lambda>x. (x, snap @ [RecordHealth (snd ?v)])"])
  finally show thesis by (rule that) (simp_all add: facts(2,3))
qed

lemma publish_fold:
  "(\<exists>st. fst (fold (publish lk now) scs (R, snap)) = R\<lparr>rt_standings := st\<rparr>)
   \<and> map (\<lambda>r. (hr_scope r, hr_health r = Done)) (recorded (snd (fold (publish lk now) scs (R, snap)))) =
     map (\<lambda>r. (hr_scope r, hr_health r = Done)) (recorded snap) @ map (\<lambda>sc. (retention_scope R sc, has_leak lk sc)) scs"
proof (induction scs arbitrary: R snap)
  case Nil
  then show ?case by (auto intro: exI [of _ "rt_standings R"])
next
  case (Cons sc scs)
  show ?case
  proof (cases rule: publish_step [where lk = lk and now = now and sc = sc and R = R and snap = snap])
    case (1 st r)
    with Cons.IH [of "R\<lparr>rt_standings := st\<rparr>" "snap @ [RecordHealth r]"] show ?thesis by simp
  qed
qed

lemma retention_tick_publish:
  "retention_tick now t R =
     (let S = create_through t (R\<lparr>rt_round := rt_round R + 1\<rparr>) in
      fold (publish (snd (sweep_live t S)) now) (List.product SWEEPS CONTRACTS) (fst (sweep_live t S), []))"
  by (simp add: retention_tick_def publish_def [abs_def] Let_def case_prod_beta cong: fold_cong)

lemma create_through_keeps [simp]:
  "rt_round (create_through t R) = rt_round R" "rt_stress (create_through t R) = rt_stress R"
  "rt_archived (create_through t R) = rt_archived R" "rt_node (create_through t R) = rt_node R"
proof -
  have day: "rt_round (create_day R) = rt_round R" "rt_stress (create_day R) = rt_stress R"
    "rt_archived (create_day R) = rt_archived R" "rt_node (create_day R) = rt_node R" for R
    unfolding create_day_def Let_def create_fold by simp_all
  have "rt_round ((create_day ^^ n) R) = rt_round R \<and> rt_stress ((create_day ^^ n) R) = rt_stress R
      \<and> rt_archived ((create_day ^^ n) R) = rt_archived R \<and> rt_node ((create_day ^^ n) R) = rt_node R" for n
    by (induction n) (simp_all add: day)
  then show "rt_round (create_through t R) = rt_round R" "rt_stress (create_through t R) = rt_stress R"
    "rt_archived (create_through t R) = rt_archived R" "rt_node (create_through t R) = rt_node R"
    by (simp_all add: create_through_def Let_def)
qed

text \<open>The state after a tick, its standings apart.\<close>

lemma tick_state:
  obtains st S where "S = create_through t (R\<lparr>rt_round := rt_round R + 1\<rparr>)"
    and "fst (retention_tick now t R) = (fst (sweep_live t S))\<lparr>rt_standings := st\<rparr>"
  using publish_fold [THEN conjunct1, of "snd (sweep_live t (create_through t (R\<lparr>rt_round := rt_round R + 1\<rparr>)))" now
      "List.product SWEEPS CONTRACTS" "fst (sweep_live t (create_through t (R\<lparr>rt_round := rt_round R + 1\<rparr>)))" "[]"]
  unfolding retention_tick_publish Let_def by blast

lemma keeps_all_standings [simp]: "keeps_all (R\<lparr>rt_standings := st\<rparr>) = keeps_all R"
  by (simp add: keeps_all_def)

lemma keeps_all_tick: "keeps_all R \<Longrightarrow> keeps_all (fst (retention_tick now t R))"
proof -
  assume "keeps_all R"
  then have "keeps_all (R\<lparr>rt_round := rt_round R + 1\<rparr>)" by (simp add: keeps_all_def)
  then have swept: "keeps_all (fst (sweep_live t (create_through t (R\<lparr>rt_round := rt_round R + 1\<rparr>))))"
    by (intro keeps_all_sweep keeps_all_create_through)
  obtain st where st: "fst (retention_tick now t R) =
      (fst (sweep_live t (create_through t (R\<lparr>rt_round := rt_round R + 1\<rparr>))))\<lparr>rt_standings := st\<rparr>"
    by (rule tick_state) blast
  show ?thesis unfolding st using swept by simp
qed

lemma has_leak_sweep:
  "has_leak (snd (sweep_live t S)) (sw, c) \<longleftrightarrow>
     list_ex (\<lambda>i. re_contract i = c \<and> aged t i \<and> (case sw of Retain \<Rightarrow> skipped S i | Archive \<Rightarrow> refused S i))
       (filter (\<lambda>i. \<not> archives t S i) (rt_live S))"
proof -
  have name: "contract_name a = contract_name b \<longleftrightarrow> a = b" for a b
    using distinct_contract_names set_CONTRACTS unfolding distinct_map inj_on_def by blast
  show ?thesis
    by (cases sw) (auto simp: has_leak_def sweep_live_result class_of_def list_ex_iff name archives_def image_iff
        refused_def)
qed

lemma tick_lists:
  "rt_live (fst (retention_tick now t R)) =
     (let S = create_through t (R\<lparr>rt_round := rt_round R + 1\<rparr>) in filter (\<lambda>i. \<not> archives t S i) (rt_live S))"
  "rt_archived (fst (retention_tick now t R)) =
     rt_archived R @ (let S = create_through t (R\<lparr>rt_round := rt_round R + 1\<rparr>) in filter (archives t S) (rt_live S))"
proof -
  obtain st where st: "fst (retention_tick now t R) =
      (fst (sweep_live t (create_through t (R\<lparr>rt_round := rt_round R + 1\<rparr>))))\<lparr>rt_standings := st\<rparr>"
    by (rule tick_state) blast
  show "rt_live (fst (retention_tick now t R)) =
     (let S = create_through t (R\<lparr>rt_round := rt_round R + 1\<rparr>) in filter (\<lambda>i. \<not> archives t S i) (rt_live S))"
    "rt_archived (fst (retention_tick now t R)) =
     rt_archived R @ (let S = create_through t (R\<lparr>rt_round := rt_round R + 1\<rparr>) in filter (archives t S) (rt_live S))"
    unfolding st sweep_live_result Let_def by simp_all
qed

lemma archived_were_aged:
  "list_all (\<lambda>i. list_ex (\<lambda>(now, t). aged t i) ticks)
     (rt_archived (retention_run ticks (retention_start node level)))"
proof (induction ticks rule: rev_induct)
  case Nil
  then show ?case
    by (simp add: retention_run_def retention_start_def retention_new_def retention_at_def split: option.split)
next
  case (snoc u ticks)
  then show ?case
    by (cases u) (auto simp: retention_run_def tick_lists list_all_iff archives_def Let_def)
qed

text \<open>C35: over any run of the retention test at any level, nothing is lost, deleted or invented: the
  live and the archived items together are exactly the items created, twenty a day with their own
  numbers, the archive store holds exactly the archived ones, in the order they were archived, and an
  item is archived only by a tick at which its ninety days were over.\<close>

theorem retention_never_deletes:
  "let R = retention_run ticks (retention_start node level) in
     rt_next_id R = 20 * rt_emitted_days R
     \<and> mset (rt_live R @ rt_archived R) = mset (map nth_item [0..<20 * rt_emitted_days R])
     \<and> rt_store R = map stored (rt_archived R)
     \<and> list_all (\<lambda>i. list_ex (\<lambda>(now, t). 90 \<le> (t - re_created i) div 86400) ticks) (rt_archived R)"
proof -
  have "keeps_all (retention_start node level)"
    by (simp add: keeps_all_def retention_start_def retention_new_def retention_at_def split: option.split)
  then have "keeps_all (retention_run ticks (retention_start node level))"
    unfolding retention_run_def
    by (induction ticks rule: rev_induct) (simp_all add: keeps_all_tick case_prod_beta)
  then show ?thesis using archived_were_aged [of ticks node level] by (simp add: keeps_all_def Let_def aged_def)
qed

text \<open>A tick archives exactly the live items whose window of ninety days is over, less those whose
  sweep is missed or whose archive is refused this round; none of them is live past its window
  without its class published as failed at the sweep that missed it, and no sweep of a class is
  published as failed without such an item: leaks are never silent and never invented.\<close>

theorem leaks_are_published:
  "let S = create_through t (R\<lparr>rt_round := rt_round R + 1\<rparr>); (R', snap) = retention_tick now t R in
     rt_archived R' = rt_archived R @ filter (\<lambda>i. aged t i \<and> \<not> skipped S i \<and> \<not> refused S i) (rt_live S)
     \<and> filter (\<lambda>i. aged t i \<and> \<not> skipped S i \<and> \<not> refused S i) (rt_live R') = []
     \<and> map (\<lambda>r. (hr_scope r, hr_health r = Done)) (recorded snap) =
         map (\<lambda>(sw, c). (rt_node R @ ''/'' @ sweep_name sw @ ''/'' @ contract_name c,
                list_ex (\<lambda>i. re_contract i = c \<and> aged t i
                  \<and> (case sw of Retain \<Rightarrow> skipped S i | Archive \<Rightarrow> refused S i)) (rt_live R')))
           (List.product SWEEPS CONTRACTS)"
proof (cases rule: tick_state [where t = t and R = R and now = now])
  case (1 st S)
  have node: "retention_scope (fst (sweep_live t S)) (sw, c) = rt_node R @ ''/'' @ sweep_name sw @ ''/'' @ contract_name c"
    for sw c by (simp add: retention_scope_def sweep_live_result 1(1))
  note lists = tick_lists [of now t R, folded 1(1)]
  have "map (\<lambda>r. (hr_scope r, hr_health r = Done)) (recorded (snd (retention_tick now t R))) =
      map (\<lambda>(sw, c). (rt_node R @ ''/'' @ sweep_name sw @ ''/'' @ contract_name c,
                has_leak (snd (sweep_live t S)) (sw, c))) (List.product SWEEPS CONTRACTS)"
    unfolding retention_tick_publish Let_def 1(1) [symmetric] publish_fold [THEN conjunct2] by (simp add: node)
  then show ?thesis
    unfolding Let_def 1(1) [symmetric] case_prod_beta lists
    by (simp add: has_leak_sweep) (simp add: archives_def [abs_def] filter_empty_conv, blast)
qed

end
