(* ===== verification/Pickup.thy ===== *)
theory Pickup
  imports Files
begin

text \<open>
  The exclusive pickup (\<open>src/exclusive_claim/pickup.rs\<close>): a lane of items on disk, the locks its
  readers take by exclusive creation, the done records they sign. A reader is the file operations it
  still has to make; readers of any number of processes share the lane, and the step relation
  \<open>race_step\<close> lets any of them make its next one. Failures of the file system other than a lost
  race are not modelled, nor is the wrap of a process's 64-bit clock.
\<close>

section \<open>The lane and its records\<close>

definition KEYS :: nat where
  "KEYS = 2"

definition PER_KEY :: nat where
  "PER_KEY = 3"

definition SCANS :: nat where
  "SCANS = 64"

record processed =
  pr_item :: string
  pr_key :: nat
  pr_seq :: nat
  pr_holder :: string
  pr_order :: nat
  pr_injected :: bool

definition item_name :: "nat \<Rightarrow> nat \<Rightarrow> string" where
  "item_name key seq = ''item_'' @ decimal key @ ''_'' @ decimal seq"

text \<open>The names of the loop that stages a lane.\<close>

definition item_names :: "string list" where
  "item_names = [item_name key seq. key \<leftarrow> [0..<KEYS], seq \<leftarrow> [0..<PER_KEY]]"

text \<open>
  What \<open>stage_lane\<close> leaves under the lane's name once it is renamed into place, and the count it
  returns: nothing where a directory could not be made or renamed, the items whose write succeeded
  otherwise.
\<close>

definition stage_lane :: "bool \<Rightarrow> (string \<Rightarrow> bool) \<Rightarrow> (dir \<times> nat) option" where
  "stage_lane made written =
     (if \<not> made then None
      else let laid = filter written item_names in
        Some (fold (\<lambda>item d. btree_insert item ''x'' d) laid [], length laid))"

text \<open>The items in a lane: the names with the prefix and no dot.\<close>

definition lane_list :: "string \<Rightarrow> dir \<Rightarrow> string list" where
  "lane_list pre d = filter (\<lambda>name. prefix pre name \<and> CHR ''.'' \<notin> set name) (map fst d)"

text \<open>\<open>str::split_whitespace\<close>'s first word.\<close>

fun until_white :: "string \<Rightarrow> string" where
  "until_white [] = []"
| "until_white (c # s) = (if list_ex (\<lambda>w. prefix w (c # s)) white_space then [] else c # until_white s)"

definition first_word :: "string \<Rightarrow> string option" where
  "first_word s = (case until_white (strip_front white_space s) of [] \<Rightarrow> None | word \<Rightarrow> Some word)"

text \<open>\<open>item_<key>_<seq>\<close> as its key and its place, zeros where it does not parse.\<close>

definition parse_item :: "string \<Rightarrow> nat \<times> nat" where
  "parse_item name =
     (let parts = split_on (CHR ''_'') (strip_front [''item_''] name);
          number = (\<lambda>p. case parse_unsigned 64 p of Some n \<Rightarrow> n | None \<Rightarrow> 0) in
      (case parts of
         key # seq # _ \<Rightarrow> (number key, number seq)
       | [key] \<Rightarrow> (number key, 0)
       | [] \<Rightarrow> (0, 0)))"

definition lane_record :: "string \<times> bytes \<Rightarrow> processed option" where
  "lane_record = (\<lambda>(name, content).
     (case split_once ''.done.'' name of
        None \<Rightarrow> None
      | Some (item, holder) \<Rightarrow>
          let (key, seq) = parse_item item in
          Some \<lparr>pr_item = item, pr_key = key, pr_seq = seq, pr_holder = holder,
                pr_order = (case Option.bind (first_word content) (parse_unsigned 64) of
                              Some order \<Rightarrow> order | None \<Rightarrow> 0),
                pr_injected = contains ''injected'' content\<rparr>))"

definition lane_ledger :: "dir \<Rightarrow> processed list" where
  "lane_ledger d = List.map_filter lane_record d"

section \<open>A reader's operations\<close>

definition lock_name :: "string \<Rightarrow> string" where
  "lock_name item = with_extension ''lock'' item"

definition key_lock :: "nat \<Rightarrow> string" where
  "key_lock key = ''key_'' @ decimal key @ ''.lock''"

definition done_name :: "string \<Rightarrow> string \<Rightarrow> string" where
  "done_name item holder = with_extension (''done.'' @ holder) item"

definition done_note :: "nat \<Rightarrow> bool \<Rightarrow> string" where
  "done_note order injected = decimal order @ (if injected then '' injected'' else [])"

text \<open>
  The operations of \<open>per_item\<close>, \<open>per_key\<close> and \<open>process\<close> that touch what others share: taking an item's
  or a key's lock, reading an item, stamping it from the process's clock, creating its done record,
  writing that, and removing the item.
\<close>

datatype operation =
    TryItem string
  | TryKey nat
  | ReadItem string bool
  | Stamp string bool
  | Sign string bool nat
  | Write string bool nat
  | Consume string

definition consume_unless :: "bool \<Rightarrow> string \<Rightarrow> operation list" where
  "consume_unless injected item = (if injected then [] else [Consume item])"

text \<open>One operation of the reader signing as \<open>holder\<close>: the lane and the clock it leaves, and what it
  does next.\<close>

fun operate :: "string \<Rightarrow> operation \<Rightarrow> dir \<Rightarrow> nat \<Rightarrow> dir \<times> nat \<times> operation list" where
  "operate holder (TryItem item) d clock =
     (case create_new (lock_name item) d of
        None \<Rightarrow> (d, clock, [])
      | Some e \<Rightarrow> (e, clock, [ReadItem item False]))"
| "operate holder (TryKey key) d clock =
     (case create_new (key_lock key) d of
        None \<Rightarrow> (d, clock, [])
      | Some e \<Rightarrow> (e, clock, map (\<lambda>seq. ReadItem (item_name key seq) False) [0..<PER_KEY]))"
| "operate holder (ReadItem item injected) d clock =
     (case btree_get d item of
        None \<Rightarrow> (d, clock, [])
      | Some _ \<Rightarrow> (d, clock, [Stamp item injected]))"
| "operate holder (Stamp item injected) d clock = (d, clock + 1, [Sign item injected clock])"
| "operate holder (Sign item injected order) d clock =
     (case create_new (done_name item holder) d of
        None \<Rightarrow> (d, clock, consume_unless injected item)
      | Some e \<Rightarrow> (e, clock, Write item injected order # consume_unless injected item))"
| "operate holder (Write item injected order) d clock =
     (btree_insert (done_name item holder) (done_note order injected) d, clock, [])"
| "operate holder (Consume item) d clock = (btree_remove item d, clock, [])"

datatype way = PerItem | PerKey | WithoutClaiming

text \<open>What \<open>run\<close> does in a lane in one pass, given the names its listing saw.\<close>

fun pass :: "way \<Rightarrow> string list \<Rightarrow> operation list" where
  "pass PerItem names = map TryItem names"
| "pass PerKey names = map TryKey [0..<KEYS]"
| "pass WithoutClaiming names = map (\<lambda>name. ReadItem name True) names"

definition reader_way :: "bool \<Rightarrow> bool \<Rightarrow> way" where
  "reader_way ordered broken = (if broken then WithoutClaiming else if ordered then PerKey else PerItem)"

definition passes_of :: "way \<Rightarrow> nat" where
  "passes_of w = (if w = WithoutClaiming then 1 else SCANS)"

section \<open>Readers racing over a lane\<close>

record claim_world =
  cw_lane :: dir
  cw_clock :: "string \<Rightarrow> nat"
  cw_todo :: "string \<Rightarrow> operation list"
  cw_passes :: "string \<Rightarrow> nat"

text \<open>The process a holder signs for: a holder is \<open><process>-<reader>\<close>.\<close>

definition process_of :: "string \<Rightarrow> string" where
  "process_of holder = (case split_once ''-'' holder of None \<Rightarrow> holder | Some (process, _) \<Rightarrow> process)"

definition race_start :: "way \<Rightarrow> dir \<Rightarrow> claim_world" where
  "race_start w d =
     \<lparr>cw_lane = d, cw_clock = (\<lambda>_. 0), cw_todo = (\<lambda>_. []), cw_passes = (\<lambda>_. passes_of w)\<rparr>"

text \<open>
  A reader of \<open>hs\<close> with nothing left to do begins another pass over what its listing of the lane saw,
  which is every item still there and perhaps some that are gone by now; a reader with operations
  left makes the next, its process's clock advanced by any work in other lanes; and a reader whose
  listing finds no item leaves.
\<close>

inductive race_step :: "way \<Rightarrow> string set \<Rightarrow> claim_world \<Rightarrow> claim_world \<Rightarrow> bool" for way hs where
  scan: "h \<in> hs \<Longrightarrow> cw_todo w h = [] \<Longrightarrow> cw_passes w h = Suc n \<Longrightarrow>
    set (lane_list ''item_'' (cw_lane w)) \<subseteq> set names \<Longrightarrow> set names \<subseteq> set item_names \<Longrightarrow>
    race_step way hs w (w\<lparr>cw_passes := (cw_passes w)(h := n), cw_todo := (cw_todo w)(h := pass way names)\<rparr>)"
| move: "h \<in> hs \<Longrightarrow> cw_todo w h = a # rest \<Longrightarrow>
    operate h a (cw_lane w) (cw_clock w (process_of h) + elsewhere) = (d, clock, ops) \<Longrightarrow>
    race_step way hs w (w\<lparr>cw_lane := d, cw_clock := (cw_clock w)(process_of h := clock),
      cw_todo := (cw_todo w)(h := ops @ rest)\<rparr>)"
| leave: "h \<in> hs \<Longrightarrow> cw_todo w h = [] \<Longrightarrow> cw_passes w h = Suc n \<Longrightarrow>
    Suc n < passes_of way \<Longrightarrow> lane_list ''item_'' (cw_lane w) = [] \<Longrightarrow>
    race_step way hs w (w\<lparr>cw_passes := (cw_passes w)(h := 0)\<rparr>)"

inductive race_reachable :: "way \<Rightarrow> string set \<Rightarrow> dir \<Rightarrow> claim_world \<Rightarrow> bool" for way hs d where
  start: "race_reachable way hs d (race_start way d)"
| step: "race_reachable way hs d w \<Longrightarrow> race_step way hs w w' \<Longrightarrow> race_reachable way hs d w'"

definition race_over :: "string set \<Rightarrow> claim_world \<Rightarrow> bool" where
  "race_over hs w \<longleftrightarrow> (\<forall>h\<in>hs. cw_todo w h = [] \<and> cw_passes w h = 0)"

section \<open>Names\<close>

lemma with_extension_dotless: "CHR ''.'' \<notin> set name \<Longrightarrow> with_extension ext name = name @ ''.'' @ ext"
proof -
  assume "CHR ''.'' \<notin> set name"
  then have "position (\<lambda>c. c = CHR ''.'') (rev name) = None" by (auto simp: position_None)
  then have "extension name = None" by (simp add: extension_def)
  then show ?thesis by (simp add: with_extension_def)
qed

lemma digits_clean: "\<not> is_digit c \<Longrightarrow> c \<notin> set (decimal n)"
  using list_all_is_digit_decimal [of n] by (auto simp: list_all_iff)

lemma not_digits [simp]:
  "CHR ''.'' \<notin> set (decimal n)" "CHR ''_'' \<notin> set (decimal n)" "CHR ''i'' \<notin> set (decimal n)"
  by (rule digits_clean, simp add: is_digit_def)+

lemma item_dotless [simp]: "CHR ''.'' \<notin> set (item_name k s)"
  by (simp add: item_name_def)

lemma strip_item: "CHR ''i'' \<notin> set r \<Longrightarrow> strip_front [''item_''] (''item_'' @ r) = r"
  by (cases r; subst strip_front.simps; simp; subst strip_front.simps; simp)

lemma parse_item_name: "k < 2 ^ 64 \<Longrightarrow> s < 2 ^ 64 \<Longrightarrow> parse_item (item_name k s) = (k, s)"
  unfolding parse_item_def item_name_def
  by (subst strip_item) (simp_all add: split_on_append split_on_clean parse_unsigned_decimal)

lemma decimal_eq [simp]: "decimal n = decimal m \<longleftrightarrow> n = m"
  by (metis digits_value_decimal)

lemma in_item_names:
  "i \<in> set item_names \<longleftrightarrow> (\<exists>k s. k < KEYS \<and> s < PER_KEY \<and> i = item_name k s)"
  by (simp add: item_names_def) force

lemma item_names_parse:
  assumes "i \<in> set item_names"
  obtains k s where "k < KEYS" "s < PER_KEY" "i = item_name k s" "parse_item i = (k, s)"
proof -
  from assms obtain k s where ks: "k < KEYS" "s < PER_KEY" "i = item_name k s"
    unfolding in_item_names by blast
  moreover have "parse_item i = (k, s)"
    unfolding ks(3) by (rule parse_item_name) (use ks in \<open>simp_all add: KEYS_def PER_KEY_def\<close>)
  ultimately show thesis by (rule that)
qed

lemma item_clean: "i \<in> set item_names \<Longrightarrow> CHR ''.'' \<notin> set i \<and> prefix ''item_'' i"
  unfolding in_item_names by (auto simp: item_name_def)

lemma item_facts:
  assumes "i \<in> set item_names"
  shows "lock_name i = i @ ''.lock''" "done_name i h = i @ ''.done.'' @ h"
  using item_clean [OF assms] by (simp_all add: lock_name_def done_name_def with_extension_dotless)

text \<open>The lock that guards an item, in each honest way.\<close>

fun guard :: "way \<Rightarrow> string \<Rightarrow> string" where
  "guard PerKey i = key_lock (fst (parse_item i))"
| "guard _ i = lock_name i"

lemma done_split: "i \<in> set item_names \<Longrightarrow> split_once ''.done.'' (done_name i h) = Some (i, h)"
  using split_once_found [of "CHR ''.''" i "''done.''" h] item_clean [of i] by (simp add: item_facts)

lemma lock_split:
  assumes "i \<in> set item_names"
  shows "split_once ''.done.'' (guard way i) = None"
proof -
  have "split_once ''.done.'' (n @ ''.lock'') = None" if "CHR ''.'' \<notin> set n" for n
    by (subst split_once_clean [OF that]) code_simp
  moreover have "CHR ''.'' \<notin> set (''key_'' @ decimal k)" for k by simp
  ultimately show ?thesis
    using item_clean [OF assms] by (cases way) (auto simp: item_facts [OF assms] key_lock_def simp del: append.assoc
      simp flip: append_assoc)
qed

lemma item_split: "i \<in> set item_names \<Longrightarrow> split_once ''.done.'' i = None"
  using split_once_clean [of "CHR ''.''" i "''done.''" "[]"] item_clean [of i] by simp

lemma guard_dotted: "i \<in> set item_names \<Longrightarrow> CHR ''.'' \<in> set (guard way i)"
  by (cases way) (simp_all add: item_facts key_lock_def)

lemma names_apart [simp]:
  assumes "i \<in> set item_names" "j \<in> set item_names"
  shows "i \<noteq> guard way j" "guard way j \<noteq> i" "i \<noteq> done_name j h" "done_name j h \<noteq> i"
    "guard way i \<noteq> done_name j h" "done_name j h \<noteq> guard way i"
    "done_name i h = done_name j h' \<longleftrightarrow> i = j \<and> h = h'"
proof -
  show "i \<noteq> guard way j" "guard way j \<noteq> i"
    using item_clean [OF assms(1)] guard_dotted [OF assms(2), of way] by auto
  have "CHR ''.'' \<in> set (done_name j h)" by (simp add: item_facts [OF assms(2)])
  then show "i \<noteq> done_name j h" "done_name j h \<noteq> i" using item_clean [OF assms(1)] by auto
  show "guard way i \<noteq> done_name j h" "done_name j h \<noteq> guard way i"
    using lock_split [OF assms(1), of way] done_split [OF assms(2), of h] by auto
  show "done_name i h = done_name j h' \<longleftrightarrow> i = j \<and> h = h'"
    using done_split [OF assms(1), of h] done_split [OF assms(2), of h'] by (metis option.inject prod.inject)
qed

lemma key_lock_eq [simp]: "key_lock k = key_lock k' \<longleftrightarrow> k = k'"
  by (simp add: key_lock_def)

lemma lock_name_eq:
  "i \<in> set item_names \<Longrightarrow> j \<in> set item_names \<Longrightarrow> lock_name i = lock_name j \<longleftrightarrow> i = j"
  by (simp add: item_facts)

lemma parse_names [simp]:
  "k < KEYS \<Longrightarrow> s < PER_KEY \<Longrightarrow> parse_item (item_name k s) = (k, s)"
  "k < KEYS \<Longrightarrow> s < PER_KEY \<Longrightarrow> item_name k s \<in> set item_names"
  by (auto simp: in_item_names KEYS_def PER_KEY_def intro!: parse_item_name)

end
