(* ===== verification/Pickup_Race.thy ===== *)
theory Pickup_Race
  imports Pickup
begin

text \<open>
  What the readers of a lane keep, however their operations interleave: every lock has one holder
  (\<open>locked\<close>), every item is taken care of (\<open>attended\<close>), every key is processed in sequence
  (\<open>in_sequence\<close>), the lane holds nothing but items, locks and done records (\<open>named\<close>), and the race
  ends.
\<close>

section \<open>Every lock has one holder\<close>

fun op_item :: "operation \<Rightarrow> string option" where
  "op_item (TryItem _) = None"
| "op_item (TryKey _) = None"
| "op_item (ReadItem i _) = Some i"
| "op_item (Stamp i _) = Some i"
| "op_item (Sign i _ _) = Some i"
| "op_item (Write i _ _) = Some i"
| "op_item (Consume i) = Some i"

fun op_honest :: "way \<Rightarrow> operation \<Rightarrow> bool" where
  "op_honest way (TryItem i) \<longleftrightarrow> way = PerItem \<and> i \<in> set item_names"
| "op_honest way (TryKey k) \<longleftrightarrow> way = PerKey \<and> k < KEYS"
| "op_honest way (ReadItem i injected) \<longleftrightarrow> i \<in> set item_names \<and> \<not> injected"
| "op_honest way (Stamp i injected) \<longleftrightarrow> i \<in> set item_names \<and> \<not> injected"
| "op_honest way (Sign i injected order) \<longleftrightarrow> i \<in> set item_names \<and> \<not> injected"
| "op_honest way (Write i injected order) \<longleftrightarrow> i \<in> set item_names \<and> \<not> injected"
| "op_honest way (Consume i) \<longleftrightarrow> i \<in> set item_names"

text \<open>The operation that would take an item's lock.\<close>

fun try_of :: "way \<Rightarrow> string \<Rightarrow> operation" where
  "try_of PerKey i = TryKey (fst (parse_item i))"
| "try_of _ i = TryItem i"

text \<open>An operation on an item whose done record its reader has created.\<close>

fun op_signed :: "operation \<Rightarrow> bool" where
  "op_signed (Write _ _ _) = True"
| "op_signed (Consume _) = True"
| "op_signed _ = False"

text \<open>
  A lane and its readers hold exactly a placing of the locks with one holder each: a lock is there
  when it has a holder, and only its holder works on what it guards or has signed for it.
\<close>

definition locked :: "way \<Rightarrow> claim_world \<Rightarrow> (string \<Rightarrow> string option) \<Rightarrow> bool" where
  "locked way w A \<longleftrightarrow>
     (\<forall>h. \<forall>a \<in> set (cw_todo w h). op_honest way a) \<and>
     (\<forall>i \<in> set item_names. btree_get (cw_lane w) (guard way i) = None \<longleftrightarrow> A (guard way i) = None) \<and>
     (\<forall>h. \<forall>a \<in> set (cw_todo w h). \<forall>i. op_item a = Some i \<longrightarrow> A (guard way i) = Some h) \<and>
     (\<forall>i \<in> set item_names. \<forall>h. btree_get (cw_lane w) (done_name i h) \<noteq> None \<longrightarrow> A (guard way i) = Some h)"

lemma lockedD:
  assumes "locked way w A"
  shows "a \<in> set (cw_todo w h) \<Longrightarrow> op_honest way a"
    and "i \<in> set item_names \<Longrightarrow> btree_get (cw_lane w) (guard way i) = None \<longleftrightarrow> A (guard way i) = None"
    and "a \<in> set (cw_todo w h) \<Longrightarrow> op_item a = Some i \<Longrightarrow> A (guard way i) = Some h"
    and "i \<in> set item_names \<Longrightarrow> btree_get (cw_lane w) (done_name i h) \<noteq> None \<Longrightarrow> A (guard way i) = Some h"
  using assms unfolding locked_def by blast+

lemma locked_head: "locked way w A \<Longrightarrow> cw_todo w h = a # rest \<Longrightarrow> op_honest way a"
  using lockedD(1) [of way w A a h] by simp

lemma op_item_in: "op_honest way a \<Longrightarrow> op_item a = Some i \<Longrightarrow> i \<in> set item_names"
  by (cases a) auto

text \<open>Taking the lock \<open>l\<close>.\<close>

lemma locked_take:
  assumes "locked way w A" and "cw_todo w h = a # rest" and "btree_get (cw_lane w) l = None"
    and "\<exists>i \<in> set item_names. l = guard way i"
    and "\<forall>b \<in> set ops. op_honest way b \<and> (\<exists>i. op_item b = Some i \<and> guard way i = l)"
  shows "locked way (w\<lparr>cw_lane := btree_insert l [] (cw_lane w), cw_clock := c,
      cw_todo := (cw_todo w)(h := ops @ rest)\<rparr>) (A(l := Some h))"
proof -
  have free: "A l = None" using assms lockedD(2) [OF assms(1)] by auto
  have "x \<in> set rest \<Longrightarrow> x \<in> set (cw_todo w h)" for x using assms(2) by simp
  note D = lockedD [OF assms(1)]
  from assms(4) obtain j where j: "j \<in> set item_names" "l = guard way j" by blast
  show ?thesis
    unfolding locked_def
  proof (intro conjI allI ballI impI, goal_cases)
    case (1 h' b)
    then show ?case using D(1) [of b h'] D(1) [of b h] assms(2,5) by (auto split: if_splits)
  next
    case (2 i)
    then show ?case using D(2) [of i] by (simp add: store_simps)
  next
    case (3 h' b i)
    then show ?case using D(3) [of b h' i] free assms(2,5) by (auto split: if_splits)
  next
    case (4 i h')
    then show ?case using D(4) [of i h'] free j by (auto simp: store_simps)
  qed
qed

text \<open>Any other operation: no lock changes, and what follows is on the same item.\<close>

lemma locked_work:
  assumes "locked way w A" and "cw_todo w h = a # rest"
    and "\<forall>i \<in> set item_names. btree_get d (guard way i) = btree_get (cw_lane w) (guard way i)"
    and "\<forall>b \<in> set ops. op_honest way b \<and> op_item b = op_item a"
    and "\<forall>i \<in> set item_names. \<forall>h'. btree_get d (done_name i h') \<noteq> None \<longrightarrow>
      btree_get (cw_lane w) (done_name i h') \<noteq> None \<or> h' = h \<and> op_item a = Some i"
  shows "locked way (w\<lparr>cw_lane := d, cw_clock := c, cw_todo := (cw_todo w)(h := ops @ rest)\<rparr>) A"
proof -
  note D = lockedD [OF assms(1)]
  show ?thesis
    unfolding locked_def
  proof (intro conjI allI ballI impI, goal_cases)
    case (1 h' b)
    then show ?case using D(1) [of b h'] D(1) [of b h] assms(2,4) by (auto split: if_splits)
  next
    case (2 i)
    then show ?case using D(2) [of i] assms(3) by simp
  next
    case (3 h' b i)
    then show ?case using D(3) [of b h' i] D(3) [of a h i] assms(2,4) by (auto split: if_splits)
  next
    case (4 i h')
    then show ?case using D(4) [of i h'] D(3) [of a h i] assms(2,5) by auto
  qed
qed

text \<open>Trying to take a lock: one exclusive creation, and then everything it guards.\<close>

lemma operate_try:
  assumes "op_honest way a" and "op_item a = None"
  obtains l ops where
    "\<And>d c. operate h a d c = (case create_new l d of None \<Rightarrow> (d, c, []) | Some e \<Rightarrow> (e, c, ops))"
    and "\<exists>i \<in> set item_names. l = guard way i"
    and "set ops = (\<lambda>i. ReadItem i False) ` {i \<in> set item_names. guard way i = l}"
    and "\<forall>i \<in> set item_names. a = try_of way i \<longleftrightarrow> guard way i = l"
proof (cases a)
  case (TryItem i)
  with assms show thesis
    by (intro that [of "[ReadItem i False]" "lock_name i"]) (auto simp: lock_name_eq)
next
  case (TryKey k)
  with assms have k: "k < KEYS" and way: "way = PerKey" by auto
  have "item_name k 0 \<in> set item_names" "guard way (item_name k 0) = key_lock k"
    using k way by (simp_all add: PER_KEY_def)
  moreover have "{i \<in> set item_names. guard way i = key_lock k} = item_name k ` {0..<PER_KEY}"
    using k way by (auto elim!: item_names_parse)
  ultimately show thesis
    using TryKey way
    by (intro that [of "map (\<lambda>seq. ReadItem (item_name k seq) False) [0..<PER_KEY]" "key_lock k"])
       (auto simp: image_image intro: bexI [of _ "item_name k 0"])
qed (use assms(2) in simp_all)

lemma locked_try:
  assumes "locked way w A" and "cw_todo w h = a # rest" and "op_item a = None"
    and "operate h a (cw_lane w) c = (d, c', ops)"
  shows "\<exists>A'. locked way (w\<lparr>cw_lane := d, cw_clock := cl, cw_todo := (cw_todo w)(h := ops @ rest)\<rparr>) A'"
proof (rule operate_try [OF locked_head [OF assms(1,2)] assms(3), of h])
  fix l ops'
  assume op: "\<And>d c. operate h a d c = (case create_new l d of None \<Rightarrow> (d, c, []) | Some e \<Rightarrow> (e, c, ops'))"
    and l: "\<exists>i \<in> set item_names. l = guard way i"
    and ops': "set ops' = (\<lambda>i. ReadItem i False) ` {i \<in> set item_names. guard way i = l}"
  show ?thesis
  proof (cases "btree_get (cw_lane w) l")
    case None
    then have "d = btree_insert l [] (cw_lane w)" "ops = ops'" using assms(4) op by (simp_all add: create_new_def)
    then show ?thesis using locked_take [OF assms(1,2) None l, of ops' cl] ops' by auto
  next
    case (Some x)
    then have "d = cw_lane w" "ops = []" using assms(4) op by (simp_all add: create_new_def)
    then show ?thesis using locked_work [OF assms(1,2), of d "[]"] by auto
  qed
qed

lemma operate_work:
  assumes "op_honest way a" "op_item a = Some i" "operate h a d c = (e, c', ops)"
  shows "b \<in> set ops \<Longrightarrow> op_honest way b \<and> op_item b = Some i"
    and "n \<noteq> i \<Longrightarrow> n \<noteq> done_name i h \<Longrightarrow> btree_get e n = btree_get d n"
  using assms by (cases a; auto simp: consume_unless_def create_new_def store_simps split: option.splits if_splits)+

lemma locked_move:
  assumes "locked way w A" and "cw_todo w h = a # rest" and "way \<noteq> WithoutClaiming"
    and "operate h a (cw_lane w) c = (d, c', ops)"
  shows "\<exists>A'. locked way (w\<lparr>cw_lane := d, cw_clock := cl, cw_todo := (cw_todo w)(h := ops @ rest)\<rparr>) A'"
proof (cases "op_item a")
  case None
  then show ?thesis using locked_try [OF assms(1,2) _ assms(4)] by blast
next
  case (Some i)
  note honest = locked_head [OF assms(1,2)]
  note i = op_item_in [OF honest Some]
  note work = operate_work [OF honest Some assms(4)]
  have "locked way (w\<lparr>cw_lane := d, cw_clock := cl, cw_todo := (cw_todo w)(h := ops @ rest)\<rparr>) A"
  proof (rule locked_work [OF assms(1,2)], goal_cases)
    case 1
    then show ?case using work(2) i by auto
  next
    case 2
    then show ?case using work(1) Some by auto
  next
    case 3
    have "btree_get d (done_name j h') = btree_get (cw_lane w) (done_name j h')"
      if "j \<in> set item_names" "\<not> (h' = h \<and> j = i)" for j h'
      using that i by (intro work(2)) auto
    then show ?case using Some by auto
  qed
  then show ?thesis by blast
qed

lemma pass_honest: "way \<noteq> WithoutClaiming \<Longrightarrow> set names \<subseteq> set item_names \<Longrightarrow> b \<in> set (pass way names) \<Longrightarrow>
    op_honest way b \<and> op_item b = None"
  by (cases way) auto

lemma locked_step:
  assumes "race_step way hs w w'" and "locked way w A" and "way \<noteq> WithoutClaiming"
  shows "\<exists>A'. locked way w' A'"
  using assms
proof (induction rule: race_step.induct)
  case (scan h w n names)
  then show ?case using pass_honest [of way names] unfolding locked_def by (intro exI [of _ A]) simp
next
  case (move h w a rest elsewhere d clock ops)
  then show ?case using locked_move by blast
next
  case (leave h w n)
  then show ?case unfolding locked_def by (intro exI [of _ A]) simp
qed

section \<open>Every item is taken care of\<close>

text \<open>The item an operation still has to process: all of them but the write of a record.\<close>

fun op_works :: "operation \<Rightarrow> string option" where
  "op_works (Write _ _ _) = None"
| "op_works a = op_item a"

text \<open>
  What is removed was signed for; an item whose lock is taken is being worked on; and a reader that
  has begun still has to try every lock that is free.
\<close>

definition attended :: "way \<Rightarrow> string set \<Rightarrow> string set \<Rightarrow> claim_world \<Rightarrow> bool" where
  "attended way its hs w \<longleftrightarrow>
     (\<forall>h. \<forall>a \<in> set (cw_todo w h). \<forall>i. op_signed a \<longrightarrow> op_item a = Some i \<longrightarrow>
        btree_get (cw_lane w) (done_name i h) \<noteq> None) \<and>
     (\<forall>i \<in> its. btree_get (cw_lane w) i = None \<longrightarrow> (\<exists>h. btree_get (cw_lane w) (done_name i h) \<noteq> None)) \<and>
     (\<forall>i \<in> set item_names. btree_get (cw_lane w) i \<noteq> None \<longrightarrow> btree_get (cw_lane w) (guard way i) \<noteq> None \<longrightarrow>
        (\<exists>h. \<exists>a \<in> set (cw_todo w h). op_works a = Some i)) \<and>
     (\<forall>h \<in> hs. cw_passes w h < passes_of way \<longrightarrow>
        (\<forall>i \<in> set item_names. btree_get (cw_lane w) i \<noteq> None \<longrightarrow> btree_get (cw_lane w) (guard way i) = None \<longrightarrow>
           try_of way i \<in> set (cw_todo w h)))"

lemma attendedD:
  assumes "attended way its hs w"
  shows "a \<in> set (cw_todo w h) \<Longrightarrow> op_signed a \<Longrightarrow> op_item a = Some i \<Longrightarrow> btree_get (cw_lane w) (done_name i h) \<noteq> None"
    and "i \<in> its \<Longrightarrow> btree_get (cw_lane w) i = None \<Longrightarrow> \<exists>h. btree_get (cw_lane w) (done_name i h) \<noteq> None"
    and "i \<in> set item_names \<Longrightarrow> btree_get (cw_lane w) i \<noteq> None \<Longrightarrow> btree_get (cw_lane w) (guard way i) \<noteq> None \<Longrightarrow>
        \<exists>h. \<exists>a \<in> set (cw_todo w h). op_works a = Some i"
    and "h \<in> hs \<Longrightarrow> cw_passes w h < passes_of way \<Longrightarrow> i \<in> set item_names \<Longrightarrow> btree_get (cw_lane w) i \<noteq> None \<Longrightarrow>
        btree_get (cw_lane w) (guard way i) = None \<Longrightarrow> try_of way i \<in> set (cw_todo w h)"
  using assms unfolding attended_def by blast+

lemma attendedI:
  assumes "cw_lane w' = d" "cw_todo w' = todo" "cw_passes w' = passes"
    and "\<And>h a i. a \<in> set (todo h) \<Longrightarrow> op_signed a \<Longrightarrow> op_item a = Some i \<Longrightarrow> btree_get d (done_name i h) \<noteq> None"
    and "\<And>i. i \<in> its \<Longrightarrow> btree_get d i = None \<Longrightarrow> \<exists>h. btree_get d (done_name i h) \<noteq> None"
    and "\<And>i. i \<in> set item_names \<Longrightarrow> btree_get d i \<noteq> None \<Longrightarrow> btree_get d (guard way i) \<noteq> None \<Longrightarrow>
        \<exists>h. \<exists>a \<in> set (todo h). op_works a = Some i"
    and "\<And>h i. h \<in> hs \<Longrightarrow> passes h < passes_of way \<Longrightarrow> i \<in> set item_names \<Longrightarrow> btree_get d i \<noteq> None \<Longrightarrow>
        btree_get d (guard way i) = None \<Longrightarrow> try_of way i \<in> set (todo h)"
  shows "attended way its hs w'"
  using assms(4-7) unfolding attended_def assms(1-3) by blast

text \<open>What one operation does, as the invariant sees it.\<close>

definition keeps_attending :: "way \<Rightarrow> string \<Rightarrow> operation \<Rightarrow> dir \<Rightarrow> dir \<Rightarrow> operation list \<Rightarrow> bool" where
  "keeps_attending way h a d e ops \<longleftrightarrow>
     (\<forall>i \<in> set item_names. btree_get e i = (if a = Consume i then None else btree_get d i)) \<and>
     (\<forall>i \<in> set item_names. \<forall>h'. btree_get d (done_name i h') \<noteq> None \<longrightarrow> btree_get e (done_name i h') \<noteq> None) \<and>
     (\<forall>b \<in> set ops. op_signed b \<longrightarrow> (\<forall>i. op_item b = Some i \<longrightarrow> btree_get e (done_name i h) \<noteq> None)) \<and>
     (\<forall>i \<in> set item_names. btree_get e (guard way i) \<noteq> None \<longrightarrow> btree_get e i \<noteq> None \<longrightarrow>
        btree_get d (guard way i) = None \<or> op_works a = Some i \<longrightarrow> (\<exists>b \<in> set ops. op_works b = Some i)) \<and>
     (\<forall>i \<in> set item_names. btree_get d (guard way i) \<noteq> None \<or> a = try_of way i \<longrightarrow> btree_get e (guard way i) \<noteq> None)"

lemma try_of_simps [simp]:
  "try_of way j \<noteq> ReadItem i b" "ReadItem i b \<noteq> try_of way j" "try_of way j \<noteq> Stamp i b" "Stamp i b \<noteq> try_of way j"
  "try_of way j \<noteq> Sign i b n" "Sign i b n \<noteq> try_of way j" "try_of way j \<noteq> Write i b n" "Write i b n \<noteq> try_of way j"
  "try_of way j \<noteq> Consume i" "Consume i \<noteq> try_of way j"
  by (cases way; simp)+

lemma operate_attends:
  assumes "op_honest way a" and "operate h a d c = (e, c', ops)" and "way \<noteq> WithoutClaiming"
  shows "keeps_attending way h a d e ops"
proof (cases "op_item a")
  case None
  show ?thesis
  proof (rule operate_try [OF assms(1) None, of h], goal_cases)
    case (1 l ops')
    have works: "op_works a = None" using None by (cases a) auto
    have signed: "\<not> op_signed b" if "b \<in> set ops'" for b using that 1(3) by auto
    show ?case
    proof (cases "btree_get d l")
      case None
      then have "e = btree_insert l [] d" "ops = ops'" using assms(2) 1(1) by (simp_all add: create_new_def)
      with 1 signed works show ?thesis by (auto simp: keeps_attending_def store_simps)
    next
      case (Some x)
      then have "e = d" "ops = []" using assms(2) 1(1) by (simp_all add: create_new_def)
      with 1 Some works show ?thesis by (cases a) (auto simp: keeps_attending_def)
    qed
  qed
next
  case (Some i)
  with assms(1) have i: "i \<in> set item_names" by (rule op_item_in)
  with assms(1,2) Some show ?thesis
    by (cases a) (auto simp: keeps_attending_def consume_unless_def create_new_def store_simps
        split: option.splits if_splits)
qed

lemma attended_move:
  assumes "attended way its hs w" and "locked way w A" and "cw_todo w h = a # rest" and "its \<subseteq> set item_names"
    and "keeps_attending way h a (cw_lane w) d ops"
  shows "attended way its hs (w\<lparr>cw_lane := d, cw_clock := cl, cw_todo := (cw_todo w)(h := ops @ rest)\<rparr>)"
proof -
  note D = attendedD [OF assms(1)]
  have K: "i \<in> set item_names \<Longrightarrow> btree_get d i = (if a = Consume i then None else btree_get (cw_lane w) i)"
    "i \<in> set item_names \<Longrightarrow> btree_get (cw_lane w) (done_name i h') \<noteq> None \<Longrightarrow> btree_get d (done_name i h') \<noteq> None"
    "b \<in> set ops \<Longrightarrow> op_signed b \<Longrightarrow> op_item b = Some i \<Longrightarrow> btree_get d (done_name i h) \<noteq> None"
    "i \<in> set item_names \<Longrightarrow> btree_get d (guard way i) \<noteq> None \<Longrightarrow> btree_get d i \<noteq> None \<Longrightarrow>
        btree_get (cw_lane w) (guard way i) = None \<or> op_works a = Some i \<Longrightarrow> (\<exists>b \<in> set ops. op_works b = Some i)"
    "i \<in> set item_names \<Longrightarrow> btree_get (cw_lane w) (guard way i) \<noteq> None \<or> a = try_of way i \<Longrightarrow>
        btree_get d (guard way i) \<noteq> None" for i h' b
    using assms(5) unfolding keeps_attending_def by blast+
  have todo: "b \<in> set (cw_todo w h') \<Longrightarrow> b = a \<and> h' = h \<or> b \<in> set (((cw_todo w)(h := ops @ rest)) h')"
    "b \<in> set (((cw_todo w)(h := ops @ rest)) h') \<Longrightarrow> b \<in> set (cw_todo w h') \<or> h' = h \<and> b \<in> set ops"
    "a \<in> set (cw_todo w h)" for b h'
    using assms(3) by (auto split: if_splits)
  have items: "b \<in> set (cw_todo w h') \<Longrightarrow> op_item b = Some i \<Longrightarrow> i \<in> set item_names" for b h' i
    using lockedD(1) [OF assms(2)] op_item_in by blast
  show ?thesis
  proof (rule attendedI [of _ d "(cw_todo w)(h := ops @ rest)" "cw_passes w"], simp, simp, simp, goal_cases)
    case (1 h' b i)
    from todo(2) [OF 1(1)] show ?case
    proof
      assume old: "b \<in> set (cw_todo w h')"
      show ?thesis by (rule K(2) [OF items [OF old 1(3)] D(1) [OF old 1(2,3)]])
    qed (use K(3) 1(2,3) in blast)
  next
    case (2 i)
    then have i: "i \<in> set item_names" using assms(4) by blast
    show ?case
    proof (cases "a = Consume i")
      case True
      then have "btree_get (cw_lane w) (done_name i h) \<noteq> None" using D(1) [OF todo(3), of i] by simp
      then show ?thesis using K(2) [OF i] by blast
    next
      case False
      then have "btree_get (cw_lane w) i = None" using K(1) [OF i] 2(2) by simp
      then show ?thesis using D(2) [OF 2(1)] K(2) [OF i] by blast
    qed
  next
    case (3 i)
    have there: "btree_get (cw_lane w) i \<noteq> None" using K(1) [OF 3(1)] 3(2) by (auto split: if_splits)
    show ?case
    proof (cases "btree_get (cw_lane w) (guard way i) = None \<or> op_works a = Some i")
      case True
      from K(4) [OF 3(1,3,2) True] show ?thesis by (auto intro: exI [of _ h])
    next
      case False
      then have "btree_get (cw_lane w) (guard way i) \<noteq> None" by simp
      from D(3) [OF 3(1) there this] obtain h' b where "b \<in> set (cw_todo w h')" "op_works b = Some i" by blast
      then show ?thesis using todo(1) [of b h'] False by blast
    qed
  next
    case (4 h' i)
    have there: "btree_get (cw_lane w) i \<noteq> None" using K(1) [OF 4(3)] 4(4) by (auto split: if_splits)
    have free: "btree_get (cw_lane w) (guard way i) = None" "a \<noteq> try_of way i" using K(5) [OF 4(3)] 4(5) by blast+
    from D(4) [OF 4(1,2,3) there free(1)] show ?case using todo(1) [of "try_of way i" h'] free(2) by blast
  qed
qed

lemma lane_list_present:
  "i \<in> set item_names \<Longrightarrow> i \<in> set (lane_list ''item_'' d) \<longleftrightarrow> btree_get d i \<noteq> None"
  using item_clean [of i] btree_get_in [of d i] by (simp add: lane_list_def)

lemma attended_step:
  assumes "race_step way hs w w'" and "attended way its hs w" and "locked way w A" and "way \<noteq> WithoutClaiming"
    and "its \<subseteq> set item_names"
  shows "attended way its hs w'"
  using assms
proof (induction rule: race_step.induct)
  case (scan h w n names)
  have tries: "try_of way i \<in> set (pass way names)" if "i \<in> set item_names" "btree_get (cw_lane w) i \<noteq> None" for i
  proof (cases way)
    case PerItem
    then show ?thesis using scan.hyps(4) lane_list_present [OF that(1)] that(2) by auto
  next
    case PerKey
    then show ?thesis using that(1) by (auto elim: item_names_parse)
  qed (use scan.prems(3) in simp)
  have quiet: "\<not> op_signed b \<and> op_item b = None" if "b \<in> set (pass way names)" for b
    using that scan.prems(3) by (cases way) auto
  note D = attendedD [OF scan.prems(1)]
  show ?case
  proof (rule attendedI [of _ "cw_lane w" "(cw_todo w)(h := pass way names)" "(cw_passes w)(h := n)"],
      simp, simp, simp, goal_cases)
    case (1 h' b i)
    then show ?case using D(1) quiet by (auto split: if_splits)
  next
    case (2 i)
    then show ?case using D(2) by simp
  next
    case (3 i)
    then obtain h' b where b: "b \<in> set (cw_todo w h')" "op_works b = Some i" using D(3) [of i] by auto
    then have "h' \<noteq> h" using scan.hyps(2) by auto
    with b show ?case by auto
  next
    case (4 h' i)
    then show ?case using D(4) [of h' i] tries [of i] by (auto split: if_splits)
  qed
next
  case (move h w a rest elsewhere d clock ops)
  then show ?case
    using attended_move [OF move.prems(1,2) move.hyps(2) move.prems(4)]
      operate_attends [OF locked_head [OF move.prems(2) move.hyps(2)] move.hyps(3) move.prems(3)] by blast
next
  case (leave h w n)
  have "btree_get (cw_lane w) i = None" if "i \<in> set item_names" for i
    using leave.hyps(5) lane_list_present [OF that, of "cw_lane w"] by simp
  then show ?case
    using attendedD(1,2) [OF leave.prems(1)]
    by (intro attendedI [of _ "cw_lane w" "cw_todo w" "(cw_passes w)(h := 0)"]) auto
qed

section \<open>Every key is processed in sequence\<close>

abbreviation key_of :: "string \<Rightarrow> nat" where
  "key_of i \<equiv> fst (parse_item i)"

abbreviation seq_of :: "string \<Rightarrow> nat" where
  "seq_of i \<equiv> snd (parse_item i)"

text \<open>The item an operation will still stamp, and the stamp it carries.\<close>

fun ahead :: "operation \<Rightarrow> string option" where
  "ahead (ReadItem i _) = Some i"
| "ahead (Stamp i _) = Some i"
| "ahead _ = None"

fun stamp_of :: "operation \<Rightarrow> (string \<times> nat) option" where
  "stamp_of (Sign i _ order) = Some (i, order)"
| "stamp_of (Write i _ order) = Some (i, order)"
| "stamp_of _ = None"

definition aheads :: "operation list \<Rightarrow> string list" where
  "aheads ops = List.map_filter ahead ops"

text \<open>Who stamped which item with which order: the stamps being carried and those written down.\<close>

definition marks :: "claim_world \<Rightarrow> (string \<times> string \<times> nat) set" where
  "marks w = {(h, i, order).
     (\<exists>a \<in> set (cw_todo w h). stamp_of a = Some (i, order)) \<or>
     (i \<in> set item_names \<and> btree_get (cw_lane w) (done_name i h) = Some (done_note order False))}"

definition precedes :: "string \<Rightarrow> string \<Rightarrow> bool" where
  "precedes i j \<longleftrightarrow> (key_of i = key_of j \<longrightarrow> seq_of i < seq_of j)"

definition in_sequence :: "claim_world \<Rightarrow> bool" where
  "in_sequence w \<longleftrightarrow>
     (\<forall>h i order. (h, i, order) \<in> marks w \<longrightarrow> order < cw_clock w (process_of h)) \<and>
     (\<forall>h. sorted_wrt precedes (aheads (cw_todo w h))) \<and>
     (\<forall>h i order h' j. (h, i, order) \<in> marks w \<longrightarrow> j \<in> set (aheads (cw_todo w h')) \<longrightarrow> precedes i j) \<and>
     (\<forall>h i order h' j order'. (h, i, order) \<in> marks w \<longrightarrow> (h', j, order') \<in> marks w \<longrightarrow>
        key_of i = key_of j \<longrightarrow> seq_of i < seq_of j \<longrightarrow> order < order')"

lemma in_sequenceD:
  assumes "in_sequence w"
  shows "(h, i, order) \<in> marks w \<Longrightarrow> order < cw_clock w (process_of h)"
    and "sorted_wrt precedes (aheads (cw_todo w h))"
    and "(h, i, order) \<in> marks w \<Longrightarrow> j \<in> set (aheads (cw_todo w h')) \<Longrightarrow> precedes i j"
    and "(h, i, order) \<in> marks w \<Longrightarrow> (h', j, order') \<in> marks w \<Longrightarrow> key_of i = key_of j \<Longrightarrow> seq_of i < seq_of j \<Longrightarrow>
      order < order'"
  using assms unfolding in_sequence_def by blast+

lemma aheads_simps [simp]:
  "aheads [] = []" "aheads (a # ops) = (case ahead a of None \<Rightarrow> [] | Some i \<Rightarrow> [i]) @ aheads ops"
  "aheads (ops @ ops') = aheads ops @ aheads ops'"
  by (simp_all add: aheads_def List.map_filter_def split: option.splits)

lemma set_aheads: "i \<in> set (aheads ops) \<longleftrightarrow> (\<exists>a \<in> set ops. ahead a = Some i)"
  by (force simp: aheads_def List.map_filter_def)

lemma ahead_item: "ahead a = Some i \<Longrightarrow> op_item a = Some i"
  by (cases a) auto

lemma stamp_item: "stamp_of a = Some (i, order) \<Longrightarrow> op_item a = Some i"
  by (cases a) auto

lemma marks_locked:
  assumes "locked way w A" "(h, i, order) \<in> marks w"
  shows "i \<in> set item_names" "A (guard way i) = Some h"
proof -
  from assms(2) consider (op) a where "a \<in> set (cw_todo w h)" "stamp_of a = Some (i, order)"
    | (signed) "i \<in> set item_names" "btree_get (cw_lane w) (done_name i h) \<noteq> None"
    by (auto simp: marks_def)
  then have "i \<in> set item_names \<and> A (guard way i) = Some h"
  proof cases
    case op
    then show ?thesis using lockedD(1,3) [OF assms(1)] stamp_item op_item_in by metis
  next
    case signed
    then show ?thesis using lockedD(4) [OF assms(1)] by blast
  qed
  then show "i \<in> set item_names" "A (guard way i) = Some h" by auto
qed

lemma aheads_locked:
  assumes "locked way w A" "i \<in> set (aheads (cw_todo w h))"
  shows "i \<in> set item_names" "A (guard way i) = Some h"
  using assms lockedD(1,3) [OF assms(1)] ahead_item op_item_in unfolding set_aheads by metis+

lemma decimal_done_note [simp]: "done_note order False = decimal order"
  by (simp add: done_note_def)

lemma operate_stamps:
  "operate h a d c = (e, c', ops) \<Longrightarrow> b \<in> set ops \<Longrightarrow> stamp_of b = Some (i, order) \<Longrightarrow>
     stamp_of a = Some (i, order) \<or> (\<exists>injected. a = Stamp i injected) \<and> order = c"
  by (cases a) (auto simp: consume_unless_def split: option.splits if_splits)

lemma operate_written:
  assumes "operate h a d c = (e, c', ops)" and "op_honest way a" and "i \<in> set item_names"
    and "btree_get e (done_name i h') = Some (decimal order)"
  shows "btree_get d (done_name i h') = Some (decimal order) \<or> h' = h \<and> stamp_of a = Some (i, order)"
proof (cases "op_item a")
  case None
  show ?thesis
  proof (rule operate_try [OF assms(2) None, of h], goal_cases)
    case (1 l ops')
    from 1(2) assms(3) have "l \<noteq> done_name i h'" by auto
    with assms(1,4) 1(1) show ?case by (auto simp: create_new_def store_simps split: option.splits)
  qed
next
  case (Some j)
  then have "j \<in> set item_names" by (rule op_item_in [OF assms(2)])
  with assms Some show ?thesis
    by (cases a) (auto simp: create_new_def store_simps decimal_not_Nil [THEN not_sym]
        split: option.splits if_splits)
qed

lemma marks_move:
  assumes "locked way w A" and "cw_todo w h = a # rest"
    and "operate h a (cw_lane w) c = (d, c', ops)"
    and "(h', i, order) \<in> marks (w\<lparr>cw_lane := d, cw_clock := cl, cw_todo := (cw_todo w)(h := ops @ rest)\<rparr>)"
  shows "(h', i, order) \<in> marks w \<or> h' = h \<and> (\<exists>injected. a = Stamp i injected) \<and> order = c"
proof -
  have carried: "stamp_of a = Some (i, order) \<Longrightarrow> (h, i, order) \<in> marks w" for i order
    using assms(2) by (auto simp: marks_def)
  from assms(4) consider (op) b where "b \<in> set (((cw_todo w)(h := ops @ rest)) h')" "stamp_of b = Some (i, order)"
    | (written) "i \<in> set item_names" "btree_get d (done_name i h') = Some (decimal order)"
    by (auto simp: marks_def)
  then show ?thesis
  proof cases
    case op
    show ?thesis
    proof (cases "h' = h \<and> b \<in> set ops")
      case True
      then show ?thesis using operate_stamps [OF assms(3) _ op(2)] carried by blast
    next
      case False
      then have "b \<in> set (cw_todo w h')" using op(1) assms(2) by (auto split: if_splits)
      then show ?thesis using op(2) by (auto simp: marks_def)
    qed
  next
    case written
    then show ?thesis
      using operate_written [OF assms(3) locked_head [OF assms(1,2)] written] carried by (auto simp: marks_def)
  qed
qed

lemma aheads_move:
  assumes "operate h a d c = (e, c', ops)" and "op_honest PerKey a"
  obtains (none) "aheads ops = []" | (same) "aheads ops = aheads [a]"
    | (key) k where "a = TryKey k" "k < KEYS" "btree_get d (key_lock k) = None" "aheads ops = map (item_name k) [0..<PER_KEY]"
proof (cases a)
  case (TryKey k)
  have "aheads (map (\<lambda>seq. ReadItem (item_name k seq) False) xs) = map (item_name k) xs" for xs
    by (induction xs) simp_all
  with TryKey assms show thesis
    by (auto simp: create_new_def split: option.splits intro: none key)
qed (use assms in \<open>auto simp: consume_unless_def intro: none same split: option.splits if_splits\<close>)

lemma sorted_key: "sorted_wrt precedes (map (item_name k) [0..<PER_KEY])" if "k < KEYS"
proof -
  have "sorted_wrt precedes (map (item_name k) [0..<n])" if "n \<le> PER_KEY" for n
    using that \<open>k < KEYS\<close> by (induction n) (auto simp: sorted_wrt_append precedes_def)
  then show ?thesis by simp
qed

lemma operate_clock:
  "operate h a d c = (e, c', ops) \<Longrightarrow> c \<le> c' \<and> (a = Stamp i injected \<longrightarrow> c < c' \<and> aheads ops = [])"
  by (cases a) (auto split: option.splits)

text \<open>One holder works on a key, so what is marked and what lies ahead of it are its own.\<close>

lemma same_key_same_holder:
  assumes "locked PerKey w A" and "i \<in> set item_names" "j \<in> set item_names" "key_of i = key_of j"
    and "A (guard PerKey i) = Some h" "A (guard PerKey j) = Some h'"
  shows "h = h'"
  using assms(4-6) by simp

lemma in_sequence_move:
  assumes "in_sequence w" and "locked PerKey w A" and "cw_todo w h = a # rest"
    and "operate h a (cw_lane w) (cw_clock w (process_of h) + elsewhere) = (d, clock, ops)"
  shows "in_sequence (w\<lparr>cw_lane := d, cw_clock := (cw_clock w)(process_of h := clock),
      cw_todo := (cw_todo w)(h := ops @ rest)\<rparr>)" (is "in_sequence ?w")
proof -
  let ?c = "cw_clock w (process_of h) + elsewhere"
  note D = in_sequenceD [OF assms(1)]
  note L = marks_locked [OF assms(2)] and R = aheads_locked [OF assms(2)]
  note clock = operate_clock [OF assms(4)]
  have todo: "cw_todo ?w = (cw_todo w)(h := ops @ rest)" by simp
  have new: "(h', i, order) \<in> marks w \<or> h' = h \<and> (\<exists>injected. a = Stamp i injected) \<and> order = ?c"
    if "(h', i, order) \<in> marks ?w" for h' i order
    using marks_move [OF assms(2-4) that] .
  have taken: "key_of i \<noteq> k"
    if "i \<in> set item_names" "A (guard PerKey i) = Some h'" "btree_get (cw_lane w) (key_lock k) = None" for i h' k
    using that lockedD(2) [OF assms(2), of i] by auto
  have head: "aheads (cw_todo w h) = aheads [a] @ aheads rest" by (simp add: assms(3))
  consider (less) "\<And>h'. set (aheads (cw_todo ?w h')) \<subseteq> set (aheads (cw_todo w h'))" "sorted_wrt precedes (aheads (ops @ rest))"
    | (key) k where "k < KEYS" "btree_get (cw_lane w) (key_lock k) = None" "aheads ops = map (item_name k) [0..<PER_KEY]"
        "\<And>i b. a \<noteq> Stamp i b"
    using assms(4) locked_head [OF assms(2,3)]
  proof (cases rule: aheads_move)
    case none
    then show thesis using D(2) [of h] head by (intro less) (auto simp: sorted_wrt_append split: if_splits)
  next
    case same
    then show thesis using D(2) [of h] head by (intro less) (auto split: if_splits)
  next
    case (key k)
    then show thesis by (intro that(2)) auto
  qed
  note ways = this
  have order: "sorted_wrt precedes (aheads (ops @ rest))"
  proof (cases rule: ways)
    case (key k)
    have "precedes i j" if "i \<in> set (aheads ops)" "j \<in> set (aheads rest)" for i j
      using taken [of j h k] R [of j h] that key head by (auto simp: precedes_def)
    then show ?thesis using D(2) [of h] sorted_key [OF key(1)] key(3) head by (simp add: sorted_wrt_append)
  qed
  have after: "precedes i j" if m: "(h1, i, o1) \<in> marks ?w" and j: "j \<in> set (aheads (cw_todo ?w h2))" for h1 i o1 h2 j
  proof (cases rule: ways)
    case less
    with j have j: "j \<in> set (aheads (cw_todo w h2))" by blast
    from new [OF m] show ?thesis
    proof
      assume "h1 = h \<and> (\<exists>injected. a = Stamp i injected) \<and> o1 = ?c"
      then obtain b where a: "a = Stamp i b" by blast
      then have i: "i \<in> set (aheads (cw_todo w h))" by (simp add: assms(3))
      show ?thesis
      proof (cases "h2 = h")
        case True
        have "aheads ops = []" using clock a by blast
        then have "j \<in> set (aheads rest)" using that(2) True by simp
        then show ?thesis using D(2) [of h] a by (simp add: assms(3))
      next
        case False
        then show ?thesis using same_key_same_holder [OF assms(2) R(1) [OF i] R(1) [OF j] _ R(2) [OF i] R(2) [OF j]]
          by (auto simp: precedes_def)
      qed
    qed (use D(3) j in blast)
  next
    case (key k)
    then have m: "(h1, i, o1) \<in> marks w" using new [OF m] by blast
    show ?thesis
    proof (cases "h2 = h \<and> j \<in> set (aheads ops)")
      case True
      then show ?thesis using key taken [OF L [OF m] key(2)] by (auto simp: precedes_def)
    next
      case False
      then have "j \<in> set (aheads (cw_todo w h2))" using j by (auto simp: assms(3) split: if_splits)
      then show ?thesis using D(3) m by blast
    qed
  qed
  have bound: "o1 < cw_clock ?w (process_of h1)" if "(h1, i, o1) \<in> marks ?w" for h1 i o1
  proof -
    have "o1 < ?c" if "(h1, i, o1) \<in> marks w" "process_of h1 = process_of h" using D(1) [OF that(1)] that(2) by simp
    then show ?thesis using new [OF that] D(1) [of h1 i o1] clock by fastforce
  qed
  have increasing: "o1 < o2" if m: "(h1, i, o1) \<in> marks ?w" "(h2, j, o2) \<in> marks ?w"
    and key: "key_of i = key_of j" "seq_of i < seq_of j" for h1 i o1 h2 j o2
  proof -
    have stamped: "x \<in> set (aheads (cw_todo w h))" if "\<exists>b. a = Stamp x b" for x using that by (auto simp: assms(3))
    from new [OF m(1)] new [OF m(2)] consider "(h1, i, o1) \<in> marks w" "(h2, j, o2) \<in> marks w"
      | (first) "\<exists>b. a = Stamp i b" "(h2, j, o2) \<in> marks w \<or> (\<exists>b. a = Stamp j b)"
      | (second) "\<exists>b. a = Stamp j b" "h2 = h" "o2 = ?c" "(h1, i, o1) \<in> marks w" by blast
    then show ?thesis
    proof cases
      case first
      then show ?thesis using D(3) [of h2 j o2 i h] stamped [OF first(1)] key by (auto simp: precedes_def)
    next
      case second
      note j = stamped [OF second(1)]
      have "h1 = h" using same_key_same_holder [OF assms(2) L(1) [OF second(4)] R(1) [OF j] key(1) L(2) [OF second(4)] R(2) [OF j]] .
      then show ?thesis using D(1) [OF second(4)] second(3) by simp
    qed (use D(4) key in blast)
  qed
  show ?thesis
    unfolding in_sequence_def
    using order after bound increasing D(2) by (intro conjI allI impI) (auto split: if_splits)
qed

lemma in_sequence_step:
  assumes "race_step PerKey hs w w'" and "in_sequence w" and "locked PerKey w A"
  shows "in_sequence w'"
  using assms
proof (induction rule: race_step.induct)
  case (scan h w n names)
  have a: "aheads (map TryKey xs) = []" for xs by (induction xs) simp_all
  have "marks (w\<lparr>cw_passes := (cw_passes w)(h := n), cw_todo := (cw_todo w)(h := pass PerKey names)\<rparr>) = marks w"
    using scan.hyps(2) by (auto simp: marks_def split: if_splits)
  then show ?case using scan.prems(1) a by (simp add: in_sequence_def)
next
  case (move h w a rest elsewhere d clock ops)
  then show ?case using in_sequence_move by blast
next
  case (leave h w n)
  have "marks (w\<lparr>cw_passes := (cw_passes w)(h := 0)\<rparr>) = marks w" by (simp add: marks_def)
  then show ?case using leave.prems(1) by (simp add: in_sequence_def)
qed

section \<open>Every record is written before its item goes\<close>

text \<open>The item an operation found in the lane and that is still there.\<close>

fun op_needs :: "operation \<Rightarrow> string option" where
  "op_needs (Stamp i _) = Some i"
| "op_needs (Sign i _ _) = Some i"
| "op_needs (Write i _ _) = Some i"
| "op_needs _ = None"

text \<open>Two operations of one reader are never on one item, but for a record's write and its item's removal.\<close>

definition apart :: "operation \<Rightarrow> operation \<Rightarrow> bool" where
  "apart a b \<longleftrightarrow> op_item a = None \<or> op_item a \<noteq> op_item b \<or> (\<exists>i injected order. a = Write i injected order \<and> b = Consume i)"

definition signed_off :: "claim_world \<Rightarrow> bool" where
  "signed_off w \<longleftrightarrow>
     (\<forall>h. sorted_wrt apart (cw_todo w h)) \<and>
     (\<forall>h. \<forall>a \<in> set (cw_todo w h). \<forall>i. op_needs a = Some i \<longrightarrow> btree_get (cw_lane w) i \<noteq> None) \<and>
     (\<forall>i \<in> set item_names. \<forall>h c. btree_get (cw_lane w) (done_name i h) = Some c \<longrightarrow>
        (\<exists>order. c = decimal order) \<or> (\<exists>order. Write i False order \<in> set (cw_todo w h)))"

lemma signed_offD:
  assumes "signed_off w"
  shows "sorted_wrt apart (cw_todo w h)"
    and "a \<in> set (cw_todo w h) \<Longrightarrow> op_needs a = Some i \<Longrightarrow> btree_get (cw_lane w) i \<noteq> None"
    and "i \<in> set item_names \<Longrightarrow> btree_get (cw_lane w) (done_name i h) = Some c \<Longrightarrow>
      (\<exists>order. c = decimal order) \<or> (\<exists>order. Write i False order \<in> set (cw_todo w h))"
  using assms unfolding signed_off_def by blast+

lemma op_needs_item: "op_needs a = Some i \<Longrightarrow> op_item a = Some i"
  by (cases a) auto

lemma distinct_item_names: "distinct item_names"
  by code_simp

text \<open>What an operation is followed by is apart, within itself and from what was apart from it.\<close>

lemma operate_apart:
  assumes "op_honest way a" and "operate h a d c = (e, c', ops)"
  shows "sorted_wrt apart ops"
proof (cases a)
  case (TryKey k)
  with assms(1) have "k < KEYS" by simp
  have "sorted_wrt apart (map (\<lambda>seq. ReadItem (item_name k seq) False) xs)" if "distinct xs" "set xs \<subseteq> {0..<PER_KEY}" for xs
    using that
  proof (induction xs)
    case (Cons x xs)
    have "item_name k x \<noteq> item_name k y" if "y \<in> set xs" for y
      using that Cons.prems by (auto simp: item_name_def)
    with Cons show ?case by (auto simp: apart_def)
  qed simp
  then show ?thesis using TryKey assms(2) by (auto split: option.splits)
qed (use assms in \<open>auto simp: consume_unless_def apart_def split: option.splits if_splits\<close>)

lemma operate_new_apart:
  assumes "op_item a = Some i" and "op_honest way a" and "operate h a d c = (e, c', ops)" and "apart a x"
    and "b \<in> set ops"
  shows "apart b x"
proof (cases "\<exists>injected order. a = Write i injected order")
  case True
  with assms(3,5) show ?thesis by auto
next
  case False
  then have "op_item x \<noteq> Some i" using assms(1,4) by (auto simp: apart_def)
  then show ?thesis using operate_work(1) [OF assms(2,1,3,5)] by (auto simp: apart_def)
qed

text \<open>An operation found in a lane stays found: its item is removed by its own holder, and last.\<close>

lemma signed_off_move:
  assumes "signed_off w" and "locked way w A" and "cw_todo w h = a # rest" and "way \<noteq> WithoutClaiming"
    and "operate h a (cw_lane w) c = (d, c', ops)"
  shows "signed_off (w\<lparr>cw_lane := d, cw_clock := cl, cw_todo := (cw_todo w)(h := ops @ rest)\<rparr>)" (is "signed_off ?w")
proof -
  note D = signed_offD [OF assms(1)]
  note honest = locked_head [OF assms(2,3)]
  note att = operate_attends [OF honest assms(5,4)]
  have todo: "cw_todo ?w = (cw_todo w)(h := ops @ rest)" and lane: "cw_lane ?w = d" by simp_all
  have rest: "x \<in> set rest \<Longrightarrow> apart a x" for x using D(1) [of h] assms(3) by simp
  have items: "b \<in> set (cw_todo w h') \<Longrightarrow> op_item b = Some i \<Longrightarrow> i \<in> set item_names \<and> A (guard way i) = Some h'" for b h' i
    using lockedD(1,3) [OF assms(2)] op_item_in by blast
  have sorted: "sorted_wrt apart (ops @ rest)"
  proof (cases "op_item a")
    case None
    have "apart b x" if b: "b \<in> set ops" and x: "x \<in> set rest" for b x
    proof (rule operate_try [OF honest None, of h], goal_cases)
      case (1 l ops')
      from b assms(5) 1(1) have free: "btree_get (cw_lane w) l = None" "ops = ops'"
        by (auto simp: create_new_def split: option.splits)
      with b 1(3) obtain i where i: "op_item b = Some i" "guard way i = l" "i \<in> set item_names" by auto
      have "op_item x \<noteq> Some i"
      proof
        assume "op_item x = Some i"
        with items [of x h i] x assms(3) have "A (guard way i) = Some h" by auto
        then show False using lockedD(2) [OF assms(2) i(3)] i(2) free by simp
      qed
      with i show ?case by (auto simp: apart_def)
    qed
    then show ?thesis using operate_apart [OF honest assms(5)] D(1) [of h] by (simp add: sorted_wrt_append assms(3))
  next
    case (Some i)
    then show ?thesis
      using operate_apart [OF honest assms(5)] D(1) [of h] operate_new_apart [OF Some honest assms(5)] rest
      by (auto simp: sorted_wrt_append assms(3))
  qed
  have there: "btree_get d i \<noteq> None" if b: "b \<in> set (cw_todo ?w h')" and needs: "op_needs b = Some i" for h' b i
  proof (cases "h' = h \<and> b \<in> set ops")
    case True
    from assms(5) True needs have "op_item a = Some i \<and> ((\<exists>injected. a = ReadItem i injected) \<and> btree_get d i \<noteq> None
        \<or> op_needs a = Some i \<and> a \<noteq> Consume i)"
      by (cases a) (auto simp: consume_unless_def split: option.splits if_splits)
    then show ?thesis
      using att D(2) [of a h i] items [of a h i] assms(3) unfolding keeps_attending_def by auto
  next
    case False
    then have old: "b \<in> set (cw_todo w h')" and place: "h' = h \<Longrightarrow> b \<in> set rest" using b assms(3) by (auto split: if_splits)
    note item = items [OF old op_needs_item [OF needs]]
    have "a \<noteq> Consume i"
    proof
      assume a: "a = Consume i"
      then have "h' = h" using item items [of a h i] assms(3) by auto
      from rest [OF place [OF this]] a op_needs_item [OF needs] show False by (auto simp: apart_def)
    qed
    then show ?thesis using att D(2) [OF old needs] item unfolding keeps_attending_def by auto
  qed
  have signed: "(\<exists>order. x = decimal order) \<or> (\<exists>order. Write i False order \<in> set (cw_todo ?w h'))"
    if i: "i \<in> set item_names" and x: "btree_get d (done_name i h') = Some x" for i h' x
  proof (cases "btree_get (cw_lane w) (done_name i h') = Some x")
    case True
    from D(3) [OF i True] show ?thesis
    proof
      assume "\<exists>order. Write i False order \<in> set (cw_todo w h')"
      then obtain order where "Write i False order \<in> set (cw_todo w h')" ..
      moreover have "\<exists>order. x = decimal order" if "a = Write i False order" "h' = h"
        using that x assms(5) by (auto simp: store_simps)
      ultimately show ?thesis using assms(3) by (cases "h' = h") auto
    qed blast
  next
    case False
    have "op_item a \<noteq> None"
    proof
      assume None: "op_item a = None"
      show False
      proof (rule operate_try [OF honest None, of h], goal_cases)
        case (1 l ops')
        then have "l \<noteq> done_name i h'" using i by auto
        with False x assms(5) 1(1) show ?case by (auto simp: create_new_def store_simps split: option.splits)
      qed
    qed
    then obtain j where j: "op_item a = Some j" by blast
    then have "j \<in> set item_names" by (rule op_item_in [OF honest])
    with False x assms(5) i j honest show ?thesis
      by (cases a) (auto simp: create_new_def store_simps split: option.splits if_splits)
  qed
  show ?thesis
    unfolding signed_off_def lane
    using sorted D(1) there signed by (auto simp: todo)
qed

lemma signed_off_step:
  assumes "race_step way hs w w'" and "signed_off w" and "locked way w A" and "way \<noteq> WithoutClaiming"
  shows "signed_off w'"
  using assms
proof (induction rule: race_step.induct)
  case (scan h w n names)
  have quiet: "b \<in> set (pass way names) \<Longrightarrow> op_item b = None" for b using scan.prems(3) by (cases way) auto
  then have "sorted_wrt apart (pass way names)" by (intro sorted_wrt_iff_nth_less [THEN iffD2]) (auto simp: apart_def)
  moreover have "b \<in> set (pass way names) \<Longrightarrow> op_needs b = None" for b
    using quiet [of b] op_needs_item [of b] by (cases "op_needs b") auto
  moreover note D = signed_offD [OF scan.prems(1)]
  ultimately show ?case
    using D D(3) [of _ h] scan.hyps(2) unfolding signed_off_def by (auto split: if_splits)
next
  case (move h w a rest elsewhere d clock ops)
  then show ?case using signed_off_move by blast
next
  case (leave h w n)
  then show ?case by (simp add: signed_off_def)
qed

section \<open>What a lane holds\<close>

definition named :: "way \<Rightarrow> claim_world \<Rightarrow> bool" where
  "named way w \<longleftrightarrow> btree_wf (cw_lane w) \<and>
     (\<forall>n \<in> fst ` set (cw_lane w). n \<in> set item_names \<or> (\<exists>i \<in> set item_names. n = guard way i)
        \<or> (\<exists>i \<in> set item_names. \<exists>h. n = done_name i h))"

lemma fst_set_btree_remove: "fst ` set (btree_remove k m) = fst ` set m - {k}"
  by (auto simp: btree_remove_def image_iff)

text \<open>An operation creates at most one file, a lock or a done record.\<close>

lemma operate_files:
  assumes "op_honest way a" and "operate h a d c = (e, c', ops)"
  obtains "e = d" | l x where "e = btree_insert l x d" "l \<in> guard way ` set item_names"
    | i x where "e = btree_insert (done_name i h) x d" "i \<in> set item_names" | i where "e = btree_remove i d"
proof (cases "op_item a")
  case None
  show thesis
  proof (rule operate_try [OF assms(1) None, of h], goal_cases)
    case (1 l ops')
    then show ?case using assms(2) that(1,2) by (cases "btree_get d l") (auto simp: create_new_def)
  qed
next
  case (Some j)
  then have j: "j \<in> set item_names" by (rule op_item_in [OF assms(1)])
  have "e = d \<or> (\<exists>x. e = btree_insert (done_name j h) x d) \<or> e = btree_remove j d"
    using assms(2) Some by (cases a) (auto simp: create_new_def split: option.splits)
  then show thesis using that(1,3,4) j by blast
qed

lemma named_move:
  assumes "named way w" and "locked way w A" and "cw_todo w h = a # rest"
    and "operate h a (cw_lane w) c = (d, c', ops)" and "cw_lane w' = d"
  shows "named way w'"
proof -
  have wf: "btree_wf (cw_lane w)"
    and old: "n \<in> fst ` set (cw_lane w) \<Longrightarrow> n \<in> set item_names \<or> (\<exists>i \<in> set item_names. n = guard way i)
        \<or> (\<exists>i \<in> set item_names. \<exists>h. n = done_name i h)" for n
    using assms(1) by (auto simp: named_def)
  from locked_head [OF assms(2,3)] assms(4) show ?thesis
  proof (cases rule: operate_files)
    case 1
    then show ?thesis using assms(1,5) by (simp add: named_def)
  next
    case (2 l x)
    then show ?thesis
      unfolding named_def assms(5) 2(1) fst_set_btree_insert using wf old by (auto simp: btree_wf_insert)
  next
    case (3 i x)
    then show ?thesis
      unfolding named_def assms(5) 3(1) fst_set_btree_insert using wf old by (auto simp: btree_wf_insert)
  next
    case (4 i)
    then show ?thesis
      unfolding named_def assms(5) 4(1) fst_set_btree_remove using wf old by (auto simp: btree_wf_remove)
  qed
qed

lemma named_step:
  assumes "race_step way hs w w'" and "named way w" and "locked way w A"
  shows "named way w'"
  using assms
proof (induction rule: race_step.induct)
  case (move h w a rest elsewhere d clock ops)
  then show ?case using named_move [OF move.prems move.hyps(2,3)] by simp
qed (simp_all add: named_def)

lemma not_item_names [simp]:
  "i \<in> set item_names \<Longrightarrow> done_name i h \<notin> set item_names" "i \<in> set item_names \<Longrightarrow> guard way i \<notin> set item_names"
  using item_clean [of "done_name i h"] item_clean [of "guard way i"] guard_dotted [of i way]
  by (auto simp: item_facts)

definition idle_outside :: "string set \<Rightarrow> claim_world \<Rightarrow> bool" where
  "idle_outside hs w \<longleftrightarrow> (\<forall>h. h \<notin> hs \<longrightarrow> cw_todo w h = [])"

lemma idle_outside_step: "race_step way hs w w' \<Longrightarrow> idle_outside hs w \<Longrightarrow> idle_outside hs w'"
  by (induction rule: race_step.induct) (auto simp: idle_outside_def)

section \<open>A race from its start\<close>

lemma stage_lane_get:
  assumes "stage_lane made written = Some (d, n)"
  shows "btree_get d name = (if name \<in> set item_names \<and> written name then Some ''x'' else None)"
proof -
  have "btree_get (fold (\<lambda>item d. btree_insert item ''x'' d) xs d) name =
      (if name \<in> set xs then Some ''x'' else btree_get d name)" for xs d
    by (induction xs arbitrary: d) (auto simp: store_simps)
  with assms show ?thesis by (auto simp: stage_lane_def Let_def store_simps split: if_splits)
qed

lemma stage_lane_wf:
  assumes "stage_lane made written = Some (d, n)"
  shows "btree_wf d"
proof -
  have "btree_wf d \<Longrightarrow> btree_wf (fold (\<lambda>item d. btree_insert item ''x'' d) xs d)" for xs and d :: dir
    by (induction xs arbitrary: d) (auto simp: btree_wf_insert)
  with assms show ?thesis by (auto simp: stage_lane_def Let_def split: if_splits)
qed

definition laid :: "(string \<Rightarrow> bool) \<Rightarrow> string set" where
  "laid written = {i \<in> set item_names. written i}"

text \<open>All that holds in an honest race over a staged lane.\<close>

lemma race_invariant:
  assumes "race_reachable way hs d w" and "stage_lane made written = Some (d, n)" and "way \<noteq> WithoutClaiming"
  shows "\<exists>A. locked way w A \<and> attended way (laid written) hs w \<and> named way w \<and> idle_outside hs w
    \<and> signed_off w \<and> (way = PerKey \<longrightarrow> in_sequence w)"
  using assms(1)
proof (induction rule: race_reachable.induct)
  case start
  note get = stage_lane_get [OF assms(2)]
  have names: "n \<in> fst ` set d \<Longrightarrow> n \<in> set item_names" for n
    using get [of n] btree_get_in [of d n] by (auto split: if_splits)
  have "marks (race_start way d) = {}" using get by (auto simp: marks_def race_start_def)
  then have "in_sequence (race_start way d)" by (simp add: in_sequence_def) (simp add: race_start_def)
  then show ?case
    using get names stage_lane_wf [OF assms(2)]
    by (intro exI [of _ "\<lambda>_. None"])
       (auto simp: locked_def attended_def named_def idle_outside_def race_start_def laid_def signed_off_def)
next
  case (step w w')
  then obtain A where inv: "locked way w A" "attended way (laid written) hs w" "named way w" "idle_outside hs w"
    "signed_off w" "way = PerKey \<longrightarrow> in_sequence w" by blast
  have "laid written \<subseteq> set item_names" by (auto simp: laid_def)
  with inv show ?case
    using locked_step [OF step.hyps(2) inv(1) assms(3)] attended_step [OF step.hyps(2) inv(2,1) assms(3)]
      named_step [OF step.hyps(2) inv(3,1)] idle_outside_step [OF step.hyps(2) inv(4)]
      signed_off_step [OF step.hyps(2) inv(5,1) assms(3)] in_sequence_step [of hs w w' A] step.hyps(2) by blast
qed

text \<open>An honest race that is over has drained its lane.\<close>

lemma over_drained:
  assumes "race_reachable way hs d w" and "stage_lane made written = Some (d, n)" and "way \<noteq> WithoutClaiming"
    and "race_over hs w" and "hs \<noteq> {}"
  shows "lane_list ''item_'' (cw_lane w) = []"
proof (rule ccontr)
  assume "lane_list ''item_'' (cw_lane w) \<noteq> []"
  then obtain i where i: "i \<in> set (lane_list ''item_'' (cw_lane w))" using list.set_intros(1) neq_Nil_conv by metis
  from race_invariant [OF assms(1-3)] obtain A where inv: "attended way (laid written) hs w" "named way w"
    "idle_outside hs w" by blast
  from i have "i \<in> fst ` set (cw_lane w)" and dot: "CHR ''.'' \<notin> set i" by (auto simp: lane_list_def)
  with inv(2) have name: "i \<in> set item_names"
    using guard_dotted [of _ way] item_facts(2) unfolding named_def by fastforce
  then have there: "btree_get (cw_lane w) i \<noteq> None" using lane_list_present i by blast
  have idle: "cw_todo w h = []" for h using assms(4) inv(3) by (auto simp: race_over_def idle_outside_def)
  from assms(5) obtain h where "h \<in> hs" by blast
  moreover from this have "cw_passes w h < passes_of way" using assms(4) by (auto simp: race_over_def passes_of_def SCANS_def)
  ultimately show False using attendedD(3) [OF inv(1) name there] attendedD(4) [OF inv(1) _ _ name there] idle by fastforce
qed

section \<open>A race ends\<close>

fun weight :: "operation \<Rightarrow> nat" where
  "weight (TryItem _) = 6"
| "weight (TryKey _) = 16"
| "weight (ReadItem _ _) = 5"
| "weight (Stamp _ _) = 4"
| "weight (Sign _ _ _) = 3"
| "weight (Write _ _ _) = 1"
| "weight (Consume _) = 1"

definition weights :: "operation list \<Rightarrow> nat" where
  "weights ops = sum_list (map weight ops)"

lemma operate_lighter: "operate h a d c = (e, c', ops) \<Longrightarrow> weights ops < weight a"
  by (cases a) (auto simp: weights_def consume_unless_def PER_KEY_def comp_def sum_list_triv split: option.splits if_splits)

lemma sum_upd:
  fixes f :: "string \<Rightarrow> nat"
  assumes "finite hs" "h \<in> hs" "x < f h"
  shows "(\<Sum>k\<in>hs. (f(h := x)) k) < (\<Sum>k\<in>hs. f k)"
proof (rule sum_strict_mono_ex1 [OF assms(1)])
  show "\<forall>k\<in>hs. (f(h := x)) k \<le> f k" "\<exists>k\<in>hs. (f(h := x)) k < f k" using assms(2,3) by auto
qed

lemma race_step_lighter:
  assumes "race_step way (set hs) w w'"
  shows "(w', w) \<in> measures [\<lambda>w. \<Sum>h\<in>set hs. cw_passes w h, \<lambda>w. \<Sum>h\<in>set hs. weights (cw_todo w h)]"
  using assms
proof (induction rule: race_step.induct)
  case (scan h w n names)
  then show ?case using sum_upd [of "set hs" h n "cw_passes w"] by simp
next
  case (move h w a rest elsewhere d clock ops)
  have "weights (ops @ rest) < weights (cw_todo w h)"
    using operate_lighter [OF move.hyps(3)] move.hyps(2) by (simp add: weights_def)
  moreover have "(\<Sum>k\<in>set hs. weights (((cw_todo w)(h := ops @ rest)) k)) =
      (\<Sum>k\<in>set hs. ((\<lambda>k. weights (cw_todo w k))(h := weights (ops @ rest))) k)"
    by (intro sum.cong) auto
  ultimately show ?case using sum_upd [of "set hs" h "weights (ops @ rest)" "\<lambda>k. weights (cw_todo w k)"] move.hyps(1) by simp
next
  case (leave h w n)
  then show ?case using sum_upd [of "set hs" h 0 "cw_passes w"] by simp
qed

end
