(* ===== verification/Exclusive_Claim.thy ===== *)
theory Exclusive_Claim
  imports Pickup_Race Ledger
begin

text \<open>
  The exclusive claim test (\<open>src/exclusive_claim.rs\<close>) and what a drained lane shows
  (\<open>src/exclusive_claim/drained.rs\<close>): the judgment of a lane's done records, the settling that waits
  for it, and a round over the three styles. What the race of a round left in the lane is an argument
  of the round; \<open>Pickup_Race\<close> is about which lanes a race leaves. A set of strings is its elements in
  order.
\<close>

section \<open>The judgment\<close>

datatype style = Sequential | Parallel | Concurrent

definition STYLES :: "style list" where
  "STYLES = [Sequential, Parallel, Concurrent]"

fun style_name :: "style \<Rightarrow> string" where
  "style_name Sequential = ''sequential''"
| "style_name Parallel = ''parallel''"
| "style_name Concurrent = ''concurrent''"

definition style_ordered :: "style \<Rightarrow> bool" where
  "style_ordered st \<longleftrightarrow> st = Sequential"

datatype claim_verdict = Held string | Contended string | Missed string

definition READERS :: nat where
  "READERS = 4"

definition BREACH_RATE :: u8 where
  "BREACH_RATE = 12"

definition SUBSTRATE :: string where
  "SUBSTRATE = ''file''"

text \<open>Item to the holders that processed it.\<close>

definition holders :: "processed list \<Rightarrow> (string, string list) btree" where
  "holders ps = fold (\<lambda>r m. btree_upsert (pr_item r) [] (insort_insert (pr_holder r)) m) ps []"

definition duplicated :: "processed list \<Rightarrow> bool" where
  "duplicated ps \<longleftrightarrow> list_ex (\<lambda>(_, who). 1 < length who) (holders ps)"

text \<open>The loop of \<open>ordered_per_key\<close> over the records in order: the last place seen of every key.\<close>

fun in_order :: "processed list \<Rightarrow> (nat, nat) btree \<Rightarrow> bool" where
  "in_order [] seen = True"
| "in_order (r # rs) seen =
     (case btree_get seen (pr_key r) of
        Some previous \<Rightarrow> if pr_seq r < previous then False else in_order rs (btree_insert (pr_key r) (pr_seq r) seen)
      | None \<Rightarrow> in_order rs (btree_insert (pr_key r) (pr_seq r) seen))"

definition ordered_per_key :: "processed list \<Rightarrow> bool" where
  "ordered_per_key ps = in_order (sort_key pr_order ps) []"

text \<open>The processes that held an item.\<close>

definition owners :: "processed list \<Rightarrow> string list" where
  "owners ps =
     fold insort_insert (List.map_filter (\<lambda>r. map_option fst (split_once ''-'' (pr_holder r))) ps) []"

definition claim_judge :: "style \<Rightarrow> nat \<Rightarrow> processed list \<Rightarrow> claim_verdict" where
  "claim_judge st dropped ps =
     (let hs = holders ps in
      case find (\<lambda>(_, who). 1 < length who) hs of
        Some (item, who) \<Rightarrow>
          let note = (if list_ex pr_injected ps then '' (injected)'' else []) in
          Contended (item @ '' was claimed by '' @ decimal (length who) @ '' holders at once: ''
            @ join '', '' who @ note)
      | None \<Rightarrow>
          if length hs < dropped
          then Missed (decimal (dropped - length hs) @ '' of '' @ decimal dropped @ '' items were never claimed'')
          else if style_ordered st \<and> \<not> ordered_per_key ps
          then Contended ''the sequence was reordered under contention''
          else Held (decimal dropped @ '' items, one holder each''
                 @ (if style_ordered st then '', in order per key'' else [])
                 @ '', '' @ decimal (length (owners ps)) @ '' process(es)''))"

section \<open>A round\<close>

text \<open>
  The loop of \<open>settle\<close>, given what each of its looks at the lane finds and whether the wait had run out
  by then: it returns the records of the first look that satisfies it, and has no result only where
  the looks end before that.
\<close>

fun settle :: "bool \<Rightarrow> (dir \<times> bool) list \<Rightarrow> processed list option" where
  "settle shared [] = None"
| "settle shared ((lane, late) # looks) =
     (let processed = lane_ledger lane; drained = (lane_list ''item_'' lane = []) in
      if \<not> shared \<or> drained \<or> duplicated processed \<or> late then Some processed
      else settle shared looks)"

record exclusive_claim =
  ec_node :: string
  ec_dir :: string
  ec_tag :: string
  ec_shared :: bool
  ec_round :: nat
  ec_rate :: u8
  ec_standings :: "(string, standing) btree"

definition exclusive_claim_new :: "string \<Rightarrow> string \<Rightarrow> nat \<Rightarrow> exclusive_claim" where
  "exclusive_claim_new node dir pid =
     \<lparr>ec_node = node, ec_dir = dir, ec_tag = decimal pid, ec_shared = False, ec_round = 0, ec_rate = 0,
      ec_standings = []\<rparr>"

definition exclusive_claim_shared :: "string \<Rightarrow> string \<Rightarrow> nat \<Rightarrow> exclusive_claim" where
  "exclusive_claim_shared node dir pid = (exclusive_claim_new node dir pid)\<lparr>ec_shared := True\<rparr>"

definition under_pressure :: "exclusive_claim \<Rightarrow> exclusive_claim" where
  "under_pressure E = E\<lparr>ec_rate := BREACH_RATE\<rparr>"

definition exclusive_claim_at :: "stress \<Rightarrow> exclusive_claim \<Rightarrow> exclusive_claim" where
  "exclusive_claim_at level E = E\<lparr>ec_rate := scaled_rate BREACH_RATE level\<rparr>"

text \<open>Whether a round's readers of a style go without claiming, and who they sign as.\<close>

definition claim_broken :: "exclusive_claim \<Rightarrow> style \<Rightarrow> bool" where
  "claim_broken E st = fires_keyed (ec_rate E) (''breach/'' @ style_name st) (ec_round E)"

definition reader_holder :: "exclusive_claim \<Rightarrow> nat \<Rightarrow> string" where
  "reader_holder E index = ec_tag E @ ''-'' @ decimal index"

text \<open>
  The round of one style: the lane staged, or not; then the looks at it once the readers have raced.
  \<open>looks\<close> is given whether the readers were broken.
\<close>

definition exercise ::
    "exclusive_claim \<Rightarrow> (dir \<times> nat) option \<Rightarrow> (bool \<Rightarrow> (dir \<times> bool) list) \<Rightarrow> style \<Rightarrow> claim_verdict option" where
  "exercise E staged looks st =
     (case staged of
        None \<Rightarrow> Some (Missed ''could not create the pickup lane'')
      | Some (_, dropped) \<Rightarrow>
          map_option (claim_judge st dropped) (settle (ec_shared E) (looks (claim_broken E st))))"

definition claim_fold ::
    "style \<Rightarrow> claim_verdict \<Rightarrow> int \<Rightarrow> exclusive_claim \<Rightarrow> exclusive_claim \<times> health_record" where
  "claim_fold st verdict now E =
     (let scope = ec_node E @ ''/'' @ SUBSTRATE @ ''/'' @ style_name st;
          (ok, line) = (case verdict of Held line \<Rightarrow> (True, line) | Contended line \<Rightarrow> (False, line)
                          | Missed line \<Rightarrow> (False, line));
          m = (if ok then Pass else Fail);
          s = standing_record (m, line)
                (case btree_get (ec_standings E) scope of None \<Rightarrow> standing_default | Some s \<Rightarrow> s) in
      (E\<lparr>ec_standings := btree_insert scope s (ec_standings E)\<rparr>, standing_health s scope now))"

text \<open>A tick, given the verdict each style's exercise came to.\<close>

definition exclusive_claim_tick ::
    "(exclusive_claim \<Rightarrow> style \<Rightarrow> claim_verdict) \<Rightarrow> int \<Rightarrow> exclusive_claim \<Rightarrow> exclusive_claim \<times> snapshot" where
  "exclusive_claim_tick exercised now E =
     (let E = E\<lparr>ec_round := ec_round E + 1\<rparr> in
      fold (\<lambda>st (E, snap).
          let (E, r) = claim_fold st (exercised E st) now E in (E, snap @ [RecordHealth r]))
        STYLES (E, []))"

section \<open>What a drained lane shows\<close>

record drained =
  dr_left :: nat
  dr_held :: nat
  dr_held_twice :: nat
  dr_processes :: nat

definition drained_lane :: "dir \<Rightarrow> drained" where
  "drained_lane lane =
     (let records = lane_ledger lane; hs = holders records in
      \<lparr>dr_left = length (lane_list ''item_'' lane), dr_held = length hs,
       dr_held_twice = length (filter (\<lambda>(_, who). 1 < length who) hs),
       dr_processes = length (owners records)\<rparr>)"

section \<open>Holders\<close>

lemma set_fold_insert: "set (fold (\<lambda>r. insort_insert (f r)) rs who) = f ` set rs \<union> set who"
  by (induction rs arbitrary: who) (auto simp: set_insort_insert)

lemma distinct_fold_insert: "distinct who \<Longrightarrow> distinct (fold (\<lambda>r. insort_insert (f r)) rs who)"
  by (induction rs arbitrary: who) (simp_all add: distinct_insort_insert)

lemma holders_wf: "btree_wf (holders ps)"
  unfolding holders_def using bt.wf_fold_upsert [of "[]" pr_item "[]" "\<lambda>r. insort_insert (pr_holder r)" ps] by simp

lemma holders_get:
  "btree_get (holders ps) i = (if i \<in> pr_item ` set ps
     then Some (fold (\<lambda>r. insort_insert (pr_holder r)) (filter (\<lambda>r. pr_item r = i) ps) []) else None)"
proof -
  note got = bt.get_fold_upsert [of pr_item "[]" "\<lambda>r. insort_insert (pr_holder r)" ps "[]" i, folded holders_def]
  show ?thesis
  proof (cases "filter (\<lambda>r. pr_item r = i) ps")
    case Nil
    then have "i \<notin> pr_item ` set ps" by (auto simp: filter_empty_conv)
    then show ?thesis using got Nil by (simp add: btree_get_Nil)
  next
    case (Cons r rs)
    then have "r \<in> set (filter (\<lambda>r. pr_item r = i) ps)" by simp
    then have "i \<in> pr_item ` set ps" by auto
    then show ?thesis using got Cons by (simp add: btree_get_Nil)
  qed
qed

lemma holders_in:
  "(i, who) \<in> set (holders ps) \<longleftrightarrow> i \<in> pr_item ` set ps
     \<and> who = fold (\<lambda>r. insort_insert (pr_holder r)) (filter (\<lambda>r. pr_item r = i) ps) []"
  unfolding btree_get_iff [OF holders_wf, symmetric] holders_get by auto

lemma holders_of:
  assumes "(i, who) \<in> set (holders ps)"
  shows "set who = {h. \<exists>r \<in> set ps. pr_item r = i \<and> pr_holder r = h}" "distinct who"
proof -
  from assms have who: "who = fold (\<lambda>r. insort_insert (pr_holder r)) (filter (\<lambda>r. pr_item r = i) ps) []"
    by (simp add: holders_in)
  show "set who = {h. \<exists>r \<in> set ps. pr_item r = i \<and> pr_holder r = h}" "distinct who"
    unfolding who set_fold_insert using distinct_fold_insert [of "[]"] by auto
qed

lemma length_holders: "length (holders ps) = card (pr_item ` set ps)"
proof -
  have "i \<in> fst ` set (holders ps) \<longleftrightarrow> (\<exists>who. (i, who) \<in> set (holders ps))" for i by force
  then have "fst ` set (holders ps) = pr_item ` set ps" by (auto simp: holders_in)
  then show ?thesis using distinct_card [OF btree_wf_distinct [OF holders_wf [of ps]]] by simp
qed

lemma many_iff: "distinct xs \<Longrightarrow> 1 < length xs \<longleftrightarrow> (\<exists>x \<in> set xs. \<exists>y \<in> set xs. x \<noteq> y)"
proof (induction xs)
  case (Cons x xs)
  then show ?case by (cases xs) auto
qed simp

lemma duplicated_iff:
  "duplicated ps \<longleftrightarrow> (\<exists>r \<in> set ps. \<exists>s \<in> set ps. pr_item r = pr_item s \<and> pr_holder r \<noteq> pr_holder s)"
proof
  assume "duplicated ps"
  then obtain i who where who: "(i, who) \<in> set (holders ps)" and "1 < length who"
    by (auto simp: duplicated_def list_ex_iff)
  then show "\<exists>r \<in> set ps. \<exists>s \<in> set ps. pr_item r = pr_item s \<and> pr_holder r \<noteq> pr_holder s"
    using many_iff [OF holders_of(2) [OF who]] unfolding holders_of(1) [OF who] by fastforce
next
  assume "\<exists>r \<in> set ps. \<exists>s \<in> set ps. pr_item r = pr_item s \<and> pr_holder r \<noteq> pr_holder s"
  then obtain r s where rs: "r \<in> set ps" "s \<in> set ps" "pr_item r = pr_item s" "pr_holder r \<noteq> pr_holder s" by blast
  then obtain who where who: "(pr_item r, who) \<in> set (holders ps)" by (auto simp: holders_in)
  have "pr_holder r \<in> set who" "pr_holder s \<in> set who" unfolding holders_of(1) [OF who] using rs by auto
  then have "1 < length who" using many_iff [OF holders_of(2) [OF who]] rs(4) by blast
  then show "duplicated ps" using who by (auto simp: duplicated_def list_ex_iff)
qed

section \<open>Order per key\<close>

definition keeps_order :: "processed \<Rightarrow> processed \<Rightarrow> bool" where
  "keeps_order r s \<longleftrightarrow> pr_key r \<noteq> pr_key s \<or> pr_seq r \<le> pr_seq s"

lemma in_order_iff:
  "in_order rs seen \<longleftrightarrow> sorted_wrt keeps_order rs
     \<and> (\<forall>r \<in> set rs. \<forall>previous. btree_get seen (pr_key r) = Some previous \<longrightarrow> previous \<le> pr_seq r)"
proof (induction rs arbitrary: seen)
  case (Cons r rs)
  have "in_order (r # rs) seen \<longleftrightarrow> (\<forall>p. btree_get seen (pr_key r) = Some p \<longrightarrow> p \<le> pr_seq r)
      \<and> in_order rs (btree_insert (pr_key r) (pr_seq r) seen)"
    by (auto split: option.split)
  also have "\<dots> \<longleftrightarrow> sorted_wrt keeps_order (r # rs)
      \<and> (\<forall>s \<in> set (r # rs). \<forall>p. btree_get seen (pr_key s) = Some p \<longrightarrow> p \<le> pr_seq s)"
    by (simp add: Cons.IH store_simps keeps_order_def [abs_def]) (auto intro: order_trans)
  finally show ?case .
qed simp

section \<open>The records of a lane\<close>

lemma digit_not_white: "is_digit c \<Longrightarrow> w \<in> set white_space \<Longrightarrow> \<not> prefix w (c # s)"
  by (auto simp: white_space_def is_digit_def)

lemma until_white_digits: "list_all is_digit s \<Longrightarrow> until_white s = s"
  by (induction s) (auto simp: list_ex_iff digit_not_white)

lemma first_word_decimal: "first_word (decimal n) = Some (decimal n)"
proof -
  have "strip_front white_space (decimal n) = decimal n"
    using list_all_is_digit_decimal [of n]
    by (cases "decimal n"; subst strip_front.simps)
       (auto simp: find_None_iff digit_not_white find_Some_iff split: option.split)
  then show ?thesis
    using until_white_digits [OF list_all_is_digit_decimal [of n]] by (simp add: first_word_def split: list.split)
qed

lemma lane_record_done:
  assumes "i \<in> set item_names"
  shows "\<exists>r. lane_record (done_name i h, c) = Some r \<and> pr_item r = i \<and> pr_holder r = h
    \<and> (pr_key r, pr_seq r) = parse_item i
    \<and> (\<forall>order. c = decimal order \<longrightarrow> order < 2 ^ 64 \<longrightarrow> pr_order r = order)"
  using done_split [OF assms, of h]
  by (cases "parse_item i") (simp add: lane_record_def first_word_decimal parse_unsigned_decimal)

text \<open>The ledger of a lane is the done records of its items, and nothing else in it.\<close>

lemma ledger_records:
  assumes "named way w" and "r \<in> set (lane_ledger (cw_lane w))"
  obtains i h c where "i \<in> set item_names" "btree_get (cw_lane w) (done_name i h) = Some c"
    "pr_item r = i" "pr_holder r = h" "(pr_key r, pr_seq r) = parse_item i"
    "\<And>order. c = decimal order \<Longrightarrow> order < 2 ^ 64 \<Longrightarrow> pr_order r = order"
proof -
  from assms(2) obtain n c where nc: "(n, c) \<in> set (cw_lane w)" "lane_record (n, c) = Some r"
    by (auto simp: lane_ledger_def List.map_filter_def)
  have "split_once ''.done.'' n \<noteq> None"
    using nc(2) by (cases "split_once ''.done.'' n") (auto simp: lane_record_def)
  moreover have "n \<in> fst ` set (cw_lane w)" using nc(1) by force
  ultimately obtain i h where i: "i \<in> set item_names" "n = done_name i h"
    using assms(1) lock_split [of _ way] item_split unfolding named_def by (metis option.distinct(1))
  have "btree_get (cw_lane w) (done_name i h) = Some c"
    using nc(1) assms(1) i(2) by (simp add: named_def btree_get_iff)
  with i nc(2) lane_record_done [OF i(1), of h c] show thesis by (intro that) auto
qed

lemma ledger_has:
  assumes "btree_get (cw_lane w) (done_name i h) \<noteq> None" "i \<in> set item_names"
  shows "\<exists>r \<in> set (lane_ledger (cw_lane w)). pr_item r = i"
proof -
  from assms(1) obtain c where "(done_name i h, c) \<in> set (cw_lane w)" by (auto simp: btree_get_def dest: map_of_SomeD)
  then show ?thesis
    using lane_record_done [OF assms(2), of h c] by (force simp: lane_ledger_def List.map_filter_def)
qed

lemma one_holder:
  assumes "locked way w A" and "named way w" and "r \<in> set (lane_ledger (cw_lane w))" "s \<in> set (lane_ledger (cw_lane w))"
    and "pr_item r = pr_item s"
  shows "pr_holder r = pr_holder s"
proof -
  from assms(2,3) obtain i h where r: "i \<in> set item_names" "btree_get (cw_lane w) (done_name i h) \<noteq> None"
    "pr_item r = i" "pr_holder r = h" by (elim ledger_records) auto
  from assms(2,4) obtain j g where s: "j \<in> set item_names" "btree_get (cw_lane w) (done_name j g) \<noteq> None"
    "pr_item s = j" "pr_holder s = g" by (elim ledger_records) auto
  show ?thesis using lockedD(4) [OF assms(1) r(1,2)] lockedD(4) [OF assms(1) s(1,2)] r(3,4) s(3,4) assms(5) by simp
qed

section \<open>The claim holds\<close>

text \<open>A lane where the write of all but two items failed.\<close>

definition example_written :: "string \<Rightarrow> bool" where
  "example_written i \<longleftrightarrow> i = ''item_0_0'' \<or> i = ''item_0_1''"

definition example_lane :: dir where
  "example_lane = [(''item_0_0'', ''x''), (''item_0_1'', ''x'')]"

lemma example_lane: "stage_lane True example_written = Some (example_lane, 2)"
  by code_simp

text \<open>C12: exclusive pickup. However the honest readers of any number of processes interleave over a
  staged lane, and whenever it is looked at, no item has been processed by two holders.\<close>

theorem one_holder_per_item:
  assumes "race_reachable way hs d w" and "stage_lane made written = Some (d, n)" and "way \<noteq> WithoutClaiming"
  shows "\<not> duplicated (lane_ledger (cw_lane w))"
  using race_invariant [OF assms] one_holder unfolding duplicated_iff by blast

theorem one_holder_per_item_witness:
  "race_reachable PerItem {''7-0'', ''9-1''} example_lane (race_start PerItem example_lane)
   \<and> \<not> duplicated (lane_ledger (cw_lane (race_start PerItem example_lane)))"
  using one_holder_per_item [OF race_reachable.start [of PerItem "{''7-0'', ''9-1''}" example_lane] example_lane]
  by (simp add: race_reachable.start)

lemma distinct_laid: "stage_lane made written = Some (d, n) \<Longrightarrow> n = card (laid written)"
  using distinct_card [OF distinct_filter [OF distinct_item_names, of written]]
  by (auto simp: stage_lane_def Let_def laid_def split: if_splits)

lemma drained_holders:
  assumes "attended way (laid written) hs w" and "lane_list ''item_'' (cw_lane w) = []"
    and "stage_lane made written = Some (d, n)"
  shows "n \<le> length (holders (lane_ledger (cw_lane w)))"
proof -
  have "laid written \<subseteq> pr_item ` set (lane_ledger (cw_lane w))"
  proof
    fix i assume i: "i \<in> laid written"
    then have name: "i \<in> set item_names" by (simp add: laid_def)
    then have "btree_get (cw_lane w) i = None" using assms(2) lane_list_present [OF name, of "cw_lane w"] by simp
    then show "i \<in> pr_item ` set (lane_ledger (cw_lane w))"
      using attendedD(2) [OF assms(1) i] ledger_has [of w i] name by fastforce
  qed
  then show ?thesis unfolding length_holders distinct_laid [OF assms(3)] by (intro card_mono) auto
qed

lemma drained_written:
  assumes "signed_off w" and "lane_list ''item_'' (cw_lane w) = []" and "i \<in> set item_names"
    and "btree_get (cw_lane w) (done_name i h) = Some c"
  shows "\<exists>order. c = decimal order"
  using signed_offD(3) [OF assms(1,3,4)]
proof
  assume "\<exists>order. Write i False order \<in> set (cw_todo w h)"
  then have "btree_get (cw_lane w) i \<noteq> None" using signed_offD(2) [OF assms(1)] op_needs.simps(3) by blast
  then show ?thesis using assms(2) lane_list_present [OF assms(3), of "cw_lane w"] by simp
qed

lemma drained_in_order:
  assumes "in_sequence w" and "named PerKey w" and "signed_off w" and "lane_list ''item_'' (cw_lane w) = []"
    and "\<forall>p. cw_clock w p \<le> 2 ^ 64"
  shows "ordered_per_key (lane_ledger (cw_lane w))"
proof -
  let ?ps = "sort_key pr_order (lane_ledger (cw_lane w))"
  have mark: "\<exists>i h. (h, i, pr_order r) \<in> marks w \<and> (pr_key r, pr_seq r) = parse_item i"
    if "r \<in> set (lane_ledger (cw_lane w))" for r
    using assms(2) that
  proof (cases rule: ledger_records)
    case (1 i h c)
    from drained_written [OF assms(3,4) 1(1,2)] obtain order where c: "c = decimal order" ..
    then have m: "(h, i, order) \<in> marks w" using 1(1,2) by (auto simp: marks_def)
    then have "order < 2 ^ 64" using in_sequenceD(1) [OF assms(1)] assms(5) less_le_trans by blast
    then show ?thesis using m 1(5,6) c by blast
  qed
  have "sorted_wrt keeps_order ?ps"
    unfolding sorted_wrt_iff_nth_less
  proof (intro allI impI)
    fix i j assume ij: "i < j" "j < length ?ps"
    then have "?ps ! i \<in> set ?ps" "?ps ! j \<in> set ?ps" using nth_mem [of i ?ps] nth_mem [of j ?ps] by simp_all
    then obtain a b g h where a: "(g, a, pr_order (?ps ! i)) \<in> marks w" "(pr_key (?ps ! i), pr_seq (?ps ! i)) = parse_item a"
      and b: "(h, b, pr_order (?ps ! j)) \<in> marks w" "(pr_key (?ps ! j), pr_seq (?ps ! j)) = parse_item b"
      using mark by (metis set_sort)
    have "pr_order (?ps ! i) \<le> pr_order (?ps ! j)"
      using sorted_nth_mono [OF sorted_sort_key [of pr_order "lane_ledger (cw_lane w)"], of i j] ij by simp
    then show "keeps_order (?ps ! i) (?ps ! j)"
      using in_sequenceD(4) [OF assms(1) b(1) a(1)] a(2) b(2) unfolding keeps_order_def
      by (metis fst_conv snd_conv linorder_not_less)
  qed
  then show ?thesis by (simp add: ordered_per_key_def in_order_iff btree_get_Nil)
qed

text \<open>What keeps a judgment from finding anything but a held claim.\<close>

lemma judge_held:
  assumes "\<not> duplicated ps" and "n \<le> length (holders ps)" and "style_ordered st \<Longrightarrow> ordered_per_key ps"
  shows "\<exists>line. claim_judge st n ps = Held line"
proof -
  have "find (\<lambda>(_, who). 1 < length who) (holders ps) = None"
    using assms(1) by (auto simp: find_None_iff duplicated_def list_ex_iff)
  with assms(2,3) show ?thesis by (auto simp: claim_judge_def Let_def)
qed

lemma honest_way [simp]: "reader_way b False \<noteq> WithoutClaiming" "reader_way True False = PerKey"
  by (cases b; simp add: reader_way_def)+

lemma drained_held:
  assumes "race_reachable (reader_way (style_ordered st) False) hs d w" and "stage_lane made written = Some (d, n)"
    and "lane_list ''item_'' (cw_lane w) = []" and "\<forall>p. cw_clock w p \<le> 2 ^ 64"
  shows "\<exists>line. claim_judge st n (lane_ledger (cw_lane w)) = Held line"
proof -
  from race_invariant [OF assms(1,2) honest_way(1)] obtain A
    where inv: "locked (reader_way (style_ordered st) False) w A"
      "attended (reader_way (style_ordered st) False) (laid written) hs w"
      "named (reader_way (style_ordered st) False) w" "signed_off w"
      "reader_way (style_ordered st) False = PerKey \<longrightarrow> in_sequence w" by blast
  show ?thesis
  proof (rule judge_held)
    show "\<not> duplicated (lane_ledger (cw_lane w))" using one_holder [OF inv(1,3)] unfolding duplicated_iff by blast
    show "n \<le> length (holders (lane_ledger (cw_lane w)))" by (rule drained_holders [OF inv(2) assms(3,2)])
    show "ordered_per_key (lane_ledger (cw_lane w))" if "style_ordered st"
      using inv(3-5) that by (intro drained_in_order [OF _ _ inv(4) assms(3,4)]) simp_all
  qed
qed

text \<open>C5: an honest race ends, and it ends well. However the readers of a style interleave, a race can
  not go on for ever; once it is over its lane is drained; and over a drained lane, by whoever
  drained it, the judgment is that the claim held: one holder for every item, none missed, and for
  the sequential style every key in order. The process clocks are 64 bits wide.\<close>

theorem honest_race_is_held:
  assumes "race_reachable (reader_way (style_ordered st) False) (set hs) d w"
    and "stage_lane made written = Some (d, n)" and "hs \<noteq> []" and "\<forall>p. cw_clock w p \<le> 2 ^ 64"
  shows "wf {(w', w). race_step (reader_way (style_ordered st) False) (set hs) w w'}
    \<and> (race_over (set hs) w \<longrightarrow> lane_list ''item_'' (cw_lane w) = [])
    \<and> (lane_list ''item_'' (cw_lane w) = [] \<longrightarrow> (\<exists>line. claim_judge st n (lane_ledger (cw_lane w)) = Held line))"
proof (intro conjI impI)
  show "wf {(w', w). race_step (reader_way (style_ordered st) False) (set hs) w w'}"
    by (rule wf_subset [OF wf_measures]) (use race_step_lighter in blast)
  show "lane_list ''item_'' (cw_lane w) = []" if "race_over (set hs) w"
    using over_drained [OF assms(1,2) honest_way(1) that] assms(3) by simp
  show "\<exists>line. claim_judge st n (lane_ledger (cw_lane w)) = Held line" if "lane_list ''item_'' (cw_lane w) = []"
    by (rule drained_held [OF assms(1,2) that assms(4)])
qed

text \<open>A race by a schedule: the readers move in turn, each listing exactly the items there.\<close>

definition race_move :: "way \<Rightarrow> string \<Rightarrow> claim_world \<Rightarrow> claim_world" where
  "race_move way h w =
     (case cw_todo w h of
        a # rest \<Rightarrow>
          let (d, clock, ops) = operate h a (cw_lane w) (cw_clock w (process_of h)) in
          w\<lparr>cw_lane := d, cw_clock := (cw_clock w)(process_of h := clock), cw_todo := (cw_todo w)(h := ops @ rest)\<rparr>
      | [] \<Rightarrow>
          (case cw_passes w h of
             0 \<Rightarrow> w
           | Suc n \<Rightarrow>
               let names = lane_list ''item_'' (cw_lane w) in
               if Suc n < passes_of way \<and> names = [] then w\<lparr>cw_passes := (cw_passes w)(h := 0)\<rparr>
               else if list_all (\<lambda>i. i \<in> set item_names) names
               then w\<lparr>cw_passes := (cw_passes w)(h := n), cw_todo := (cw_todo w)(h := pass way names)\<rparr>
               else w))"

lemma race_move_reachable:
  assumes "race_reachable way hs d w" and "h \<in> hs"
  shows "race_reachable way hs d (race_move way h w)"
proof (cases "cw_todo w h")
  case (Cons a rest)
  obtain e c ops where op: "operate h a (cw_lane w) (cw_clock w (process_of h)) = (e, c, ops)" by (metis prod_cases3)
  then show ?thesis
    using race_reachable.step [OF assms(1) race_step.move [OF assms(2) Cons, of 0 e c ops]] Cons
    by (simp add: race_move_def)
next
  case Nil
  show ?thesis
  proof (cases "cw_passes w h")
    case (Suc n)
    then show ?thesis
      using Nil race_reachable.step [OF assms(1) race_step.leave [OF assms(2) Nil Suc]]
        race_reachable.step [OF assms(1) race_step.scan [OF assms(2) Nil Suc, of "lane_list ''item_'' (cw_lane w)"]] assms(1)
      by (auto simp: race_move_def Let_def list_all_iff)
  qed (simp add: race_move_def Nil assms(1))
qed

lemma operate_clock_bound: "operate h a d c = (e, c', ops) \<Longrightarrow> c' \<le> c + 1"
  by (cases a) (auto split: option.splits)

lemma race_move_clock: "cw_clock (race_move way h w) p \<le> cw_clock w p + 1"
proof (cases "cw_todo w h")
  case (Cons a rest)
  obtain e c ops where op: "operate h a (cw_lane w) (cw_clock w (process_of h)) = (e, c, ops)" by (metis prod_cases3)
  then show ?thesis using Cons operate_clock_bound [OF op] by (simp add: race_move_def)
qed (simp add: race_move_def Let_def split: nat.splits)

lemma race_run:
  assumes "set turns \<subseteq> hs"
  shows "race_reachable way hs d (fold (race_move way) turns (race_start way d))
    \<and> (\<forall>p. cw_clock (fold (race_move way) turns (race_start way d)) p \<le> length turns)"
  using assms
proof (induction turns rule: rev_induct)
  case (snoc h turns)
  then show ?case
    using race_move_reachable [of way hs d _ h] race_move_clock [of way h] by (simp, meson add_le_mono1 le_trans Suc_le_mono)
qed (use race_reachable.start [of way hs d] in \<open>simp add: race_start_def\<close>)

definition example_race :: claim_world where
  "example_race = fold (race_move PerKey) (concat (replicate 16 [''7-0'', ''9-1''])) (race_start PerKey example_lane)"

lemma example_race_drained: "lane_list ''item_'' (cw_lane example_race) = []"
  by code_simp

theorem honest_race_is_held_witness:
  "lane_list ''item_'' (cw_lane example_race) = []
   \<and> (\<exists>line. claim_judge Sequential 2 (lane_ledger (cw_lane example_race)) = Held line)"
proof -
  have way: "reader_way (style_ordered Sequential) False = PerKey" by (simp add: style_ordered_def)
  have "length (concat (replicate 16 [''7-0'', ''9-1''])) = 32" by (simp add: length_concat sum_list_replicate)
  then have "race_reachable PerKey (set [''7-0'', ''9-1'']) example_lane example_race"
    "\<forall>p. cw_clock example_race p \<le> 32"
    using race_run [of "concat (replicate 16 [''7-0'', ''9-1''])" "set [''7-0'', ''9-1'']" PerKey example_lane]
    by (auto simp: example_race_def)
  moreover from this have "\<forall>p. cw_clock example_race p \<le> 2 ^ 64" by (auto intro: order_trans)
  ultimately show ?thesis
    using honest_race_is_held [of Sequential "[''7-0'', ''9-1'']", unfolded way, OF _ example_lane] example_race_drained by simp
qed

section \<open>A breach is seen\<close>

fun op_broken :: "operation \<Rightarrow> bool" where
  "op_broken (ReadItem i injected) \<longleftrightarrow> injected \<and> i \<in> set item_names"
| "op_broken (Stamp i injected) \<longleftrightarrow> injected \<and> i \<in> set item_names"
| "op_broken (Sign i injected _) \<longleftrightarrow> injected \<and> i \<in> set item_names"
| "op_broken (Write i injected _) \<longleftrightarrow> injected \<and> i \<in> set item_names"
| "op_broken _ \<longleftrightarrow> False"

text \<open>Readers that do not claim consume nothing, and each that has made its pass signs for every item.\<close>

definition breaching :: "string set \<Rightarrow> string set \<Rightarrow> claim_world \<Rightarrow> bool" where
  "breaching its hs w \<longleftrightarrow>
     (\<forall>h. \<forall>a \<in> set (cw_todo w h). op_broken a) \<and>
     (\<forall>i \<in> its. btree_get (cw_lane w) i \<noteq> None) \<and>
     (\<forall>h \<in> hs. cw_passes w h = 0 \<longrightarrow> (\<forall>i \<in> its. btree_get (cw_lane w) (done_name i h) \<noteq> None
        \<or> (\<exists>a \<in> set (cw_todo w h). op_item a = Some i))) \<and>
     (\<forall>i \<in> set item_names. \<forall>h c. btree_get (cw_lane w) (done_name i h) = Some c \<longrightarrow>
        (\<exists>order. c = done_note order True) \<or> (\<exists>order. Write i True order \<in> set (cw_todo w h)))"

lemma breachingD:
  assumes "breaching its hs w"
  shows "a \<in> set (cw_todo w h) \<Longrightarrow> op_broken a" and "i \<in> its \<Longrightarrow> btree_get (cw_lane w) i \<noteq> None"
    and "h \<in> hs \<Longrightarrow> cw_passes w h = 0 \<Longrightarrow> i \<in> its \<Longrightarrow> btree_get (cw_lane w) (done_name i h) \<noteq> None
        \<or> (\<exists>a \<in> set (cw_todo w h). op_item a = Some i)"
    and "i \<in> set item_names \<Longrightarrow> btree_get (cw_lane w) (done_name i h) = Some c \<Longrightarrow>
        (\<exists>order. c = done_note order True) \<or> (\<exists>order. Write i True order \<in> set (cw_todo w h))"
  using assms unfolding breaching_def by blast+

lemma breachingI:
  assumes "cw_lane w = d" "cw_todo w = todo" "cw_passes w = passes"
    and "\<And>a h. a \<in> set (todo h) \<Longrightarrow> op_broken a" and "\<And>i. i \<in> its \<Longrightarrow> btree_get d i \<noteq> None"
    and "\<And>h i. h \<in> hs \<Longrightarrow> passes h = 0 \<Longrightarrow> i \<in> its \<Longrightarrow> btree_get d (done_name i h) \<noteq> None
        \<or> (\<exists>a \<in> set (todo h). op_item a = Some i)"
    and "\<And>i h c. i \<in> set item_names \<Longrightarrow> btree_get d (done_name i h) = Some c \<Longrightarrow>
        (\<exists>order. c = done_note order True) \<or> (\<exists>order. Write i True order \<in> set (todo h))"
  shows "breaching its hs w"
  using assms(4-7) unfolding breaching_def assms(1-3) by blast

lemma broken_operate:
  assumes "op_broken a" and "operate h a d c = (e, c', ops)" and "i \<in> set item_names"
  shows "b \<in> set ops \<Longrightarrow> op_broken b" "btree_get e i = btree_get d i"
    "btree_get d (done_name i k) \<noteq> None \<Longrightarrow> btree_get e (done_name i k) \<noteq> None"
    "op_item a = Some i \<Longrightarrow> btree_get d i \<noteq> None \<Longrightarrow>
      btree_get e (done_name i h) \<noteq> None \<or> (\<exists>b \<in> set ops. op_item b = Some i)"
    "btree_get e (done_name i k) = Some x \<Longrightarrow> btree_get d (done_name i k) = Some x
      \<and> \<not> (k = h \<and> (\<exists>order. a = Write i True order))
      \<or> (\<exists>order. x = done_note order True) \<or> k = h \<and> (\<exists>order. Write i True order \<in> set ops)"
  using assms
  by (cases a; auto simp: consume_unless_def create_new_def store_simps split: option.splits if_splits)+

lemma breaching_step:
  assumes "race_step WithoutClaiming hs w w'" and "breaching its hs w" and "its \<subseteq> set item_names"
  shows "breaching its hs w'"
  using assms
proof (induction rule: race_step.induct)
  case (scan h w n names)
  note B = breachingD [OF scan.prems(1)]
  have listed: "i \<in> set names" if "i \<in> its" for i
    using that scan.prems(2) B(2) [OF that] scan.hyps(4) lane_list_present [of i "cw_lane w"] by blast
  have none: "\<not> (\<exists>order. Write i True order \<in> set (cw_todo w h))" for i using scan.hyps(2) by simp
  show ?case
  proof (rule breachingI [of _ "cw_lane w" "(cw_todo w)(h := pass WithoutClaiming names)" "(cw_passes w)(h := n)"],
      simp, simp, simp, goal_cases)
    case (1 a k)
    then show ?case using B(1) scan.hyps(5) by (auto split: if_splits)
  next
    case (2 i)
    then show ?case by (rule B(2))
  next
    case (3 k i)
    then show ?case using B(3) [of k i] listed [OF 3(3)] by (cases "k = h") auto
  next
    case (4 i k c)
    then show ?case using B(4) [OF 4] none [of i] by (cases "k = h") auto
  qed
next
  case (move h w a rest elsewhere d clock ops)
  note B = breachingD [OF move.prems(1)]
  have broken: "op_broken a" using B(1) [of a h] move.hyps(2) by simp
  note O = broken_operate [OF broken move.hyps(3)]
  have item: "item_name 0 0 \<in> set item_names" by (simp add: KEYS_def PER_KEY_def)
  show ?case
  proof (rule breachingI [of _ d "(cw_todo w)(h := ops @ rest)" "cw_passes w"], simp, simp, simp, goal_cases)
    case (1 b k)
    then show ?case using B(1) [of b k] B(1) [of b h] O(1) [OF item] move.hyps(2) by (auto split: if_splits)
  next
    case (2 i)
    then show ?case using B(2) [of i] O(2) [of i] move.prems(2) by auto
  next
    case (3 k i)
    then have i: "i \<in> set item_names" using move.prems(2) by blast
    from B(3) [OF 3] show ?case
    proof
      assume "btree_get (cw_lane w) (done_name i k) \<noteq> None"
      then show ?thesis using O(3) [OF i] by blast
    next
      assume "\<exists>b \<in> set (cw_todo w k). op_item b = Some i"
      then obtain b where "b \<in> set (cw_todo w k)" "op_item b = Some i" by blast
      then show ?thesis using O(4) [OF i] B(2) [OF 3(3)] move.hyps(2) by (cases "k = h") auto
    qed
  next
    case (4 i k x)
    from O(5) [OF 4] show ?case
    proof (elim disjE conjE)
      assume old: "btree_get (cw_lane w) (done_name i k) = Some x" and other: "\<not> (k = h \<and> (\<exists>order. a = Write i True order))"
      from B(4) [OF 4(1) old] show ?thesis using other move.hyps(2) by (cases "k = h") auto
    qed auto
  qed
next
  case (leave h w n)
  then show ?case by (simp add: passes_of_def)
qed

lemma breaching_start:
  assumes "stage_lane made written = Some (d, n)"
  shows "breaching (laid written) hs (race_start WithoutClaiming d)"
  using stage_lane_get [OF assms] by (auto simp: breaching_def race_start_def passes_of_def laid_def)

lemma injected_note: "contains ''injected'' (done_note order True)"
proof -
  have "CHR ''i'' \<notin> set (decimal order @ '' '')" by simp
  from split_once_found [OF this, of "''njected''" "[]"] show ?thesis by (simp add: contains_def done_note_def)
qed

lemma ledger_done:
  assumes "btree_get lane (done_name i h) = Some c" "i \<in> set item_names"
  shows "\<exists>r \<in> set (lane_ledger lane). pr_item r = i \<and> pr_holder r = h \<and> pr_injected r = contains ''injected'' c"
proof -
  have "(done_name i h, c) \<in> set lane" using assms(1) by (auto simp: btree_get_def dest: map_of_SomeD)
  moreover have "\<exists>r. lane_record (done_name i h, c) = Some r \<and> pr_item r = i \<and> pr_holder r = h
      \<and> pr_injected r = contains ''injected'' c"
    using done_split [OF assms(2), of h] by (cases "parse_item i") (simp add: lane_record_def)
  ultimately show ?thesis by (force simp: lane_ledger_def List.map_filter_def)
qed

lemma breach_is_contended:
  assumes "race_reachable WithoutClaiming hs d w" and "stage_lane made written = Some (d, n)"
    and "race_over hs w" and "{g, h} \<subseteq> hs" and "g \<noteq> h" and "i \<in> set item_names" and "written i"
  shows "\<exists>line. claim_judge st n (lane_ledger (cw_lane w)) = Contended (line @ '' (injected)'')"
proof -
  let ?ps = "lane_ledger (cw_lane w)"
  have its: "laid written \<subseteq> set item_names" by (auto simp: laid_def)
  have "breaching (laid written) hs w"
    using assms(1)
  proof (induction rule: race_reachable.induct)
    case start
    show ?case by (rule breaching_start [OF assms(2)])
  next
    case (step w w')
    then show ?case using breaching_step its by blast
  qed
  note B = breachingD [OF this]
  have "\<exists>order. btree_get (cw_lane w) (done_name i k) = Some (done_note order True)" if "k \<in> {g, h}" for k
  proof -
    have k: "k \<in> hs" "cw_todo w k = []" "cw_passes w k = 0" using that assms(3,4) by (auto simp: race_over_def)
    moreover have "i \<in> laid written" using assms(6,7) by (simp add: laid_def)
    ultimately obtain c where "btree_get (cw_lane w) (done_name i k) = Some c" using B(3) [of k i] by auto
    then show ?thesis using B(4) [OF assms(6)] k(2) by fastforce
  qed
  then have signed: "\<exists>r \<in> set ?ps. pr_item r = i \<and> pr_holder r = k \<and> pr_injected r" if "k \<in> {g, h}" for k
    using that ledger_done [of "cw_lane w" i k] injected_note assms(6) by metis
  from signed [of g] signed [of h] obtain r s where rs: "r \<in> set ?ps" "s \<in> set ?ps" "pr_item r = i" "pr_item s = i" "pr_holder r = g"
    "pr_holder s = h" "pr_injected r" by auto
  then have "duplicated ?ps" and injected: "list_ex pr_injected ?ps"
    using assms(5) unfolding duplicated_iff list_ex_iff by metis+
  then obtain j who where "find (\<lambda>(_, who). 1 < length who) (holders ?ps) = Some (j, who)"
    by (cases "find (\<lambda>(_, who). 1 < length who) (holders ?ps)") (auto simp: duplicated_def find_None_iff list_ex_iff)
  with injected show ?thesis by (auto simp: claim_judge_def Let_def)
qed

text \<open>An exercise reports the claim as it was. Once the four readers of a style are done over this
  process's own lane, the verdict is that the claim held, when they claimed, and that it was contended
  by an injected breach, when they did not and there was an item to read; whatever they interleaved.\<close>

theorem exercise_reports_the_claim:
  assumes "stage_lane made written = Some (d, n)" and "i \<in> set item_names" and "written i"
    and "race_reachable (reader_way (style_ordered st) (claim_broken E st)) (reader_holder E ` {0..<READERS}) d w"
    and "race_over (reader_holder E ` {0..<READERS}) w" and "\<forall>p. cw_clock w p \<le> 2 ^ 64" and "\<not> ec_shared E"
  shows "\<exists>line. exercise E (stage_lane made written) (\<lambda>_. (cw_lane w, late) # looks) st =
    Some (if claim_broken E st then Contended (line @ '' (injected)'') else Held line)"
proof (cases "claim_broken E st")
  case True
  have "{reader_holder E 0, reader_holder E 1} \<subseteq> reader_holder E ` {0..<READERS}" by (auto simp: READERS_def)
  moreover have "reader_holder E 0 \<noteq> reader_holder E 1" by (simp add: reader_holder_def)
  moreover have "race_reachable WithoutClaiming (reader_holder E ` {0..<READERS}) d w"
    using assms(4) True by (simp add: reader_way_def)
  ultimately obtain line where "claim_judge st n (lane_ledger (cw_lane w)) = Contended (line @ '' (injected)'')"
    using breach_is_contended [OF _ assms(1,5) _ _ assms(2,3)] by blast
  then show ?thesis using True assms(1,7) by (auto simp: exercise_def Let_def)
next
  case False
  have "reader_holder E ` {0..<READERS} \<noteq> {}" by (simp add: READERS_def)
  moreover have reached: "race_reachable (reader_way (style_ordered st) False) (reader_holder E ` {0..<READERS}) d w"
    using assms(4) False by simp
  ultimately have "lane_list ''item_'' (cw_lane w) = []" using over_drained [OF _ assms(1) honest_way(1) assms(5)] by blast
  then obtain line where "claim_judge st n (lane_ledger (cw_lane w)) = Held line"
    using drained_held [OF reached assms(1) _ assms(6)] by blast
  then show ?thesis using False assms(1,7) by (auto simp: exercise_def Let_def)
qed

definition example_exercise :: exclusive_claim where
  "example_exercise = (exclusive_claim_new ''n'' ''d'' 7)\<lparr>ec_round := 1\<rparr>"

definition example_single :: dir where
  "example_single = [(''item_0_0'', ''x'')]"

lemma example_single: "stage_lane True (\<lambda>i. i = ''item_0_0'') = Some (example_single, 1)"
  by code_simp

definition example_turns :: "string list" where
  "example_turns = replicate 8 ''7-0'' @ concat (replicate 2 [''7-1'', ''7-2'', ''7-3''])"

definition example_end :: claim_world where
  "example_end = fold (race_move PerItem) example_turns (race_start PerItem example_single)"

definition all_over :: "string list \<Rightarrow> claim_world \<Rightarrow> bool" where
  "all_over hs w \<longleftrightarrow> list_all (\<lambda>h. cw_todo w h = [] \<and> cw_passes w h = 0) hs"

theorem exercise_reports_the_claim_witness:
  "\<exists>line. exercise example_exercise (Some (example_single, 1)) (\<lambda>_. [(cw_lane example_end, False)]) Parallel = Some (Held line)"
proof -
  have readers: "reader_holder example_exercise ` {0..<READERS} = {''7-0'', ''7-1'', ''7-2'', ''7-3''}"
  proof -
    have "{0..<READERS} = set [0, 1, 2, 3]" by (auto simp: READERS_def)
    moreover have "map (reader_holder example_exercise) [0, 1, 2, 3] = [''7-0'', ''7-1'', ''7-2'', ''7-3'']" by code_simp
    ultimately show ?thesis by (metis list.set_map list.simps(15) empty_set)
  qed
  have honest: "\<not> claim_broken example_exercise Parallel"
    by (simp add: claim_broken_def example_exercise_def exclusive_claim_new_def fires_keyed_def Let_def)
  then have way: "reader_way (style_ordered Parallel) (claim_broken example_exercise Parallel) = PerItem"
    by (simp add: style_ordered_def reader_way_def)
  have turns: "set example_turns \<subseteq> {''7-0'', ''7-1'', ''7-2'', ''7-3''}" "length example_turns = 14"
    by (auto simp: example_turns_def length_concat sum_list_replicate)
  have "all_over [''7-0'', ''7-1'', ''7-2'', ''7-3''] example_end" by code_simp
  then have "race_over {''7-0'', ''7-1'', ''7-2'', ''7-3''} example_end" by (simp add: race_over_def all_over_def)
  moreover have "\<forall>p. cw_clock example_end p \<le> 2 ^ 64"
    using race_run [OF turns(1), of PerItem example_single] turns(2) unfolding example_end_def by (auto intro: order_trans)
  moreover have "''item_0_0'' \<in> set item_names" by code_simp
  ultimately show ?thesis
    using exercise_reports_the_claim [OF example_single, of "''item_0_0''" Parallel example_exercise example_end False "[]",
        unfolded readers way] race_run [OF turns(1), of PerItem example_single] honest
    by (simp add: example_end_def example_single)
       (simp add: example_exercise_def exclusive_claim_new_def)
qed

section \<open>A judgment before a record is written\<close>

text \<open>
  A shared judge whose wait runs out looks at a lane its readers may still be in. A done record
  created and not yet written reads as order 0, its item already has its holder, and the judgment can
  be that the sequence was reordered, in a race where every key is processed in sequence.
\<close>

definition example_late :: claim_world where
  "example_late = fold (race_move PerKey) (replicate 18 ''7-0'')
     (race_start PerKey [(''item_0_0'', ''x''), (''item_1_0'', ''x''), (''item_1_1'', ''x'')])"

lemma example_late_lane: "cw_lane example_late =
    [(''item_0_0.done.7-0'', ''0''), (''item_1_0.done.7-0'', ''1''), (''item_1_1'', ''x''), (''item_1_1.done.7-0'', []),
     (''key_0.lock'', []), (''key_1.lock'', [])]"
  by code_simp

lemma late_judgment_misreads:
  "settle True [(cw_lane example_late, True)] = Some (lane_ledger (cw_lane example_late))
   \<and> claim_judge Sequential 3 (lane_ledger (cw_lane example_late)) =
       Contended ''the sequence was reordered under contention''"
proof -
  have names: "item_name 0 0 = ''item_0_0''" "item_name 1 0 = ''item_1_0''" "item_name 1 1 = ''item_1_1''"
    by code_simp+
  have items: "parse_item ''item_0_0'' = (0, 0)" "parse_item ''item_1_0'' = (1, 0)" "parse_item ''item_1_1'' = (1, 1)"
    using parse_item_name [of 0 0] parse_item_name [of 1 0] parse_item_name [of 1 1] unfolding names by simp_all
  have words: "first_word [] = None" "first_word ''0'' = Some ''0''" "first_word ''1'' = Some ''1''" by code_simp+
  have orders: "parse_unsigned 64 ''0'' = Some 0" "parse_unsigned 64 ''1'' = Some 1"
  proof -
    have "decimal 0 = ''0''" "decimal 1 = ''1''" by code_simp+
    then show "parse_unsigned 64 ''0'' = Some 0" "parse_unsigned 64 ''1'' = Some 1"
      using parse_unsigned_decimal [of 0 64] parse_unsigned_decimal [of 1 64] by simp_all
  qed
  have "claim_judge Sequential 3 (lane_ledger (cw_lane example_late)) =
       Contended ''the sequence was reordered under contention''"
    unfolding example_late_lane
    by (simp add: lane_ledger_def List.map_filter_def lane_record_def items words orders claim_judge_def Let_def
        holders_def btree_upsert_def btree_get_def style_ordered_def ordered_per_key_def insort_insert_key_def)
  then show ?thesis by (simp add: Let_def)
qed

text \<open>The loop that checks the order of every key is the order itself: in the records put in the
  order they were processed, stably, each key's places never fall.\<close>

theorem ordered_per_key_is_order:
  "ordered_per_key ps \<longleftrightarrow> (\<forall>k. sorted (map pr_seq (filter (\<lambda>r. pr_key r = k) (sort_key pr_order ps))))"
proof -
  have "sorted_wrt keeps_order rs \<longleftrightarrow> (\<forall>k. sorted (map pr_seq (filter (\<lambda>r. pr_key r = k) rs)))" for rs
  proof (induction rs)
    case (Cons r rs)
    have "sorted_wrt keeps_order (r # rs) \<longleftrightarrow> (\<forall>s \<in> set rs. pr_key s = pr_key r \<longrightarrow> pr_seq r \<le> pr_seq s)
        \<and> (\<forall>k. sorted (map pr_seq (filter (\<lambda>r. pr_key r = k) rs)))"
      by (auto simp: keeps_order_def Cons.IH)
    also have "\<dots> \<longleftrightarrow> (\<forall>k. sorted (map pr_seq (filter (\<lambda>s. pr_key s = k) (r # rs))))"
      by auto
    finally show ?case .
  qed simp
  then show ?thesis by (simp add: ordered_per_key_def in_order_iff btree_get_Nil)
qed

end
