(* ===== verification/Daily_Backlog.thy ===== *)
theory Daily_Backlog
  imports Ledger Files
begin

text \<open>
  The DailyBacklog test (\<open>src/daily_backlog.rs\<close>): a directory of files fed and drained by rounds, and
  the escalation, more readers and then another node, where it falls behind. Other processes may
  share the directory: what they do to it between this process's listing of it and its removals,
  and before it measures, is a parameter, the identity where the directory is its own. A file that
  cannot be written for want of disk is not modelled.
\<close>

section \<open>The numbers\<close>

definition ARRIVAL :: nat where "ARRIVAL = 30"
definition PER_READER :: nat where "PER_READER = 5"
definition BASE_READERS :: nat where "BASE_READERS = 2"
definition TWEAK_READERS :: nat where "TWEAK_READERS = 4"
definition TWEAK_AT :: nat where "TWEAK_AT = 35"
definition SCALE_AT :: nat where "SCALE_AT = 55"
definition CEILING :: nat where "CEILING = 150"

section \<open>The drain\<close>

record daily_backlog =
  db_node :: string
  db_tag :: string
  db_round :: nat
  db_seq :: nat
  db_backlog :: nat
  db_feeders :: nat
  db_previous :: nat
  db_drained :: nat
  db_readers :: nat
  db_nodes :: nat
  db_tweaked :: bool
  db_scaled :: bool
  db_action :: string
  db_standing :: standing

text \<open>\<open>new\<close> clears the directory before it is \<open>shared\<close>, which touches nothing in it.\<close>

definition daily_shared :: "nat \<Rightarrow> string \<Rightarrow> dir \<Rightarrow> daily_backlog \<times> dir" where
  "daily_shared pid node d =
     (\<lparr>db_node = node, db_tag = decimal pid, db_round = 0, db_seq = 0, db_backlog = 0, db_feeders = 1,
       db_previous = 0, db_drained = 0, db_readers = BASE_READERS, db_nodes = 1, db_tweaked = False,
       db_scaled = False, db_action = [], db_standing = standing_default\<rparr>, d)"

definition daily_new :: "nat \<Rightarrow> string \<Rightarrow> dir \<Rightarrow> daily_backlog \<times> dir" where
  "daily_new pid node d = daily_shared pid node []"

definition daily_name :: "string \<Rightarrow> nat \<Rightarrow> string" where
  "daily_name tag seq = ''daily_'' @ tag @ ''_'' @ padded 8 seq"

primrec daily_arrive :: "nat \<Rightarrow> daily_backlog \<times> dir \<Rightarrow> daily_backlog \<times> dir" where
  "daily_arrive 0 W = W"
| "daily_arrive (Suc k) W =
     (case W of (S, d) \<Rightarrow>
        let S = S\<lparr>db_seq := db_seq S + 1\<rparr> in
        daily_arrive k (S, btree_insert (daily_name (db_tag S) (db_seq S)) ''x'' d))"

text \<open>The loop over the listing: a file no longer there is a race lost, and does not count.\<close>

fun daily_drain :: "nat \<Rightarrow> nat \<Rightarrow> string list \<Rightarrow> dir \<Rightarrow> nat \<times> dir" where
  "daily_drain capacity processed [] d = (processed, d)"
| "daily_drain capacity processed (name # names) d =
     (if capacity \<le> processed then (processed, d)
      else if btree_get d name \<noteq> None then daily_drain capacity (processed + 1) names (btree_remove name d)
      else daily_drain capacity processed names d)"

definition feeder_of :: "string \<Rightarrow> string option" where
  "feeder_of name =
     (if prefix ''daily_'' name then Some (hd (split_on (CHR ''_'') (drop (length ''daily_'') name))) else None)"

definition daily_measure :: "dir \<Rightarrow> nat \<times> nat" where
  "daily_measure d = (length d, length (fold insort_insert (List.map_filter feeder_of (map fst d)) []))"

definition daily_escalate :: "nat \<Rightarrow> daily_backlog \<Rightarrow> daily_backlog" where
  "daily_escalate share S =
     (if \<not> db_tweaked S \<and> share > TWEAK_AT
      then S\<lparr>db_readers := TWEAK_READERS, db_tweaked := True,
             db_action := '' '' @ em_dash @ '' raised concurrency (tweak)''\<rparr>
      else if db_tweaked S \<and> \<not> db_scaled S \<and> share > SCALE_AT
      then S\<lparr>db_nodes := db_nodes S + 1, db_scaled := True,
             db_action := '' '' @ em_dash @ '' added a node''\<rparr>
      else S)"

definition daily_mark :: "nat \<Rightarrow> nat \<Rightarrow> mark" where
  "daily_mark share previous = (if share > CEILING then Fail else if share > previous then Warn else Pass)"

definition daily_evidence :: "nat \<Rightarrow> nat \<Rightarrow> nat \<Rightarrow> daily_backlog \<Rightarrow> string" where
  "daily_evidence share processed capacity S =
     (let config = decimal (db_nodes S) @ '' node(s) x '' @ decimal (db_readers S) @ '' readers'';
          feeders = (if db_feeders S > 1
            then '' over '' @ decimal (db_feeders S) @ '' feeders, '' @ decimal share @ '' each'' else []) in
      ''backlog '' @ decimal (db_backlog S) @ feeders @ '' ('' @ decimal processed @ ''/round, capacity ''
      @ decimal capacity @ '', '' @ config @ '')'' @ db_action S)"

definition daily_counts :: "daily_backlog \<Rightarrow> int \<Rightarrow> recording list" where
  "daily_counts S now =
     map (\<lambda>(counted, v). RecordCount \<lparr>cr_scope = db_node S, cr_counted = counted, cr_value = v, cr_observed = now\<rparr>)
       [(Counted_Streams, db_drained S), (Counted_Messages, db_backlog S)]"

text \<open>What other processes do to the directory: between the listing and the removals, and after them.\<close>

record others =
  ot_meanwhile :: "dir \<Rightarrow> dir"
  ot_after :: "dir \<Rightarrow> dir"

definition alone :: others where
  "alone = \<lparr>ot_meanwhile = id, ot_after = id\<rparr>"

text \<open>What a round makes of what it drained and measured.\<close>

definition daily_settle :: "nat \<Rightarrow> nat \<Rightarrow> nat \<times> nat \<Rightarrow> daily_backlog \<Rightarrow> daily_backlog" where
  "daily_settle capacity processed = (\<lambda>(backlog, feeders) S.
     let S = S\<lparr>db_drained := db_drained S + processed, db_backlog := backlog, db_feeders := feeders\<rparr>;
         share = backlog div max feeders 1;
         S = daily_escalate share S in
     S\<lparr>db_standing := standing_record
           (daily_mark share (db_previous S), daily_evidence share processed capacity S) (db_standing S),
       db_previous := share\<rparr>)"

definition daily_tick :: "others \<Rightarrow> int \<Rightarrow> daily_backlog \<times> dir \<Rightarrow> (daily_backlog \<times> dir) \<times> snapshot" where
  "daily_tick A now = (\<lambda>(S, d).
     let (S, d) = daily_arrive ARRIVAL (S\<lparr>db_round := db_round S + 1\<rparr>, d);
         capacity = db_nodes S * db_readers S * PER_READER;
         (processed, d) = daily_drain capacity 0 (map fst d) (ot_meanwhile A d);
         d = ot_after A d;
         S = daily_settle capacity processed (daily_measure d) S in
     ((S, d), RecordHealth (standing_health (db_standing S) (db_node S @ ''/drain'') now) # daily_counts S now))"

primrec daily_days :: "int list \<Rightarrow> daily_backlog \<times> dir \<Rightarrow> daily_backlog \<times> dir" where
  "daily_days [] W = W"
| "daily_days (now # ts) W = daily_days ts (fst (daily_tick alone now W))"

section \<open>A directory of its own\<close>

text \<open>What one process leaves in its own directory: files it named, none twice.\<close>

definition own_files :: "daily_backlog \<times> dir \<Rightarrow> bool" where
  "own_files = (\<lambda>(S, d). btree_wf d \<and> (\<forall>name \<in> fst ` set d. \<exists>k \<le> db_seq S. name = daily_name (db_tag S) k)
     \<and> CHR ''_'' \<notin> set (db_tag S))"

lemma daily_name_eq: "daily_name tag k = daily_name tag n \<longleftrightarrow> k = n"
  by (simp add: daily_name_def padded_inj)

lemma length_insert_fresh: "btree_get d k = None \<Longrightarrow> length (btree_insert k v d) = Suc (length d)"
  by (induction k v d rule: btree_insert.induct) (auto simp: btree_get_def split: if_splits)

lemma arrive_own:
  assumes "own_files (S, d)"
  shows "own_files (daily_arrive k (S, d)) \<and> length (snd (daily_arrive k (S, d))) = length d + k
    \<and> fst (daily_arrive k (S, d)) = S\<lparr>db_seq := db_seq S + k\<rparr>"
  using assms
proof (induction k arbitrary: S d)
  case (Suc k)
  let ?S = "S\<lparr>db_seq := db_seq S + 1\<rparr>"
  let ?n = "daily_name (db_tag S) (db_seq S + 1)"
  have "?n \<notin> fst ` set d" using Suc.prems by (force simp: own_files_def daily_name_eq)
  then have "btree_get d ?n = None" by (simp add: btree_get_def map_of_eq_None_iff)
  note grown = length_insert_fresh [OF this, of "''x''"]
  have "\<exists>k \<le> db_seq S + 1. name = daily_name (db_tag S) k" if "name \<in> insert ?n (fst ` set d)" for name
  proof (cases "name = ?n")
    case False
    with that Suc.prems obtain k where "k \<le> db_seq S" "name = daily_name (db_tag S) k"
      unfolding own_files_def by blast
    then show ?thesis by (intro exI [of _ k]) simp
  qed blast
  then have "own_files (?S, btree_insert ?n ''x'' d)"
    using Suc.prems by (simp add: own_files_def btree_wf_insert fst_set_btree_insert del: ball_simps)
  from Suc.IH [OF this] show ?case by (simp add: grown [simplified] Let_def)
qed simp

lemma drain_own:
  assumes "btree_wf d"
  shows "daily_drain capacity processed (map fst d) d =
    (processed + min (capacity - processed) (length d), drop (capacity - processed) d)"
  using assms
proof (induction d arbitrary: processed)
  case (Cons x d)
  have wf: "btree_wf d" using Cons.prems(1) by (simp add: btree_wf_def)
  have head: "btree_get (x # d) (fst x) \<noteq> None" by (simp add: btree_get_def)
  have gone: "btree_remove (fst x) (x # d) = d"
    using Cons.prems(1) by (auto simp: btree_remove_def btree_wf_def filter_id_conv split: prod.splits)
  show ?case
  proof (cases "capacity \<le> processed")
    case False
    then obtain m where m: "capacity - processed = Suc m" by (metis Suc_diff_Suc not_le)
    then have "capacity - (processed + 1) = m" by simp
    with Cons.IH [OF wf, of "processed + 1"] head gone m False show ?thesis by simp
  qed simp
qed simp

lemma own_feeder: "CHR ''_'' \<notin> set tag \<Longrightarrow> feeder_of (daily_name tag k) = Some tag"
  using split_on_append [of "CHR ''_''" tag "padded 8 k"]
  by (simp add: feeder_of_def daily_name_def split_on_clean)

lemma fold_insort_same: "set xs \<subseteq> {x} \<Longrightarrow> who = [] \<or> who = [x] \<Longrightarrow>
    fold insort_insert xs who = (if xs = [] then who else [x])"
  by (induction xs arbitrary: who) (auto simp: insort_insert_key_def)

lemma measure_own:
  assumes "own_files (S, d)"
  shows "daily_measure d = (length d, if d = [] then 0 else 1)"
proof -
  have tags: "feeder_of (fst x) = Some (db_tag S)" if "x \<in> set d" for x
    using that assms by (force simp: own_files_def own_feeder)
  have "set (List.map_filter feeder_of (map fst d)) \<subseteq> {db_tag S}"
    using tags by (auto simp: List.map_filter_def)
  moreover have "List.map_filter feeder_of (map fst d) = [] \<longleftrightarrow> d = []"
    using tags by (cases d) (auto simp: List.map_filter_def)
  ultimately show ?thesis
    using fold_insort_same [of "List.map_filter feeder_of (map fst d)" "db_tag S" "[]"] by (simp add: daily_measure_def)
qed

lemma settle_fields:
  "db_tag (daily_settle c p m S) = db_tag S" "db_seq (daily_settle c p m S) = db_seq S"
  "db_backlog (daily_settle c p m S) = fst m" "db_drained (daily_settle c p m S) = db_drained S + p"
  by (auto simp: daily_settle_def daily_escalate_def Let_def split: prod.splits)

lemma settle_share:
  assumes "f \<le> 1"
  shows "db_previous (daily_settle c p (b, f) S) = b"
    "(db_readers (daily_settle c p (b, f) S), db_nodes (daily_settle c p (b, f) S),
        db_tweaked (daily_settle c p (b, f) S), db_scaled (daily_settle c p (b, f) S)) =
       (let E = daily_escalate b S in (db_readers E, db_nodes E, db_tweaked E, db_scaled E))"
    "sd_failures (db_standing (daily_settle c p (b, f) S)) =
       (if b > CEILING then sd_failures (db_standing S) + 1 else sd_failures (db_standing S))"
proof -
  have "b div max f (Suc 0) = b" using assms by (cases f) auto
  then show "db_previous (daily_settle c p (b, f) S) = b"
    "(db_readers (daily_settle c p (b, f) S), db_nodes (daily_settle c p (b, f) S),
        db_tweaked (daily_settle c p (b, f) S), db_scaled (daily_settle c p (b, f) S)) =
       (let E = daily_escalate b S in (db_readers E, db_nodes E, db_tweaked E, db_scaled E))"
    "sd_failures (db_standing (daily_settle c p (b, f) S)) =
       (if b > CEILING then sd_failures (db_standing S) + 1 else sd_failures (db_standing S))"
    by (auto simp: daily_settle_def daily_escalate_def standing_record_def daily_mark_def Let_def)
qed

lemma own_cong: "db_tag S = db_tag T \<Longrightarrow> db_seq S = db_seq T \<Longrightarrow> own_files (S, d) = own_files (T, d)"
  by (simp add: own_files_def)

lemma own_drop: "own_files (S, d) \<Longrightarrow> own_files (S, drop k d)"
  by (fastforce simp: own_files_def btree_wf_def drop_map [symmetric] sorted_wrt_drop dest: in_set_dropD)

text \<open>A round alone is its numbers.\<close>

lemma tick_own:
  assumes "own_files (S, d)" "length d = db_backlog S"
  defines "capacity \<equiv> db_nodes S * db_readers S * PER_READER"
    and "left \<equiv> db_backlog S + ARRIVAL - db_nodes S * db_readers S * PER_READER"
  shows "\<exists>T e f. fst (daily_tick alone now (S, d)) =
      (daily_settle capacity (min capacity (db_backlog S + ARRIVAL)) (left, f) T, e)
    \<and> f \<le> 1 \<and> length e = left
    \<and> own_files (daily_settle capacity (min capacity (db_backlog S + ARRIVAL)) (left, f) T, e)
    \<and> T = S\<lparr>db_round := db_round S + 1, db_seq := db_seq S + ARRIVAL\<rparr>"
proof -
  let ?T = "S\<lparr>db_round := db_round S + 1, db_seq := db_seq S + ARRIVAL\<rparr>"
  have own: "own_files (S\<lparr>db_round := db_round S + 1\<rparr>, d)" using assms(1) by (simp add: own_files_def)
  obtain d1 where arrived: "daily_arrive ARRIVAL (S\<lparr>db_round := db_round S + 1\<rparr>, d) = (?T, d1)"
    and own1: "own_files (?T, d1)" and len1: "length d1 = db_backlog S + ARRIVAL"
    using arrive_own [OF own, of ARRIVAL] assms(2)
    by (cases "daily_arrive ARRIVAL (S\<lparr>db_round := db_round S + 1\<rparr>, d)") auto
  let ?e = "drop capacity d1"
  have drained: "daily_drain capacity 0 (map fst d1) d1 = (min capacity (db_backlog S + ARRIVAL), ?e)"
    using drain_own [of d1 capacity 0] own1 len1 by (simp add: own_files_def)
  have own2: "own_files (?T, ?e)" by (rule own_drop [OF own1])
  let ?f = "if ?e = [] then 0 else 1 :: nat"
  have measured: "daily_measure ?e = (left, ?f)"
    using measure_own [OF own2] len1 by (simp add: left_def capacity_def)
  have "fst (daily_tick alone now (S, d)) =
      (daily_settle capacity (min capacity (db_backlog S + ARRIVAL)) (left, ?f) ?T, ?e)"
    using drained measured
    by (simp add: daily_tick_def arrived [simplified] alone_def Let_def capacity_def [symmetric] del: drop_eq_Nil)
  moreover have "length ?e = left" using len1 by (simp add: left_def capacity_def)
  moreover have "own_files (daily_settle capacity (min capacity (db_backlog S + ARRIVAL)) (left, ?f) ?T, ?e)"
    using own2 own_cong [OF settle_fields(1,2)] by blast
  ultimately show ?thesis by (intro exI [of _ ?T] exI [of _ ?e] exI [of _ ?f]) simp
qed

section \<open>The day\<close>

text \<open>The backlog after each round, and the capacity then; a round of the numbers alone.\<close>

definition day_backlog :: "nat \<Rightarrow> nat" where
  "day_backlog n = (if n < 10 then [0, 20, 40, 50, 60, 50, 40, 30, 20, 10] ! n else 0)"

definition day_capacity :: "nat \<Rightarrow> nat \<times> nat \<times> bool \<times> bool" where
  "day_capacity n = (if n < 2 then (2, 1, False, False) else if n < 4 then (4, 1, True, False) else (4, 2, True, True))"

lemma day_cases: "(n::nat) = 0 \<or> n = 1 \<or> n = 2 \<or> n = 3 \<or> n = 4 \<or> n = 5 \<or> n = 6 \<or> n = 7 \<or> n = 8 \<or> n = 9 \<or> 10 \<le> n"
  by presburger

lemma day_step:
  assumes "(db_readers S, db_nodes S, db_tweaked S, db_scaled S) = day_capacity n" "db_backlog S = day_backlog n"
  defines "left \<equiv> db_backlog S + ARRIVAL - db_nodes S * db_readers S * PER_READER"
  shows "left = day_backlog (Suc n)"
    and "(let E = daily_escalate left S in (db_readers E, db_nodes E, db_tweaked E, db_scaled E)) = day_capacity (Suc n)"
proof -
  from day_cases [of n] show left: "left = day_backlog (Suc n)"
    using assms(1,2) unfolding left_def
    by (elim disjE) (simp_all add: day_backlog_def day_capacity_def ARRIVAL_def PER_READER_def)
  from day_cases [of n] show "(let E = daily_escalate left S in (db_readers E, db_nodes E, db_tweaked E, db_scaled E)) = day_capacity (Suc n)"
    using assms(1) unfolding left
    by (elim disjE) (auto simp: day_backlog_def day_capacity_def daily_escalate_def TWEAK_AT_def SCALE_AT_def
      TWEAK_READERS_def Let_def)
qed

definition day_invariant :: "nat \<Rightarrow> daily_backlog \<times> dir \<Rightarrow> bool" where
  "day_invariant n = (\<lambda>(S, d). own_files (S, d) \<and> length d = db_backlog S \<and> db_backlog S = day_backlog n
     \<and> (db_readers S, db_nodes S, db_tweaked S, db_scaled S) = day_capacity n
     \<and> db_drained S + db_backlog S = ARRIVAL * n \<and> sd_failures (db_standing S) = 0)"

lemma day_backlog_le: "day_backlog n \<le> 60"
proof -
  from day_cases [of n] show ?thesis by (elim disjE) (simp_all add: day_backlog_def)
qed

lemma day_tick:
  assumes "day_invariant n W"
  shows "day_invariant (Suc n) (fst (daily_tick alone now W))"
proof -
  obtain S d where W: "W = (S, d)" by fastforce
  define capacity where "capacity = db_nodes S * db_readers S * PER_READER"
  define left where "left = db_backlog S + ARRIVAL - capacity"
  have inv: "own_files (S, d)" "length d = db_backlog S" "db_backlog S = day_backlog n"
    "(db_readers S, db_nodes S, db_tweaked S, db_scaled S) = day_capacity n"
    "db_drained S + db_backlog S = ARRIVAL * n" "sd_failures (db_standing S) = 0"
    using assms by (simp_all add: day_invariant_def W)
  obtain T e f where tick: "fst (daily_tick alone now (S, d)) =
      (daily_settle capacity (min capacity (db_backlog S + ARRIVAL)) (left, f) T, e)"
    and f: "f \<le> 1" and e: "length e = left"
    and own: "own_files (daily_settle capacity (min capacity (db_backlog S + ARRIVAL)) (left, f) T, e)"
    and T: "T = S\<lparr>db_round := db_round S + 1, db_seq := db_seq S + ARRIVAL\<rparr>"
    using tick_own [OF inv(1,2), of now] by (auto simp: capacity_def left_def)
  note numbers = day_step [OF inv(4,3), folded capacity_def left_def]
  have "(let E = daily_escalate left T in (db_readers E, db_nodes E, db_tweaked E, db_scaled E)) =
      (let E = daily_escalate left S in (db_readers E, db_nodes E, db_tweaked E, db_scaled E))"
    by (auto simp: T daily_escalate_def Let_def)
  then have "(let E = daily_escalate left T in (db_readers E, db_nodes E, db_tweaked E, db_scaled E)) = day_capacity (Suc n)"
    using numbers(2) by simp
  moreover have "left \<le> CEILING" using numbers(1) day_backlog_le [of "Suc n"] by (simp add: CEILING_def)
  moreover have "db_drained S + min capacity (db_backlog S + ARRIVAL) + left = ARRIVAL * Suc n"
    using inv(5) by (simp add: left_def min_def)
  ultimately show ?thesis
    using own e numbers(1) inv(6) settle_share [OF f, of capacity "min capacity (db_backlog S + ARRIVAL)" left T]
    by (simp add: day_invariant_def W tick settle_fields T)
qed

text \<open>C20: one node's escalation catches up. Whatever the length of the day, the backlog of a directory of
  its own climbs no higher than sixty, is drained to nothing by the tenth round and stays so; every
  file that arrived is drained or waiting, none lost and none counted twice; the remedies come in
  their order, more readers from the second round and a second node from the fourth; and no round is
  red.\<close>

theorem the_day_is_drained:
  "db_backlog (fst (daily_days ts (daily_new pid node d))) = day_backlog (length ts)
   \<and> length (snd (daily_days ts (daily_new pid node d))) = day_backlog (length ts)
   \<and> db_drained (fst (daily_days ts (daily_new pid node d))) + day_backlog (length ts) = ARRIVAL * length ts
   \<and> (db_readers (fst (daily_days ts (daily_new pid node d))), db_nodes (fst (daily_days ts (daily_new pid node d))),
      db_tweaked (fst (daily_days ts (daily_new pid node d))), db_scaled (fst (daily_days ts (daily_new pid node d))))
        = day_capacity (length ts)
   \<and> sd_failures (db_standing (fst (daily_days ts (daily_new pid node d)))) = 0"
proof -
  have "day_invariant (n + length ts) (daily_days ts W)" if "day_invariant n W" for n W
    using that
  proof (induction ts arbitrary: n W)
    case (Cons now ts)
    from Cons.IH [OF day_tick [OF Cons.prems, of now]] show ?case by simp
  qed simp
  moreover have "day_invariant 0 (daily_new pid node d)"
    using ascii_digits [OF list_all_is_digit_decimal, of pid] list_all_is_digit_decimal [of pid]
    by (auto simp: day_invariant_def daily_new_def daily_shared_def own_files_def day_backlog_def day_capacity_def
      BASE_READERS_def standing_default_def list_all_iff is_digit_def)
  ultimately have "day_invariant (length ts) (daily_days ts (daily_new pid node d))" by fastforce
  then show ?thesis by (auto simp: day_invariant_def split: prod.splits)
qed

end
