(* ===== verification/Orders.thy ===== *)
theory Orders
  imports Roster Stress Files
begin

text \<open>
  What a run is told and what it refuses: the scenarios (\<open>src/scenario.rs\<close>), the online switch
  (\<open>src/switch.rs\<close>), the names of its processes' images (\<open>src/image.rs\<close>), a node's flags
  (\<open>src/capability.rs\<close>), the switches of the environment that are text (\<open>src/environment.rs\<close>) and the
  orders a cluster spawns its nodes under (\<open>src/cluster/orders.rs\<close>). The environment is a function
  from the variables to their values; an operation of the file system that fails is not modelled.
\<close>

type_synonym environment = "string \<Rightarrow> string option"

section \<open>Scenarios\<close>

definition SCENARIOS :: "string list" where
  "SCENARIOS = [''round-trip'', ''low-latency'', ''heavy-load'', ''retention'', ''filing'', ''exclusive-claim'',
     ''daily-backlog'']"

definition ROUND_TRIP :: string where
  "ROUND_TRIP = ''round-trip''"

definition scenario_names :: "string option \<Rightarrow> string list" where
  "scenario_names raw = filter (\<lambda>name. name \<noteq> [])
     (map (\<lambda>name. to_ascii_lowercase (trim name)) (split_on (CHR '','') (case raw of None \<Rightarrow> [] | Some r \<Rightarrow> r)))"

definition scenario_chosen :: "string option \<Rightarrow> string + string list" where
  "scenario_chosen raw =
     (let known = filter (\<lambda>name. name \<in> set SCENARIOS) (scenario_names raw);
          unknown = filter (\<lambda>name. name \<notin> set SCENARIOS) (scenario_names raw) in
      if unknown = [] then Inr known
      else Inl (''REFUSED: no scenario is named '' @ join '', '' unknown @ ''; the scenarios are ''
        @ join '', '' SCENARIOS))"

definition scenario_drives :: "string list \<Rightarrow> string \<Rightarrow> bool" where
  "scenario_drives chosen scenario \<longleftrightarrow> chosen = [] \<or> list_ex (\<lambda>name. name = scenario) chosen"

section \<open>The online switch\<close>

definition switch_parse :: "string \<Rightarrow> bool option" where
  "switch_parse raw =
     (let word = to_ascii_lowercase (trim raw) in
      if word \<in> {''true'', ''yes'', ''on'', ''1''} then Some True
      else if word \<in> {''false'', ''no'', ''off'', ''0''} then Some False
      else None)"

definition switch_names :: "string \<Rightarrow> string list" where
  "switch_names raw = filter (\<lambda>name. name \<noteq> []) (map trim (split_on (CHR '','') raw))"

definition switch_online :: "environment \<Rightarrow> bool" where
  "switch_online env \<longleftrightarrow>
     (case env ''XMIP_ONLINE'' of None \<Rightarrow> False | Some raw \<Rightarrow> switch_parse raw = Some True)"

definition switch_online_nodes :: "environment \<Rightarrow> string list option" where
  "switch_online_nodes env = map_option switch_names (env ''XMIP_ESSENTIALS_ONLINE_NODES'')"

definition node_online :: "string \<Rightarrow> string list option \<Rightarrow> bool \<Rightarrow> bool" where
  "node_online name online anyway \<longleftrightarrow>
     (case online of None \<Rightarrow> anyway | Some named \<Rightarrow> list_ex (\<lambda>one. eq_ignore_ascii_case one name) named)"

definition node_is_online :: "environment \<Rightarrow> string \<Rightarrow> bool" where
  "node_is_online env name \<longleftrightarrow> node_online name (switch_online_nodes env) (switch_online env)"

section \<open>The environment's text\<close>

definition environment_scenarios :: "environment \<Rightarrow> string + string list" where
  "environment_scenarios env = scenario_chosen (env ''XMIP_ESSENTIALS_SCENARIOS'')"

text \<open>The roster of a cluster's file, each node carrying the online capability the environment says.
  \<open>online_of\<close> is the crate's \<open>Capability::with_online\<close>.\<close>

definition environment_roster ::
    "'cap capability_api \<Rightarrow> ('cap \<Rightarrow> bool \<Rightarrow> 'cap) \<Rightarrow> environment \<Rightarrow> 'cap roster \<Rightarrow> 'cap roster" where
  "environment_roster K online_of env R =
     fold (\<lambda>node R. roster_declared node (online_of (roster_capability K R node) (node_is_online env node)) R)
       (roster_names R) R"

definition environment_named :: "environment \<Rightarrow> string list" where
  "environment_named env =
     switch_names (case env ''XMIP_ESSENTIALS_NAMED'' of None \<Rightarrow> [] | Some raw \<Rightarrow> raw)"

definition publish_paths :: "string \<Rightarrow> string \<times> string \<times> string" where
  "publish_paths cluster = (cluster @ ''-snapshot.xmip'', cluster @ ''-history.xmip'', cluster @ ''-activity.xmip'')"

section \<open>Images\<close>

definition SUITE :: string where
  "SUITE = ''xmip-essentials''"

definition image_named :: "string \<Rightarrow> string \<Rightarrow> string" where
  "image_named cluster what = SUITE @ ''-'' @ cluster @ ''-'' @ what"

definition marked :: "string \<Rightarrow> string" where
  "marked name = ''node-'' @ name"

definition node_named :: "string \<Rightarrow> string \<Rightarrow> string" where
  "node_named cluster name = image_named cluster (marked name)"

definition is_alphabetic :: "char \<Rightarrow> bool" where
  "is_alphabetic c \<longleftrightarrow> c \<in> set ''abcdefghijklmnopqrstuvwxyzABCDEFGHIJKLMNOPQRSTUVWXYZ''"

definition shaped :: "string \<Rightarrow> bool" where
  "shaped name \<longleftrightarrow> (case name of [] \<Rightarrow> False | c # _ \<Rightarrow> is_alphabetic c)
     \<and> list_all (\<lambda>c. is_alphabetic c \<or> is_digit c \<or> c = CHR ''-'') name"

definition image_refusal :: "string \<Rightarrow> string option" where
  "image_refusal name =
     (if shaped name then None
      else Some (''REFUSED: a node's name is letters, digits and hyphens starting with a letter, because it is ''
        @ ''the last word of '' @ SUITE @ ''-<cluster>-node-<node> and a file name: not '' @ name))"

text \<open>The images of a run are the files of its directory, where it has one: the bytes of the base,
  linked or copied, under the instance's name, unless that is there already.\<close>

definition image_of ::
    "string option \<Rightarrow> string \<Rightarrow> string \<times> bytes \<Rightarrow> string \<Rightarrow> string \<Rightarrow> dir \<Rightarrow> string \<times> dir" where
  "image_of images ext base cluster what d =
     (case images of
        None \<Rightarrow> (fst base, d)
      | Some directory \<Rightarrow>
          let name = image_named cluster what @ ext in
          (directory @ ''/'' @ name, if btree_get d name \<noteq> None then d else btree_insert name (snd base) d))"

definition image_of_node ::
    "string option \<Rightarrow> string \<Rightarrow> string \<times> bytes \<Rightarrow> string \<Rightarrow> string \<Rightarrow> dir \<Rightarrow> string \<times> dir" where
  "image_of_node images ext base cluster name d = image_of images ext base cluster (marked name) d"

section \<open>Orders\<close>

record 'cap orders =
  or_stress :: stress
  or_roster :: "'cap roster"
  or_online :: "string list option"
  or_scenarios :: "string list"
  or_rounds :: nat
  or_cluster :: string

definition orders_of :: "stress \<Rightarrow> 'cap roster \<Rightarrow> nat \<Rightarrow> 'cap orders" where
  "orders_of level R rounds =
     \<lparr>or_stress = level, or_roster = R, or_online = None, or_scenarios = [], or_rounds = rounds, or_cluster = []\<rparr>"

definition orders_names :: "'cap orders \<Rightarrow> string list" where
  "orders_names O' = roster_names (or_roster O')"

definition orders_is_online :: "environment \<Rightarrow> 'cap orders \<Rightarrow> string \<Rightarrow> bool" where
  "orders_is_online env O' name \<longleftrightarrow>
     (case or_online O' of
        None \<Rightarrow> node_is_online env name
      | Some named \<Rightarrow> list_ex (\<lambda>one. eq_ignore_ascii_case one name) named)"

definition orders_capability ::
    "'cap capability_api \<Rightarrow> ('cap \<Rightarrow> bool \<Rightarrow> 'cap) \<Rightarrow> environment \<Rightarrow> 'cap orders \<Rightarrow> string \<Rightarrow> 'cap" where
  "orders_capability K online_of env O' name =
     online_of (roster_capability K (or_roster O') name) (orders_is_online env O' name)"

definition strangers :: "'cap orders \<Rightarrow> string list" where
  "strangers O' = filter (\<lambda>one. \<not> list_ex (\<lambda>name. eq_ignore_ascii_case name one) (orders_names O'))
     (case or_online O' of None \<Rightarrow> [] | Some named \<Rightarrow> named)"

definition orders_refusal :: "node_api \<Rightarrow> 'cap capability_api \<Rightarrow> 'cap orders \<Rightarrow> string option" where
  "orders_refusal N K O' =
     (if roster_is_empty (or_roster O')
      then Some (''REFUSED: a cluster supervises nodes and none was named; ''
        @ ''--nodes <node>=receiving,<node>=processing,<node>=sending names them.'')
      else (case List.map_filter image_refusal (orders_names O') of
          refused # _ \<Rightarrow> Some refused
        | [] \<Rightarrow>
            if strangers O' \<noteq> []
            then Some (''REFUSED: --online names '' @ join '', '' (strangers O')
              @ '', which --nodes does not; the nodes are '' @ join '', '' (orders_names O') @ ''.'')
            else if scenario_drives (or_scenarios O') ROUND_TRIP then refusal N K (or_roster O')
            else None))"

section \<open>A node's command\<close>

definition node_interval_ms :: "stress \<Rightarrow> nat" where
  "node_interval_ms level =
     (case level of Calm \<Rightarrow> 250 | Realistic \<Rightarrow> 250 | Harsh \<Rightarrow> 1000 | Brutal \<Rightarrow> 2000)"

text \<open>\<open>words\<close> and \<open>online\<close> are the crate's \<open>Capability::words\<close> and \<open>Capability::is_online\<close>.\<close>

definition capability_flags :: "('cap \<Rightarrow> string) \<Rightarrow> ('cap \<Rightarrow> bool) \<Rightarrow> 'cap \<Rightarrow> string list" where
  "capability_flags words online cap =
     [''--role'', words cap, ''--online'', if online cap then ''true'' else ''false'']"

definition node_args ::
    "'cap capability_api \<Rightarrow> string list \<Rightarrow> 'cap orders \<Rightarrow> nat \<Rightarrow> string \<Rightarrow> string \<Rightarrow> string \<Rightarrow> string list" where
  "node_args K flags O' beat_ms shared name path =
     [''--name'', name, ''--stress'', stress_name (or_stress O'), ''--rounds'', decimal (or_rounds O'),
      ''--interval-ms'', decimal (node_interval_ms (or_stress O')), ''--beat-ms'', decimal beat_ms,
      ''--nodes'', roster_text K (or_roster O')]
     @ (if or_scenarios O' \<noteq> [] then [''--scenarios'', join '','' (or_scenarios O')] else [])
     @ flags @ [''--shared'', shared, ''--snapshot'', path]"

section \<open>What is refused\<close>

text \<open>An accepted scenario list means what it says: each name that was given is a scenario the run
  drives, and only those; a list that names a stranger is refused, and an empty one drives every
  scenario.\<close>

theorem chosen_scenarios_are_driven:
  "(case scenario_chosen raw of
      Inr known \<Rightarrow> known = scenario_names raw \<and> set known \<subseteq> set SCENARIOS
        \<and> {s \<in> set SCENARIOS. scenario_drives known s} = (if known = [] then set SCENARIOS else set known)
    | Inl _ \<Rightarrow> \<not> set (scenario_names raw) \<subseteq> set SCENARIOS)"
proof (cases "set (scenario_names raw) \<subseteq> set SCENARIOS")
  case True
  then have "scenario_chosen raw = Inr (scenario_names raw)"
    by (auto simp: scenario_chosen_def Let_def filter_empty_conv filter_id_conv)
  then show ?thesis using True by (auto simp: scenario_drives_def list_ex_iff)
next
  case False
  then show ?thesis by (auto simp: scenario_chosen_def Let_def filter_empty_conv)
qed

lemma shaped_chars:
  assumes "shaped name"
  shows "CHR ''/'' \<notin> set name" "CHR '','' \<notin> set name"
proof -
  have "\<not> (is_alphabetic c \<or> is_digit c \<or> c = CHR ''-'')" if "c = CHR ''/'' \<or> c = CHR '',''" for c
    using that by (elim disjE) (simp_all add: is_alphabetic_def is_digit_def)
  then show "CHR ''/'' \<notin> set name" "CHR '','' \<notin> set name"
    using assms by (auto simp: shaped_def list_all_iff)
qed

lemma image_refusal_None: "image_refusal name = None \<longleftrightarrow> shaped name"
  by (simp add: image_refusal_def)

lemma no_refusal_each: "List.map_filter image_refusal names = [] \<longleftrightarrow> list_all shaped names"
  by (auto simp: List.map_filter_def filter_empty_conv list_all_iff image_refusal_def split: if_splits)

lemma orders_refusal_None:
  "orders_refusal N K O' = None \<longleftrightarrow>
     or_roster O' \<noteq> [] \<and> list_all shaped (orders_names O') \<and> strangers O' = []
     \<and> (scenario_drives (or_scenarios O') ROUND_TRIP \<longrightarrow> refusal N K (or_roster O') = None)"
  by (auto simp: orders_refusal_def roster_is_empty_def simp flip: no_refusal_each split: list.splits)

lemma image_names_apart:
  "node_named c m = node_named c n \<longleftrightarrow> m = n"
  "node_named c n \<noteq> image_named c ''roll''" "node_named c n \<noteq> image_named c ''cluster''"
  by (simp_all add: node_named_def image_named_def marked_def)


definition example_orders :: "stage list orders" where
  "example_orders = orders_of Calm example_roster 3"


text \<open>
  A node's marker keeps its process name apart from every other of its own cluster, and not from
  another cluster's, whose name may hold a hyphen too: the node \<open>b-roll\<close> of the cluster \<open>a\<close> goes by the
  name of the roll of the cluster \<open>a-node-b\<close>.
\<close>

lemma image_names_collide: "node_named ''a'' ''b-roll'' = image_named ''a-node-b'' ''roll''"
  by (simp add: node_named_def image_named_def marked_def)

text \<open>Two nodes of one name are orders that are taken: two processes then publish into one file, and the
  pairs of the second's place are nobody's.\<close>

lemma duplicate_names_are_taken:
  "orders_refusal documented_node plain_capability (orders_of Calm [(''a'', [Receive, Process, Send]), (''a'', [Receive])] 3)
     = None"
  by code_simp

end
