(* ===== verification/Cluster.thy ===== *)
theory Cluster
  imports Orders Handoff Ledger
begin

text \<open>
  The cluster (\<open>src/cluster.rs\<close>, \<open>src/cluster/liveness.rs\<close>, \<open>src/cluster/member.rs\<close>,
  \<open>src/cluster/rollup.rs\<close>): its nodes as processes, watched by their beats, restarted where they hang,
  and its view, assembled from what each node published where anything changed. The machine, its
  clock, its files and its processes are the parameter \<open>M\<close>, a function of the instant it is asked
  at, in nanoseconds; reading a beat and a publication are the \<open>toml\<close> crate's and \<open>report.rs\<close>'s.
\<close>

section \<open>Liveness\<close>

record liveness =
  lv_beat :: nat
  lv_missed :: nat
  lv_starting :: nat

definition OWNERS :: liveness where
  "OWNERS = \<lparr>lv_beat = 100 * 1000000, lv_missed = 100, lv_starting = 10 * 1000000000\<rparr>"

definition lv_silence :: "liveness \<Rightarrow> nat" where
  "lv_silence V = lv_beat V * lv_missed V"

definition lv_hung :: "liveness \<Rightarrow> nat \<Rightarrow> nat option \<Rightarrow> bool" where
  "lv_hung V running quiet \<longleftrightarrow>
     (case quiet of None \<Rightarrow> running > lv_starting V | Some q \<Rightarrow> q > lv_silence V)"

section \<open>The machine\<close>

record exit_status =
  xs_success :: bool
  xs_text :: string

record machine =
  mc_text :: "nat \<Rightarrow> string \<Rightarrow> string option"
  mc_exited :: "nat \<Rightarrow> nat \<Rightarrow> exit_status option"
  mc_killed :: "nat \<Rightarrow> nat \<Rightarrow> exit_status option"
  mc_starts :: "nat \<Rightarrow> string \<Rightarrow> string + nat"
  mc_beat_rounds :: "string \<Rightarrow> nat option"
  mc_publication :: "string \<Rightarrow> (snapshot \<times> hop list) option"

definition beat_beside :: "string \<Rightarrow> string" where
  "beat_beside path = with_extension ''beat'' path"

section \<open>A member\<close>

record member =
  mb_name :: string
  mb_child :: "nat option"
  mb_exit :: "exit_status option"
  mb_path :: string
  mb_published :: snapshot
  mb_hops :: "hop list"
  mb_fresh :: bool
  mb_restarts :: nat
  mb_since :: nat
  mb_beat :: "nat option"
  mb_beat_text :: string
  mb_rounds :: nat
  mb_read_at :: "nat option"
  mb_parses :: nat

definition member_started :: "nat \<Rightarrow> string \<Rightarrow> nat \<Rightarrow> string \<Rightarrow> member" where
  "member_started t name child path =
     \<lparr>mb_name = name, mb_child = Some child, mb_exit = None, mb_path = path, mb_published = [], mb_hops = [],
      mb_fresh = False, mb_restarts = 0, mb_since = t, mb_beat = None, mb_beat_text = [], mb_rounds = 0,
      mb_read_at = None, mb_parses = 0\<rparr>"

definition mb_alive :: "member \<Rightarrow> bool" where
  "mb_alive m \<longleftrightarrow> mb_child m \<noteq> None"

definition member_restarted :: "nat \<Rightarrow> nat \<Rightarrow> member \<Rightarrow> member" where
  "member_restarted t child m =
     m\<lparr>mb_child := Some child, mb_exit := None, mb_since := t, mb_beat := None, mb_rounds := 0\<rparr>"

definition member_hung :: "liveness \<Rightarrow> nat \<Rightarrow> member \<Rightarrow> bool" where
  "member_hung V t m \<longleftrightarrow> mb_alive m \<and> lv_hung V (t - mb_since m) (map_option (\<lambda>beat. t - beat) (mb_beat m))"

definition member_listen :: "machine \<Rightarrow> nat \<Rightarrow> member \<Rightarrow> member" where
  "member_listen M t m =
     (case mc_text M t (beat_beside (mb_path m)) of
        None \<Rightarrow> m
      | Some text \<Rightarrow>
          if text = mb_beat_text m then m
          else
            let m = (case mc_beat_rounds M text of Some rounds \<Rightarrow> m\<lparr>mb_rounds := rounds\<rparr> | None \<Rightarrow> m) in
            m\<lparr>mb_beat := Some t, mb_beat_text := text\<rparr>)"

definition member_read :: "machine \<Rightarrow> nat \<Rightarrow> member \<Rightarrow> member" where
  "member_read M t m =
     (let m = member_listen M t m in
      if mb_rounds m = 0 \<or> mb_read_at m = Some (mb_rounds m) then m
      else (case mc_text M t (mb_path m) of
          None \<Rightarrow> m
        | Some text \<Rightarrow>
            (case mc_publication M text of
               None \<Rightarrow> m
             | Some (published, hops) \<Rightarrow>
                 m\<lparr>mb_published := published, mb_hops := hops, mb_read_at := Some (mb_rounds m),
                   mb_parses := mb_parses m + 1, mb_fresh := True\<rparr>)))"

definition member_reap :: "machine \<Rightarrow> nat \<Rightarrow> member \<Rightarrow> member" where
  "member_reap M t m =
     (case mb_child m of
        None \<Rightarrow> m
      | Some child \<Rightarrow>
          (case mc_exited M t child of None \<Rightarrow> m | Some status \<Rightarrow> m\<lparr>mb_exit := Some status, mb_child := None\<rparr>))"

definition member_kill :: "machine \<Rightarrow> nat \<Rightarrow> member \<Rightarrow> member" where
  "member_kill M t m =
     (case mb_child m of
        None \<Rightarrow> m
      | Some child \<Rightarrow> m\<lparr>mb_child := None, mb_exit := mc_killed M t child\<rparr>)"

text \<open>What drawing a node's process is called and what an alive one says are \<open>observe::topology::draw\<close>'s.\<close>

record drawing =
  dr_system_process :: "string \<Rightarrow> string"
  dr_alive :: string

definition process_state :: "drawing \<Rightarrow> member \<Rightarrow> health \<times> nat \<times> string" where
  "process_state D m =
     (let again = ''restarted '' @ decimal (mb_restarts m) @ '' time(s) after it stopped beating (hung)'' in
      case mb_exit m of
        Some status \<Rightarrow>
          if \<not> xs_success status then (Done, 90, ''exited with '' @ xs_text status)
          else if mb_restarts m = 0 then (Fine, 0, ''exited 0 after its rounds'')
          else (Stressed, 60, ''exited 0; '' @ again)
      | None \<Rightarrow>
          if mb_restarts m = 0 \<and> mb_beat m = None then (Working, 20, ''starting, no beat yet'')
          else if mb_restarts m = 0 \<and> mb_rounds m = 0
          then (Working, 20, ''starting: beating, its first round under way'')
          else if mb_restarts m = 0 then (Fine, 0, dr_alive D)
          else (Stressed, 60, dr_alive D @ ''; '' @ again))"

definition process_record :: "drawing \<Rightarrow> string \<Rightarrow> int \<Rightarrow> member \<Rightarrow> health_record" where
  "process_record D root now m =
     (case process_state D m of (h, severity, why) \<Rightarrow>
        \<lparr>hr_scope = dr_system_process D (root @ ''/node/'' @ mb_name m), hr_health = h, hr_severity = severity,
         hr_evidence = why, hr_observed = now\<rparr>)"

section \<open>The rollup and the merge\<close>

function trim_start_matches :: "string \<Rightarrow> string \<Rightarrow> string" where
  "trim_start_matches p s =
     (if p \<noteq> [] \<and> prefix p s then trim_start_matches p (drop (length p) s) else s)"
  by pat_completeness auto

termination
proof (relation "measure (\<lambda>(p, s). length s)")
  fix p s :: string
  assume "p \<noteq> [] \<and> prefix p s"
  then have "0 < length p" "length p \<le> length s" by (auto dest: prefix_length_le)
  then have "length (drop (length p) s) < length s" unfolding length_drop by linarith
  then show "((p, drop (length p) s), (p, s)) \<in> measure (\<lambda>(p, s). length s)" by (simp only: in_measure prod.case)
qed simp

declare trim_start_matches.simps [simp del]

definition rollup :: "observe_api \<Rightarrow> string \<Rightarrow> snapshot \<Rightarrow> nat \<Rightarrow> int \<Rightarrow> health_record" where
  "rollup O' root snap n now =
     (let nodes = root @ ''/node'';
          records = health_under O' snap nodes;
          fine = length (filter (\<lambda>r. hr_health r = Fine) records);
          (h, severity, why) = (case records of
              worst # _ \<Rightarrow>
                if hr_health worst \<noteq> Fine
                then (hr_health worst, hr_severity worst - 1,
                  decimal n @ '' nodes, '' @ decimal fine @ '' of '' @ decimal (length records)
                  @ '' leaves fine; worst '' @ trim_start_matches (nodes @ ''/'') (hr_scope worst) @ '': ''
                  @ hr_evidence worst)
                else (Fine, 0, decimal n @ '' nodes, all '' @ decimal (length records) @ '' leaves fine'')
            | [] \<Rightarrow> (Working, 20, decimal n @ '' nodes, nothing published yet'')) in
      \<lparr>hr_scope = nodes, hr_health = h, hr_severity = severity, hr_evidence = why, hr_observed = now\<rparr>)"

text \<open>The counts of a snapshot are \<open>observe\<close>'s to list; the Subscriptions and Event subscriptions a
  snapshot may carry are not modelled.\<close>

definition merge_snapshots ::
    "observe_api \<Rightarrow> (snapshot \<Rightarrow> count_record list) \<Rightarrow> snapshot \<Rightarrow> snapshot \<Rightarrow> snapshot" where
  "merge_snapshots O' counts_of into from' =
     into @ map RecordHealth (health_records O' from') @ map RecordCount (counts_of from')"

section \<open>The cluster\<close>

text \<open>What a cluster judges by and publishes with.\<close>

record watching =
  wt_liveness :: liveness
  wt_drawing :: drawing
  wt_observe :: observe_api
  wt_counts :: "snapshot \<Rightarrow> count_record list"
  wt_root :: string

record cluster =
  cu_nodes :: "member list"
  cu_view :: snapshot
  cu_said :: "(health \<times> string) list"
  cu_changed :: bool

definition WAIT_GRACE :: nat where
  "WAIT_GRACE = 2 * 1000000000"

text \<open>Starting one node after another; one that does not start ends it.\<close>

fun start_members :: "machine \<Rightarrow> nat \<Rightarrow> string \<Rightarrow> string list \<Rightarrow> string + member list" where
  "start_members M t snapshots [] = Inr []"
| "start_members M t snapshots (name # names) =
     (case mc_starts M t name of
        Inl e \<Rightarrow> Inl e
      | Inr child \<Rightarrow>
          (case start_members M t snapshots names of
             Inl e \<Rightarrow> Inl e
           | Inr ms \<Rightarrow> Inr (member_started t name child (snapshots @ ''/'' @ name @ ''.xmip'') # ms)))"

definition cluster_judged :: "machine \<Rightarrow> nat \<Rightarrow> 'cap orders \<Rightarrow> string \<Rightarrow> string + cluster" where
  "cluster_judged M t O' snapshots =
     (case start_members M t snapshots (orders_names O') of
        Inl e \<Rightarrow> Inl e
      | Inr ms \<Rightarrow> Inr \<lparr>cu_nodes = ms, cu_view = [], cu_said = [], cu_changed = False\<rparr>)"

definition all_fresh :: "member list \<Rightarrow> bool" where
  "all_fresh ms \<longleftrightarrow> list_all (\<lambda>m. mb_fresh m \<or> \<not> mb_alive m) ms"

text \<open>The wait of a tick, over the instants it polls at: it ends at the first where every live node is
  fresh or the grace has passed.\<close>

fun wait_for_nodes :: "machine \<Rightarrow> nat \<Rightarrow> nat list \<Rightarrow> member list \<Rightarrow> member list" where
  "wait_for_nodes M started [] ms = ms"
| "wait_for_nodes M started (t # ts) ms =
     (let ms = map (member_read M t) ms in
      if all_fresh ms \<or> t - started > WAIT_GRACE then ms else wait_for_nodes M started ts ms)"

definition judge_process :: "machine \<Rightarrow> liveness \<Rightarrow> nat \<Rightarrow> member \<Rightarrow> member" where
  "judge_process M V t m =
     (let m = member_listen M t (member_reap M t m) in
      if member_hung V t m
      then
        let m = member_kill M t m;
            m = m\<lparr>mb_restarts := mb_restarts m + 1\<rparr> in
        (case mc_starts M t (mb_name m) of Inr child \<Rightarrow> member_restarted t child m | Inl _ \<Rightarrow> m)
      else m)"

definition assemble :: "watching \<Rightarrow> int \<Rightarrow> member list \<Rightarrow> snapshot" where
  "assemble B now ms =
     (let view = fold (\<lambda>m view. merge_snapshots (wt_observe B) (wt_counts B) view (mb_published m)
            @ [RecordHealth (process_record (wt_drawing B) (wt_root B) now m)]) ms [] in
      view @ [RecordHealth (rollup (wt_observe B) (wt_root B) view (length ms) now)])"

definition says :: "watching \<Rightarrow> int \<Rightarrow> member list \<Rightarrow> (health \<times> string) list" where
  "says B now ms = map (\<lambda>m. let r = process_record (wt_drawing B) (wt_root B) now m in (hr_health r, hr_evidence r)) ms"

text \<open>When a tick asks: the instants it polls at, the instant it judges each node at, and the time it
  publishes under.\<close>

record tick_times =
  tt_started :: nat
  tt_polls :: "nat list"
  tt_judged :: nat
  tt_now :: int

definition cluster_tick :: "machine \<Rightarrow> watching \<Rightarrow> tick_times \<Rightarrow> cluster \<Rightarrow> cluster" where
  "cluster_tick M B T C =
     (let ms = map (\<lambda>m. m\<lparr>mb_fresh := False\<rparr>) (cu_nodes C);
          ms = wait_for_nodes M (tt_started T) (tt_polls T) ms;
          ms = map (judge_process M (wt_liveness B) (tt_judged T)) ms;
          said = says B (tt_now T) ms;
          changed = (said \<noteq> cu_said C \<or> list_ex mb_fresh ms) in
      C\<lparr>cu_nodes := ms, cu_changed := changed,
        cu_view := (if changed then assemble B (tt_now T) ms else cu_view C),
        cu_said := (if changed then said else cu_said C)\<rparr>)"

definition cluster_ticks :: "machine \<Rightarrow> watching \<Rightarrow> tick_times list \<Rightarrow> cluster \<Rightarrow> cluster" where
  "cluster_ticks M B Ts C = fold (cluster_tick M B) Ts C"

definition cluster_alive :: "cluster \<Rightarrow> nat" where
  "cluster_alive C = length (filter mb_alive (cu_nodes C))"

definition cluster_restarts :: "cluster \<Rightarrow> nat" where
  "cluster_restarts C = sum_list (map mb_restarts (cu_nodes C))"

definition cluster_hops :: "cluster \<Rightarrow> hop list" where
  "cluster_hops C = concat (map mb_hops (cu_nodes C))"

text \<open>\<open>stop\<close>: the nodes reaped at the instants it looks at them while any is alive, and what remains
  killed.\<close>

fun cluster_leave :: "machine \<Rightarrow> nat list \<Rightarrow> member list \<Rightarrow> member list" where
  "cluster_leave M [] ms = ms"
| "cluster_leave M (t # ts) ms =
     (if list_ex mb_alive ms then cluster_leave M ts (map (member_reap M t) ms) else ms)"

definition cluster_stop :: "machine \<Rightarrow> nat list \<Rightarrow> nat \<Rightarrow> cluster \<Rightarrow> cluster" where
  "cluster_stop M looks t C = C\<lparr>cu_nodes := map (member_kill M t) (cluster_leave M looks (cu_nodes C))\<rparr>"

section \<open>A tick, member by member\<close>

text \<open>The wait reads every member at the same first polls, however it ends.\<close>

lemma wait_reads: "\<exists>k. wait_for_nodes M started ts ms = map (fold (member_read M) (take k ts)) ms"
proof (induction ts arbitrary: ms)
  case Nil
  show ?case by simp
next
  case (Cons t ts)
  let ?ms = "map (member_read M t) ms"
  show ?case
  proof (cases "all_fresh ?ms \<or> t - started > WAIT_GRACE")
    case True
    then show ?thesis by (intro exI [of _ 1]) (simp add: Let_def)
  next
    case False
    from Cons.IH [of ?ms] obtain k where "wait_for_nodes M started ts ?ms = map (fold (member_read M) (take k ts)) ?ms" ..
    with False show ?thesis by (intro exI [of _ "Suc k"]) (auto simp: Let_def)
  qed
qed

definition tick_member :: "machine \<Rightarrow> liveness \<Rightarrow> nat list \<Rightarrow> nat \<Rightarrow> member \<Rightarrow> member" where
  "tick_member M V polls t m = judge_process M V t (fold (member_read M) polls (m\<lparr>mb_fresh := False\<rparr>))"

lemma tick_members:
  "\<exists>k. cu_nodes (cluster_tick M B T C) =
     map (tick_member M (wt_liveness B) (take k (tt_polls T)) (tt_judged T)) (cu_nodes C)"
  using wait_reads [of M "tt_started T" "tt_polls T" "map (\<lambda>m. m\<lparr>mb_fresh := False\<rparr>) (cu_nodes C)"]
  by (auto simp: cluster_tick_def Let_def tick_member_def)

text \<open>What the operations on a member leave as it was.\<close>

lemma listen_keeps:
  "mb_name (member_listen M t m) = mb_name m" "mb_path (member_listen M t m) = mb_path m"
  "mb_child (member_listen M t m) = mb_child m" "mb_exit (member_listen M t m) = mb_exit m"
  "mb_restarts (member_listen M t m) = mb_restarts m" "mb_published (member_listen M t m) = mb_published m"
  "mb_fresh (member_listen M t m) = mb_fresh m" "mb_read_at (member_listen M t m) = mb_read_at m"
  by (auto simp: member_listen_def Let_def split: option.splits)

lemma read_keeps:
  "mb_name (member_read M t m) = mb_name m" "mb_path (member_read M t m) = mb_path m"
  "mb_child (member_read M t m) = mb_child m" "mb_exit (member_read M t m) = mb_exit m"
  "mb_restarts (member_read M t m) = mb_restarts m"
  "mb_beat (member_read M t m) = mb_beat (member_listen M t m)"
  "mb_beat_text (member_read M t m) = mb_beat_text (member_listen M t m)"
  by (auto simp: member_read_def Let_def listen_keeps split: option.splits)

lemma reap_keeps:
  "mb_name (member_reap M t m) = mb_name m" "mb_path (member_reap M t m) = mb_path m"
  "mb_restarts (member_reap M t m) = mb_restarts m" "mb_published (member_reap M t m) = mb_published m"
  "mb_fresh (member_reap M t m) = mb_fresh m" "mb_beat (member_reap M t m) = mb_beat m"
  "mb_beat_text (member_reap M t m) = mb_beat_text m" "mb_rounds (member_reap M t m) = mb_rounds m"
  by (auto simp: member_reap_def split: option.splits)

lemma judge_keeps:
  "mb_name (judge_process M V t m) = mb_name m" "mb_path (judge_process M V t m) = mb_path m"
  "mb_published (judge_process M V t m) = mb_published m" "mb_fresh (judge_process M V t m) = mb_fresh m"
  by (auto simp: judge_process_def Let_def member_kill_def member_restarted_def listen_keeps reap_keeps
      split: option.splits sum.splits)

lemma read_unfresh: "\<not> mb_fresh (member_read M t m) \<Longrightarrow> mb_published (member_read M t m) = mb_published m \<and> \<not> mb_fresh m"
  by (auto simp: member_read_def Let_def listen_keeps split: option.splits if_splits)

lemma reads_unfresh:
  "\<not> mb_fresh (fold (member_read M) ts m) \<Longrightarrow> mb_published (fold (member_read M) ts m) = mb_published m \<and> \<not> mb_fresh m"
proof (induction ts arbitrary: m)
  case (Cons t ts)
  from Cons.IH [of "member_read M t m"] Cons.prems read_unfresh [of M t m] show ?case by auto
qed simp

lemma reads_keep:
  "mb_name (fold (member_read M) ts m) = mb_name m" "mb_path (fold (member_read M) ts m) = mb_path m"
  "mb_child (fold (member_read M) ts m) = mb_child m" "mb_restarts (fold (member_read M) ts m) = mb_restarts m"
  by (induction ts arbitrary: m) (simp_all add: read_keeps)

lemma tick_member_keeps:
  "mb_name (tick_member M V ts t m) = mb_name m" "mb_path (tick_member M V ts t m) = mb_path m"
  "\<not> mb_fresh (tick_member M V ts t m) \<Longrightarrow> mb_published (tick_member M V ts t m) = mb_published m"
  using reads_unfresh [of M ts "m\<lparr>mb_fresh := False\<rparr>"] by (auto simp: tick_member_def judge_keeps reads_keep)

section \<open>The view is the one that would be assembled\<close>

lemma severity_by_health:
  "process_state D m = (h, s, e) \<Longrightarrow> s = (if h = Fine then 0 else if h = Done then 90 else if h = Working then 20 else 60)"
  by (auto simp: process_state_def Let_def split: option.splits if_splits)

lemma severity_of_health:
  "process_state D m = (h, s, e) \<Longrightarrow> process_state D m' = (h, s', e') \<Longrightarrow> s = s'"
  by (drule severity_by_health)+ simp

lemma same_said_same_record:
  assumes "mb_name m = mb_name m'"
    and "(hr_health (process_record D root now m), hr_evidence (process_record D root now m))
      = (hr_health (process_record D root now' m'), hr_evidence (process_record D root now' m'))"
  shows "process_record D root at m = process_record D root at m'"
proof -
  obtain h s e h' s' e' where st: "process_state D m = (h, s, e)" "process_state D m' = (h', s', e')"
    by (metis surj_pair)
  with assms(2) have "h = h'" "e = e'" by (simp_all add: process_record_def)
  moreover from this st have "s = s'" using severity_of_health by blast
  ultimately show ?thesis using st assms(1) by (simp add: process_record_def)
qed

lemma assemble_same:
  assumes "length ms = length ms'"
    and "\<And>i. i < length ms \<Longrightarrow> mb_published (ms ! i) = mb_published (ms' ! i)
      \<and> process_record (wt_drawing B) (wt_root B) now (ms ! i) = process_record (wt_drawing B) (wt_root B) now (ms' ! i)"
  shows "assemble B now ms = assemble B now ms'"
proof -
  let ?f = "\<lambda>m view. merge_snapshots (wt_observe B) (wt_counts B) view (mb_published m)
            @ [RecordHealth (process_record (wt_drawing B) (wt_root B) now m)]"
  have "map (\<lambda>m. (mb_published m, process_record (wt_drawing B) (wt_root B) now m)) ms
      = map (\<lambda>m. (mb_published m, process_record (wt_drawing B) (wt_root B) now m)) ms'"
    using assms by (intro nth_equalityI) auto
  then have "fold ?f ms view = fold ?f ms' view" for view
  proof (induction ms arbitrary: ms' view)
    case (Cons m ms)
    from Cons.prems obtain m' ms2 where ms': "ms' = m' # ms2" by (cases ms') auto
    with Cons.prems have "?f m = ?f m'" by auto
    moreover from Cons.prems ms' have "map (\<lambda>m. (mb_published m, process_record (wt_drawing B) (wt_root B) now m)) ms
      = map (\<lambda>m. (mb_published m, process_record (wt_drawing B) (wt_root B) now m)) ms2" by simp
    ultimately show ?case using Cons.IH [of ms2] by (simp add: ms')
  qed simp
  then show ?thesis using assms(1) by (simp add: assemble_def)
qed

definition view_current :: "watching \<Rightarrow> cluster \<Rightarrow> bool" where
  "view_current B C \<longleftrightarrow> cu_said C = says B 0 (cu_nodes C) \<and> (\<exists>at. cu_view C = assemble B at (cu_nodes C))"

lemma says_any: "says B now ms = says B 0 ms"
  by (simp add: says_def process_record_def Let_def case_prod_beta)

lemma tick_view_current:
  assumes "view_current B C \<or> cu_said C = [] \<and> cu_nodes C \<noteq> []"
  shows "view_current B (cluster_tick M B T C)"
proof (cases "cu_changed (cluster_tick M B T C)")
  case True
  then show ?thesis by (auto simp: view_current_def cluster_tick_def Let_def says_any [of B "tt_now T"])
next
  case False
  let ?ms = "cu_nodes (cluster_tick M B T C)"
  from tick_members obtain k where ms: "?ms =
      map (tick_member M (wt_liveness B) (take k (tt_polls T)) (tt_judged T)) (cu_nodes C)" by blast
  have said: "says B 0 ?ms = cu_said C" and stale: "\<not> list_ex mb_fresh ?ms"
    and rest: "cu_view (cluster_tick M B T C) = cu_view C" "cu_said (cluster_tick M B T C) = cu_said C"
    using False by (simp_all add: cluster_tick_def Let_def says_any [of B "tt_now T"])
  have "cu_said C \<noteq> [] \<or> cu_nodes C = []" using said by (auto simp: says_def ms)
  with assms have before: "view_current B C" by auto
  then obtain at where view: "cu_view C = assemble B at (cu_nodes C)" and old: "cu_said C = says B 0 (cu_nodes C)"
    by (auto simp: view_current_def)
  have "assemble B at ?ms = assemble B at (cu_nodes C)"
  proof (rule assemble_same)
    show "length ?ms = length (cu_nodes C)" by (simp add: ms)
    fix i assume "i < length ?ms"
    then have i: "i < length (cu_nodes C)" by (simp add: ms)
    then have at: "?ms ! i = tick_member M (wt_liveness B) (take k (tt_polls T)) (tt_judged T) (cu_nodes C ! i)"
      by (simp add: ms)
    have "\<not> mb_fresh (?ms ! i)" using stale \<open>i < length ?ms\<close> by (auto simp: list_ex_iff)
    then have "mb_published (?ms ! i) = mb_published (cu_nodes C ! i)"
      unfolding at by (rule tick_member_keeps(3))
    moreover have "says B 0 ?ms ! i = says B 0 (cu_nodes C) ! i" using said old by simp
    then have "process_record (wt_drawing B) (wt_root B) at (?ms ! i) =
        process_record (wt_drawing B) (wt_root B) at (cu_nodes C ! i)"
      using i \<open>i < length ?ms\<close>
      by (intro same_said_same_record [where now = 0 and now' = 0]) (simp_all add: says_def Let_def at tick_member_keeps)
    ultimately show "mb_published (?ms ! i) = mb_published (cu_nodes C ! i)
      \<and> process_record (wt_drawing B) (wt_root B) at (?ms ! i) = process_record (wt_drawing B) (wt_root B) at (cu_nodes C ! i)"
      by blast
  qed
  then show ?thesis using view said unfolding view_current_def rest by (intro conjI exI [of _ at]) simp_all
qed

lemma judged_start:
  assumes "cluster_judged M t O' snapshots = Inr C" and "orders_names O' \<noteq> []"
  shows "cu_said C = []" "cu_nodes C \<noteq> []"
proof -
  have "length ms = length names" if "start_members M t snapshots names = Inr ms" for names ms
    using that by (induction names arbitrary: ms) (auto split: sum.splits)
  moreover obtain ms where "start_members M t snapshots (orders_names O') = Inr ms" "cu_nodes C = ms" "cu_said C = []"
    using assms(1) by (auto simp: cluster_judged_def split: sum.splits)
  ultimately show "cu_said C = []" "cu_nodes C \<noteq> []" using assms(2) by (metis length_0_conv)+
qed

lemma ticks_view_current:
  assumes "cu_said C = []" and "cu_nodes C \<noteq> []" and "Ts \<noteq> []"
  shows "view_current B (cluster_ticks M B Ts C)"
  using assms(3)
proof (induction Ts rule: rev_induct)
  case (snoc T Ts)
  then show ?case
    using assms(1,2) by (cases "Ts = []") (simp_all add: cluster_ticks_def tick_view_current)
qed simp

text \<open>Leaving an unchanged view alone loses nothing. After every tick of a cluster that has a node, the
  view it holds is the one assembling every node's publication, every process's record and the rollup
  anew would give, but for the time it is said at.\<close>

theorem unchanged_view_is_current:
  assumes "cluster_judged M t O' snapshots = Inr C" and "orders_names O' \<noteq> []" and "Ts \<noteq> []"
  shows "\<exists>at. cu_view (cluster_ticks M B Ts C) = assemble B at (cu_nodes (cluster_ticks M B Ts C))"
  using ticks_view_current [OF judged_start [OF assms(1,2)] assms(3)] by (auto simp: view_current_def)

text \<open>A machine whose nodes start, beat at every instant and publish nothing, and the owners' watch.\<close>

definition example_machine :: machine where
  "example_machine = \<lparr>mc_text = \<lambda>t path. Some (decimal (Suc t)), mc_exited = \<lambda>t child. None,
     mc_killed = \<lambda>t child. None, mc_starts = \<lambda>t name. Inr 1, mc_beat_rounds = \<lambda>said. Some 0,
     mc_publication = \<lambda>said. None\<rparr>"

definition example_watching :: watching where
  "example_watching = \<lparr>wt_liveness = OWNERS, wt_drawing = \<lparr>dr_system_process = id, dr_alive = ''alive''\<rparr>,
     wt_observe = plain_observe, wt_counts = \<lambda>s. [], wt_root = ''xmip:///test''\<rparr>"

definition example_times :: tick_times where
  "example_times = \<lparr>tt_started = 0, tt_polls = [5], tt_judged = 20000000000, tt_now = 0\<rparr>"

lemma example_starts: "\<exists>ms. start_members example_machine t snapshots names = Inr ms"
  by (induction names) (auto simp: example_machine_def split: sum.splits)

lemma example_cluster: "\<exists>C. cluster_judged example_machine t O' snapshots = Inr C"
  using example_starts [of t snapshots "orders_names O'"] by (auto simp: cluster_judged_def)

theorem unchanged_view_is_current_witness:
  "\<exists>C at. cluster_judged example_machine 0 example_orders ''d'' = Inr C
     \<and> cu_view (cluster_ticks example_machine example_watching [example_times] C)
       = assemble example_watching at (cu_nodes (cluster_ticks example_machine example_watching [example_times] C))"
proof -
  obtain C where C: "cluster_judged example_machine 0 example_orders ''d'' = Inr C" using example_cluster by blast
  have "orders_names example_orders \<noteq> []" by code_simp
  from unchanged_view_is_current [OF C this, of "[example_times]" example_watching] C
  show ?thesis by auto
qed

section \<open>A node that beats\<close>

text \<open>
  What a node started at \<open>born\<close> does to its beat file: it is there, and says something, once the node
  may no longer be starting; once there it stays; and any two readings a beat apart differ, since each
  beat says the time.
\<close>

definition beats :: "machine \<Rightarrow> liveness \<Rightarrow> nat \<Rightarrow> string \<Rightarrow> bool" where
  "beats M V born path \<longleftrightarrow>
     (\<forall>t. mc_text M t (beat_beside path) \<noteq> Some [])
     \<and> (\<forall>t > born + lv_starting V. mc_text M t (beat_beside path) \<noteq> None)
     \<and> (\<forall>s t. s \<le> t \<longrightarrow> mc_text M s (beat_beside path) \<noteq> None \<longrightarrow> mc_text M t (beat_beside path) \<noteq> None)
     \<and> (\<forall>s t. s + lv_beat V \<le> t \<longrightarrow> mc_text M s (beat_beside path) \<noteq> None \<longrightarrow>
          mc_text M s (beat_beside path) \<noteq> mc_text M t (beat_beside path))"

text \<open>A member that was never restarted and whose last beat the cluster knows of is one the file held
  when it was heard.\<close>

definition heard :: "machine \<Rightarrow> nat \<Rightarrow> member \<Rightarrow> bool" where
  "heard M born m \<longleftrightarrow> mb_restarts m = 0 \<and> mb_since m = born
     \<and> (case mb_beat m of
          None \<Rightarrow> mb_beat_text m = []
        | Some b \<Rightarrow> mc_text M b (beat_beside (mb_path m)) = Some (mb_beat_text m))"

lemma listen_since: "mb_since (member_listen M t m) = mb_since m"
  by (auto simp: member_listen_def Let_def split: option.splits)

lemma heard_listen: "heard M born m \<Longrightarrow> heard M born (member_listen M t m)"
  by (auto simp: heard_def member_listen_def Let_def split: option.splits)

lemma heard_read: "heard M born m \<Longrightarrow> heard M born (member_read M t m)"
proof -
  assume "heard M born m"
  then have "heard M born (member_listen M t m)" by (rule heard_listen)
  moreover have "mb_since (member_read M t m) = mb_since m"
    by (auto simp: member_read_def Let_def listen_since split: option.splits)
  ultimately show ?thesis by (simp add: heard_def read_keeps listen_keeps listen_since split: option.splits)
qed

lemma heard_reads: "heard M born m \<Longrightarrow> heard M born (fold (member_read M) ts m)"
  by (induction ts arbitrary: m) (simp_all add: heard_read)

lemma heard_not_hung:
  assumes "heard M born m" "beats M V born (mb_path m)" "lv_beat V \<le> lv_silence V"
  shows "\<not> member_hung V t (member_listen M t m)"
proof (cases "mc_text M t (beat_beside (mb_path m))")
  case None
  with assms(2) have early: "t \<le> born + lv_starting V" by (auto simp: beats_def not_less [symmetric])
  have quiet: "t \<le> b" if "mb_beat m = Some b" for b
  proof (rule ccontr)
    assume "\<not> t \<le> b"
    moreover have "mc_text M b (beat_beside (mb_path m)) \<noteq> None" using assms(1) that by (simp add: heard_def)
    ultimately have "mc_text M t (beat_beside (mb_path m)) \<noteq> None"
      using assms(2) unfolding beats_def by (meson nat_le_linear)
    then show False using None by simp
  qed
  have "member_listen M t m = m" by (simp add: member_listen_def None)
  then show ?thesis
    using early quiet assms(1) by (auto simp: member_hung_def lv_hung_def heard_def split: option.splits)
next
  case (Some said)
  show ?thesis
  proof (cases "said = mb_beat_text m")
    case False
    then have "mb_beat (member_listen M t m) = Some t"
      by (simp add: member_listen_def Some Let_def split: option.splits)
    then show ?thesis by (simp add: member_hung_def lv_hung_def)
  next
    case True
    then have same: "member_listen M t m = m" by (simp add: member_listen_def Some)
    have "said \<noteq> []" using Some assms(2) by (auto simp: beats_def)
    then obtain b where b: "mb_beat m = Some b" "mc_text M b (beat_beside (mb_path m)) = Some said"
      using assms(1) True by (auto simp: heard_def split: option.splits)
    have "t < b + lv_beat V"
      using assms(2) b(2) Some unfolding beats_def by (metis not_le option.distinct(1))
    then have "\<not> lv_silence V < t - b" using assms(3) by linarith
    then show ?thesis by (simp add: same member_hung_def lv_hung_def b(1))
  qed
qed

lemma heard_tick:
  assumes "heard M born m" "beats M V born (mb_path m)" "lv_beat V \<le> lv_silence V"
  shows "heard M born (tick_member M V ts t m)"
proof -
  let ?m = "member_reap M t (fold (member_read M) ts (m\<lparr>mb_fresh := False\<rparr>))"
  have "heard M born (m\<lparr>mb_fresh := False\<rparr>)" using assms(1) by (simp add: heard_def split: option.splits)
  then have "heard M born (fold (member_read M) ts (m\<lparr>mb_fresh := False\<rparr>))" by (rule heard_reads)
  moreover have "mb_since (member_reap M t n) = mb_since n" for n by (auto simp: member_reap_def split: option.splits)
  ultimately have reaped: "heard M born ?m" by (simp add: heard_def reap_keeps split: option.splits)
  have "mb_path ?m = mb_path m" by (simp add: reap_keeps reads_keep)
  then have "\<not> member_hung V t (member_listen M t ?m)"
    using heard_not_hung [OF reaped] assms(2,3) by simp
  then have "tick_member M V ts t m = member_listen M t ?m" by (simp add: tick_member_def judge_process_def Let_def)
  then show ?thesis using heard_listen [OF reaped] by simp
qed

lemma start_members_heard:
  "start_members M t snapshots names = Inr ms \<Longrightarrow> list_all (heard M t) ms"
  by (induction names arbitrary: ms) (auto simp: heard_def member_started_def split: sum.splits)

text \<open>C11: a node that beats is never restarted. Whatever instants the cluster asks at, however long its
  own reading takes and however long the node's rounds run, a node that shows it is alive within its
  starting allowance and says something new every beat interval is never taken for hung.\<close>

theorem beating_nodes_are_never_restarted:
  assumes "cluster_judged M born O' snapshots = Inr C"
    and "\<forall>m \<in> set (cu_nodes C). beats M (wt_liveness B) born (mb_path m)"
    and "lv_beat (wt_liveness B) \<le> lv_silence (wt_liveness B)"
  shows "cluster_restarts (cluster_ticks M B Ts C) = 0"
proof -
  define good where "good = (\<lambda>C :: cluster. list_all (\<lambda>m. heard M born m \<and> beats M (wt_liveness B) born (mb_path m)) (cu_nodes C))"
  have "good C"
    using assms(1,2) start_members_heard [of M born snapshots "orders_names O'"]
    by (auto simp: good_def cluster_judged_def list_all_iff split: sum.splits)
  moreover have "good (cluster_tick M B T C)" if "good C" for C T
  proof -
    from tick_members obtain k where "cu_nodes (cluster_tick M B T C) =
      map (tick_member M (wt_liveness B) (take k (tt_polls T)) (tt_judged T)) (cu_nodes C)" by blast
    then show ?thesis
      using that heard_tick assms(3) by (auto simp: good_def list_all_iff tick_member_keeps)
  qed
  ultimately have "good (cluster_ticks M B Ts C)"
    unfolding cluster_ticks_def by (induction Ts rule: rev_induct) simp_all
  then show ?thesis by (simp add: good_def cluster_restarts_def list_all_iff heard_def)
qed

theorem beating_nodes_are_never_restarted_witness:
  "\<exists>C. cluster_judged example_machine 0 example_orders ''d'' = Inr C
     \<and> cluster_restarts (cluster_ticks example_machine example_watching [example_times] C) = 0"
proof -
  obtain C where C: "cluster_judged example_machine 0 example_orders ''d'' = Inr C" using example_cluster by blast
  have "beats example_machine OWNERS 0 path" for path
    by (auto simp: beats_def example_machine_def OWNERS_def decimal_inj simp del: decimal.simps)
  then show ?thesis
    using beating_nodes_are_never_restarted [OF C, of example_watching "[example_times]"] C
    by (simp add: example_watching_def OWNERS_def lv_silence_def)
qed

section \<open>A node that falls silent\<close>

lemma listen_silent:
  "mc_text M t (beat_beside (mb_path m)) \<in> {None, Some (mb_beat_text m)} \<Longrightarrow> member_listen M t m = m"
  by (auto simp: member_listen_def)

lemma reads_silent:
  assumes "\<forall>t \<in> set ts. mc_text M t (beat_beside (mb_path m)) \<in> {None, Some (mb_beat_text m)}"
  shows "mb_beat (fold (member_read M) ts m) = mb_beat m \<and> mb_beat_text (fold (member_read M) ts m) = mb_beat_text m"
  using assms
proof (induction ts arbitrary: m)
  case (Cons t ts)
  have "mb_beat (member_read M t m) = mb_beat m" "mb_beat_text (member_read M t m) = mb_beat_text m"
    using listen_silent Cons.prems by (simp_all add: read_keeps)
  with Cons.IH [of "member_read M t m"] Cons.prems show ?case by (simp add: read_keeps)
qed simp

lemma tick_restarts: "mb_restarts m \<le> mb_restarts (tick_member M V ts t m)"
  by (auto simp: tick_member_def judge_process_def Let_def member_kill_def member_restarted_def listen_keeps reap_keeps
      reads_keep split: option.splits sum.splits)

lemma ticks_restarts:
  "i < length (cu_nodes C) \<Longrightarrow> length (cu_nodes (cluster_ticks M B Ts C)) = length (cu_nodes C)
     \<and> mb_restarts (cu_nodes C ! i) \<le> mb_restarts (cu_nodes (cluster_ticks M B Ts C) ! i)"
proof (induction Ts rule: rev_induct)
  case Nil
  then show ?case by (simp add: cluster_ticks_def)
next
  case (snoc T Ts)
  from tick_members obtain k where "cu_nodes (cluster_tick M B T (cluster_ticks M B Ts C)) =
      map (tick_member M (wt_liveness B) (take k (tt_polls T)) (tt_judged T)) (cu_nodes (cluster_ticks M B Ts C))" by blast
  with snoc show ?case
    using tick_restarts order_trans by (simp add: cluster_ticks_def) blast
qed

lemma restarted_shows: "0 < mb_restarts m \<Longrightarrow> fst (process_state D m) \<in> {Done, Stressed}"
  by (auto simp: process_state_def Let_def split: option.splits)



section \<open>A restarted node's first round\<close>

text \<open>
  Restarting a node forgets its beat and its rounds, and not at which round its file was last read: where
  the node had been read at its first round, the first round of the restarted process is taken for
  one already read, and what it published is not.
\<close>

lemma restarted_round_goes_unread:
  assumes "mb_read_at m = Some 1" "mc_text M t (beat_beside (mb_path m)) = Some text" "text \<noteq> mb_beat_text m"
    "mc_beat_rounds M text = Some 1"
  shows "mb_published (member_read M t (member_restarted since child m)) = mb_published m
    \<and> \<not> (mb_fresh (member_read M t (member_restarted since child m)) \<and> \<not> mb_fresh m)"
  using assms by (simp add: member_read_def member_listen_def member_restarted_def Let_def)

end
