(* ===== verification/Heavy_Load.thy ===== *)
theory Heavy_Load
  imports Round_Trip Ledger Workers
begin

text \<open>
  The HeavyLoad test (\<open>src/heavy_load.rs\<close>): a large payload over each pair of the round, judged on
  whether it came back whole and, below the ceiling, whether its contract still holds. How long an
  exchange took is an argument; the floating point display of a size and of a transfer is the
  parameter \<open>D\<close>.
\<close>

section \<open>The exercise\<close>

definition DROP_RATE :: u8 where
  "DROP_RATE = 4"

definition TARGET_BYTES :: nat where
  "TARGET_BYTES = 1024 * 1024"

definition VALIDATE_CEILING :: nat where
  "VALIDATE_CEILING = 16 * 1024 * 1024"

record load_display =
  ld_human :: "nat \<Rightarrow> string"
  ld_transfer :: "nat \<Rightarrow> nat \<Rightarrow> string"

record heavy_load =
  hv_node :: string
  hv_transports :: "adapter list"
  hv_bytes :: nat
  hv_stress :: "stress option"
  hv_round :: nat
  hv_standings :: "(string, standing) btree"
  hv_moved :: nat
  hv_per_round :: "nat option"
  hv_cursor :: nat

definition heavy_load_new :: "string \<Rightarrow> adapter list \<Rightarrow> heavy_load" where
  "heavy_load_new node transports =
     \<lparr>hv_node = node, hv_transports = transports, hv_bytes = TARGET_BYTES, hv_stress = None, hv_round = 0,
      hv_standings = [], hv_moved = 0, hv_per_round = None, hv_cursor = 0\<rparr>"

definition heavy_load_per_round :: "nat \<Rightarrow> heavy_load \<Rightarrow> heavy_load" where
  "heavy_load_per_round pairs H = H\<lparr>hv_per_round := Some (max pairs 1)\<rparr>"

definition heavy_load_at :: "stress \<Rightarrow> heavy_load \<Rightarrow> heavy_load" where
  "heavy_load_at level H = H\<lparr>hv_stress := Some level\<rparr>"

definition heavy_load_over :: "adapter list \<Rightarrow> heavy_load \<Rightarrow> heavy_load" where
  "heavy_load_over transports H = H\<lparr>hv_transports := transports\<rparr>"

definition heavy_load_with_bytes :: "nat \<Rightarrow> heavy_load \<Rightarrow> heavy_load" where
  "heavy_load_with_bytes n H = H\<lparr>hv_bytes := max n 1\<rparr>"

definition size_this_round :: "heavy_load \<Rightarrow> nat" where
  "size_this_round H =
     (case hv_stress H of
        None \<Rightarrow> hv_bytes H
      | Some level \<Rightarrow>
          let edges = filter (\<lambda>n. n > 0) (stress_sizes level);
              cycle = length edges + 1;
              at = (hv_round H - 1) mod cycle in
          if at = 0 then hv_bytes H else edges ! (at - 1))"

section \<open>One load\<close>

record load_line =
  ln_delivered :: bool
  ln_one_sided :: bool
  ln_bytes :: nat
  ln_text :: string

definition line_delivered :: "nat \<Rightarrow> string \<Rightarrow> load_line" where
  "line_delivered n said = \<lparr>ln_delivered = True, ln_one_sided = False, ln_bytes = n, ln_text = said\<rparr>"

definition line_failed :: "string \<Rightarrow> load_line" where
  "line_failed said = \<lparr>ln_delivered = False, ln_one_sided = False, ln_bytes = 0, ln_text = said\<rparr>"

definition line_one_sided :: "string \<Rightarrow> load_line" where
  "line_one_sided said = \<lparr>ln_delivered = False, ln_one_sided = True, ln_bytes = 0, ln_text = said\<rparr>"

definition load_dropped :: "heavy_load \<Rightarrow> string \<Rightarrow> contract \<Rightarrow> bool" where
  "load_dropped H transport c \<longleftrightarrow>
     (case hv_stress H of
        None \<Rightarrow> False
      | Some level \<Rightarrow>
          if transport = ''file'' \<or> transport = ''udp'' then False
          else fires_keyed (scaled_rate DROP_RATE level) (''drop/'' @ transport @ ''/'' @ contract_name c) (hv_round H))"

definition load_structural :: "heavy_load \<Rightarrow> bool" where
  "load_structural H \<longleftrightarrow> size_this_round H \<le> VALIDATE_CEILING"

definition load_payload :: "codec_api \<Rightarrow> heavy_load \<Rightarrow> contract \<Rightarrow> bytes" where
  "load_payload W H c =
     (if load_structural H then stress_payload W c (size_this_round H) else filler (size_this_round H))"

definition load_judge ::
    "load_display \<Rightarrow> contract_api \<Rightarrow> nat \<Rightarrow> heavy_load \<Rightarrow> string \<Rightarrow> contract \<Rightarrow> bytes \<Rightarrow> exchange \<Rightarrow> load_line" where
  "load_judge D C elapsed H name c payload answer =
     (let n = size_this_round H in
      case answer of
        Returned back \<Rightarrow>
          if back = payload
          then
            if load_dropped H name c
            then line_failed (''connection dropped at '' @ ld_human D (n div 2) @ '' of '' @ ld_human D n)
            else (case (if load_structural H then contract_validate C c (as_stream c back) else Inr ()) of
                Inl why \<Rightarrow> line_failed (''contract not held at size: '' @ why)
              | Inr _ \<Rightarrow> line_delivered n
                  (ld_transfer D n elapsed @ (if load_structural H then [] else '' (integrity only)'')))
          else line_failed (''returned bytes did not match '' @ em_dash @ '' corrupted in transit'')
      | ExOneSided why \<Rightarrow> line_one_sided why
      | ExFailed why \<Rightarrow> line_failed why)"

definition load_carry ::
    "load_display \<Rightarrow> contract_api \<Rightarrow> codec_api \<Rightarrow> nat \<Rightarrow> heavy_load \<Rightarrow> adapter \<Rightarrow> contract \<Rightarrow> load_line" where
  "load_carry D C W elapsed H T c =
     (let n = size_this_round H in
      case ad_ceiling T of
        Some limit \<Rightarrow>
          if n > limit
          then line_failed (ld_human D n @ '' exceeds the transport's ceiling of '' @ ld_human D limit)
          else load_judge D C elapsed H (ad_transport T) c (load_payload W H c) (ad_exchange T (load_payload W H c))
      | None \<Rightarrow> load_judge D C elapsed H (ad_transport T) c (load_payload W H c) (ad_exchange T (load_payload W H c)))"

section \<open>A round\<close>

definition line_mark :: "load_line \<Rightarrow> mark" where
  "line_mark l = (if ln_delivered l then Pass else if ln_one_sided l then Warn else Fail)"

definition load_pair_at :: "nat \<Rightarrow> nat \<times> contract" where
  "load_pair_at at = (at div length CONTRACTS, CONTRACTS ! (at mod length CONTRACTS))"

definition load_fold ::
    "load_display \<Rightarrow> contract_api \<Rightarrow> codec_api \<Rightarrow> (nat \<times> contract \<Rightarrow> nat) \<Rightarrow> nat \<times> contract \<Rightarrow> heavy_load \<Rightarrow> heavy_load" where
  "load_fold D C W elapsed pair H =
     (let T = hv_transports H ! fst pair;
          scope = hv_node H @ ''/'' @ ad_transport T @ ''/'' @ contract_name (snd pair);
          l = load_carry D C W (elapsed pair) H T (snd pair) in
      H\<lparr>hv_moved := (if ln_delivered l then hv_moved H + ln_bytes l else hv_moved H),
        hv_standings := btree_upsert scope standing_default (standing_record (line_mark l, ln_text l)) (hv_standings H)\<rparr>)"

definition heavy_load_steps :: "heavy_load \<Rightarrow> nat" where
  "heavy_load_steps H =
     (let matrix = length (hv_transports H) * length CONTRACTS in
      case hv_per_round H of None \<Rightarrow> matrix | Some pairs \<Rightarrow> min pairs matrix)"

definition heavy_load_pairs :: "heavy_load \<Rightarrow> (nat \<times> contract) list" where
  "heavy_load_pairs H =
     (let matrix = length (hv_transports H) * length CONTRACTS in
      map (\<lambda>step. load_pair_at ((hv_cursor H + step) mod max matrix 1)) [0..<heavy_load_steps H])"

definition heavy_load_tick ::
    "load_display \<Rightarrow> contract_api \<Rightarrow> codec_api \<Rightarrow> (nat \<times> contract \<Rightarrow> nat) \<Rightarrow> int \<Rightarrow> heavy_load \<Rightarrow> heavy_load \<times> snapshot" where
  "heavy_load_tick D C W elapsed now H =
     (let H = H\<lparr>hv_round := hv_round H + 1\<rparr>;
          matrix = length (hv_transports H) * length CONTRACTS;
          steps = heavy_load_steps H;
          H = fold (load_fold D C W elapsed) (heavy_load_pairs H) H;
          H = H\<lparr>hv_cursor := (hv_cursor H + steps) mod max matrix 1\<rparr> in
      (H, map (\<lambda>(scope, s). RecordHealth (standing_health s scope now)) (hv_standings H)
          @ [RecordCount \<lparr>cr_scope = hv_node H, cr_counted = Counted_Bytes, cr_value = hv_moved H, cr_observed = now\<rparr>]))"

section \<open>The walk is the schedule's\<close>

lemma nth_all_pairs:
  "k < length ts * length CONTRACTS \<Longrightarrow> all_pairs ts ! k = load_pair_at k"
proof (induction ts arbitrary: k rule: rev_induct)
  case (snoc t ts)
  have split: "all_pairs (ts @ [t]) = all_pairs ts @ map (Pair (length ts)) CONTRACTS"
    by (simp add: all_pairs_def)
  have len: "length (all_pairs ts) = length ts * length CONTRACTS"
    by (simp add: all_pairs_def length_concat o_def sum_list_triv)
  show ?case
  proof (cases "k < length ts * length CONTRACTS")
    case True
    then show ?thesis using snoc.IH by (simp add: split nth_append len)
  next
    case False
    then obtain r where k: "k = length ts * length CONTRACTS + r" and r: "r < length CONTRACTS"
      using snoc.prems by (auto simp: not_less dest!: le_Suc_ex)
    have "k div length CONTRACTS = length ts" "k mod length CONTRACTS = r"
      using r by (simp_all add: k)
    then show ?thesis using r by (simp add: split nth_append len k load_pair_at_def)
  qed
qed simp

text \<open>The walk of the load over the matrix, each step's transport and contract found by quotient and
  remainder, is the schedule's slice of the list of pairs, from the same cursor: of the bound's length where
  the load is bounded, of the whole matrix where it is not.\<close>

theorem load_walk_is_the_slice:
  "heavy_load_pairs H =
     slice (all_pairs (hv_transports H)) (hv_cursor H)
       (Some (case hv_per_round H of None \<Rightarrow> length (all_pairs (hv_transports H)) | Some n \<Rightarrow> n))"
proof -
  define m where "m = length (hv_transports H) * length CONTRACTS"
  define n where "n = (case hv_per_round H of None \<Rightarrow> m | Some n \<Rightarrow> n)"
  have steps: "heavy_load_steps H = min n m"
    by (cases "hv_per_round H") (simp_all only: heavy_load_steps_def Let_def n_def m_def option.case min.idem)
  have len: "length (all_pairs (hv_transports H)) = m"
    by (simp add: length_all_pairs m_def)
  have nth: "all_pairs (hv_transports H) ! k = load_pair_at k" if "k < m" for k
    using that nth_all_pairs [of k "hv_transports H"] by (simp only: m_def)
  have "heavy_load_pairs H = slice (all_pairs (hv_transports H)) (hv_cursor H) (Some n)"
  proof (cases "m = 0")
    case True
    then have "all_pairs (hv_transports H) = []" using len by (simp only: length_0_conv)
    then show ?thesis using True steps by (simp add: heavy_load_pairs_def slice_def)
  next
    case False
    have max: "max m 1 = m" using False by (intro max_absorb1) (simp only: One_nat_def Suc_leI neq0_conv)
    have "heavy_load_pairs H = map (\<lambda>step. load_pair_at ((hv_cursor H + step) mod m)) [0..<min n m]"
      unfolding heavy_load_pairs_def Let_def steps m_def [symmetric] max ..
    also have "\<dots> = map (\<lambda>step. all_pairs (hv_transports H) ! ((hv_cursor H + step) mod m)) [0..<min n m]"
      using False by (intro map_cong refl nth [symmetric]) (simp only: mod_less_divisor neq0_conv)
    finally show ?thesis
      using False len by (auto simp: slice_def)
  qed
  then show ?thesis by (simp only: n_def len)
qed

section \<open>What a load is judged\<close>

text \<open>A load is delivered exactly where the transport can hold its size, what came back is what was
  sent, no drop was injected and, up to the ceiling of validation, the contract holds over it; above
  that integrity is the whole claim. Nothing else counts a byte, \<open>file\<close> and \<open>udp\<close> never suffer a
  drop, and without a level nothing does.\<close>

theorem load_judged:
  "(ln_delivered (load_carry D C W elapsed H T c) \<longleftrightarrow>
      (\<forall>limit. ad_ceiling T = Some limit \<longrightarrow> size_this_round H \<le> limit)
      \<and> ad_exchange T (load_payload W H c) = Returned (load_payload W H c)
      \<and> \<not> load_dropped H (ad_transport T) c
      \<and> (size_this_round H \<le> VALIDATE_CEILING \<longrightarrow> held C c (load_payload W H c) = Delivered))
   \<and> ln_bytes (load_carry D C W elapsed H T c) =
       (if ln_delivered (load_carry D C W elapsed H T c) then size_this_round H else 0)
   \<and> (line_mark (load_carry D C W elapsed H T c) = Warn \<longleftrightarrow>
        (\<forall>limit. ad_ceiling T = Some limit \<longrightarrow> size_this_round H \<le> limit)
        \<and> (\<exists>why. ad_exchange T (load_payload W H c) = ExOneSided why))
   \<and> (ad_transport T \<in> {''file'', ''udp''} \<or> hv_stress H = None \<longrightarrow> \<not> load_dropped H (ad_transport T) c)"
  by (auto simp: load_carry_def load_judge_def line_failed_def line_delivered_def line_one_sided_def line_mark_def
      load_structural_def held_def as_stream_def load_dropped_def Let_def not_le
      split: option.splits exchange.splits sum.splits if_splits)

definition example_display :: load_display where
  "example_display = \<lparr>ld_human = (\<lambda>n. decimal n @ '' B''), ld_transfer = (\<lambda>n t. decimal n @ '' in '' @ decimal t)\<rparr>"

definition example_load :: heavy_load where
  "example_load = heavy_load_with_bytes 2 (heavy_load_new ''north'' [echo])"

theorem load_judged_witness:
  "ln_delivered (load_carry example_display accepting_contracts plain_codecs 7 example_load echo Bytes)
   \<and> ln_bytes (load_carry example_display accepting_contracts plain_codecs 7 example_load echo Bytes) = 2
   \<and> \<not> load_dropped example_load ''echo'' Bytes"
proof -
  have quiet: "hv_stress example_load = None" "size_this_round example_load = 2"
    by (simp_all add: example_load_def heavy_load_with_bytes_def heavy_load_new_def size_this_round_def)
  have held: "held accepting_contracts Bytes bs = Delivered" for bs
    by (simp add: held_def contract_validate_def identify_def content_validate_def accepting_contracts_def check_def)
  note judged = load_judged [of example_display accepting_contracts plain_codecs 7 example_load echo Bytes]
  have "\<not> load_dropped example_load ''echo'' Bytes" using judged quiet by (simp add: echo_def)
  then show ?thesis using judged quiet held by (simp add: echo_def)
qed

text \<open>
  The sizes are the round's nominal ones: a payload of a contract is padded to at least that, so what
  is held against a transport's ceiling, and counted as moved, can be less than what was sent.
\<close>

lemma moved_is_nominal:
  assumes "ln_delivered (load_carry D C W elapsed H T c)"
  shows "ln_bytes (load_carry D C W elapsed H T c) = size_this_round H"
  using assms
  by (auto simp: load_carry_def load_judge_def line_failed_def line_delivered_def line_one_sided_def Let_def
      split: option.splits exchange.splits sum.splits if_splits)

end
