(* ===== verification/Storm.thy ===== *)
theory Storm
  imports Round_Trip Ledger Workers
begin

text \<open>
  The storm (\<open>src/storm.rs\<close>): every pair at once at a stress level, judged on whether the Essentials
  kept its own invariants. Where a pair panics, and the message it panics with, is the parameter
  \<open>panics\<close>; how long a tick took, the transports' timeout and the display of a duration are given;
  durations are nanoseconds.
\<close>

section \<open>The storm\<close>

record storm_line =
  sl_scope :: string
  sl_outcome :: outcome
  sl_bytes :: nat
  sl_panicked :: bool

record storm =
  so_node :: string
  so_transports :: "adapter list"
  so_stress :: stress
  so_faults :: fault_plan
  so_round :: nat
  so_standings :: "(string, standing) btree"
  so_delivered :: nat
  so_moved :: nat
  so_panics :: nat
  so_last_tick :: nat
  so_broken :: "string list"

definition storm_new :: "string \<Rightarrow> adapter list \<Rightarrow> storm" where
  "storm_new node transports =
     \<lparr>so_node = node, so_transports = transports, so_stress = Realistic,
      so_faults = plan_at realistic Realistic, so_round = 0, so_standings = [], so_delivered = 0,
      so_moved = 0, so_panics = 0, so_last_tick = 0, so_broken = []\<rparr>"

definition storm_at :: "stress \<Rightarrow> storm \<Rightarrow> storm" where
  "storm_at level S =
     S\<lparr>so_stress := level, so_faults := (if level = Calm then plan_none else plan_at realistic level)\<rparr>"

definition storm_over :: "adapter list \<Rightarrow> storm \<Rightarrow> storm" where
  "storm_over transports S = S\<lparr>so_transports := transports\<rparr>"

text \<open>What the storm runs on: the other crates, the cores of the machine, the transports' timeout, how a
  duration is shown, and which exchanges panic, with what message where it was text.\<close>

record storm_given =
  sg_node :: node_api
  sg_observe :: observe_api
  sg_contracts :: contract_api
  sg_codecs :: codec_api
  sg_cores :: nat
  sg_timeout :: nat
  sg_shows :: "nat \<Rightarrow> string"
  sg_panics :: "string \<Rightarrow> contract \<Rightarrow> bytes \<Rightarrow> string option option"

definition U32_MAX :: nat where
  "U32_MAX = 4294967295"

definition storm_workers :: "storm_given \<Rightarrow> storm \<Rightarrow> nat" where
  "storm_workers G S = stress_workers (sg_cores G) (so_stress S)"

definition storm_budget :: "storm_given \<Rightarrow> storm \<Rightarrow> nat" where
  "storm_budget G S =
     (let pairs = min (length (so_transports S) * length CONTRACTS) U32_MAX;
          workers = min (max (storm_workers G S) 1) U32_MAX in
      sg_timeout G * 3 * pairs div workers)"

definition panic_message :: "string option \<Rightarrow> string" where
  "panic_message panic = (case panic of Some message \<Rightarrow> message | None \<Rightarrow> ''no message'')"

section \<open>A pair\<close>

definition first_fault :: "storm_given \<Rightarrow> storm \<Rightarrow> string \<Rightarrow> contract \<Rightarrow> fault option" where
  "first_fault G S name c =
     (case List.map_filter (\<lambda>st. fault_for (sg_node G) (so_faults S) st name c (so_round S)) (stage_all (sg_node G)) of
        fault # _ \<Rightarrow> Some fault
      | [] \<Rightarrow> None)"

definition storm_judge :: "storm_given \<Rightarrow> storm \<Rightarrow> nat \<Rightarrow> adapter \<Rightarrow> contract \<Rightarrow> storm_line" where
  "storm_judge G S n T c =
     (let name = ad_transport T;
          scope = so_node S @ ''/'' @ name @ ''/'' @ contract_name c;
          payload = stress_payload (sg_codecs G) c n;
          (r, k, panicked) = (case sg_panics G name c payload of
              Some panic \<Rightarrow> (Failed (''panicked: '' @ panic_message panic), 0, True)
            | None \<Rightarrow> (case round_trip_with (sg_contracts G) T c payload of (r, k) \<Rightarrow> (r, k, False))) in
      case first_fault G S name c of
        Some fault \<Rightarrow>
          if \<not> panicked
          then \<lparr>sl_scope = scope, sl_outcome = Failed (evidence fault), sl_bytes = 0, sl_panicked = panicked\<rparr>
          else \<lparr>sl_scope = scope, sl_outcome = r, sl_bytes = k, sl_panicked = panicked\<rparr>
      | None \<Rightarrow> \<lparr>sl_scope = scope, sl_outcome = r, sl_bytes = k, sl_panicked = panicked\<rparr>)"

section \<open>The invariants\<close>

definition violations :: "observe_api \<Rightarrow> (health \<Rightarrow> string) \<Rightarrow> snapshot \<Rightarrow> string \<Rightarrow> string list" where
  "violations O' shown snap node =
     (let records = health_under O' snap node;
          found = map (\<lambda>r. hr_scope r @ '' is '' @ shown (hr_health r) @ '' with no reason'')
            (filter (\<lambda>r. hr_health r \<noteq> Fine \<and> trim (hr_evidence r) = []) records);
          trouble = list_ex (\<lambda>r. hr_health r \<noteq> Fine) records in
      found @ (case worst_under O' snap node of
          Some h \<Rightarrow>
            if h = Fine \<and> trouble then [node @ '' rolls up Fine over a leaf that is not'']
            else if h \<noteq> Fine \<and> \<not> trouble then [node @ '' rolls up '' @ shown h @ '' over nothing but Fine'']
            else []
        | None \<Rightarrow>
            if records \<noteq> [] then [node @ '' rolls up to nothing over '' @ decimal (length records) @ '' records'']
            else []))"

text \<open>How \<open>health\<close> prints under \<open>{:?}\<close>: its constructors' names.\<close>

fun health_shown :: "health \<Rightarrow> string" where
  "health_shown Fine = ''Fine''"
| "health_shown Paused = ''Paused''"
| "health_shown Working = ''Working''"
| "health_shown Stressed = ''Stressed''"
| "health_shown Exhausted = ''Exhausted''"
| "health_shown Holding = ''Holding''"
| "health_shown Done = ''Done''"

section \<open>A tick\<close>

definition line_says :: "storm_line \<Rightarrow> mark \<times> string" where
  "line_says l =
     (case sl_outcome l of
        Delivered \<Rightarrow> (Pass, decimal (sl_bytes l) @ '' bytes out and back'')
      | OneSided why \<Rightarrow> (Warn, why)
      | Failed why \<Rightarrow> (Fail, why))"

definition storm_fold :: "int \<Rightarrow> storm_line \<Rightarrow> (storm \<times> string list) \<times> snapshot \<Rightarrow> (storm \<times> string list) \<times> snapshot" where
  "storm_fold now l = (\<lambda>((S, broken), snap).
     let (m, said) = line_says l;
         S = (if sl_outcome l = Delivered
              then S\<lparr>so_delivered := so_delivered S + 1, so_moved := so_moved S + sl_bytes l\<rparr> else S);
         broken = (if m \<noteq> Pass \<and> trim said = []
              then broken @ [sl_scope l @ '' was not delivered and gave no reason''] else broken);
         st = standing_record (m, said)
           (case btree_get (so_standings S) (sl_scope l) of None \<Rightarrow> standing_default | Some st \<Rightarrow> st) in
     ((S\<lparr>so_standings := btree_insert (sl_scope l) st (so_standings S)\<rparr>, broken),
      snap @ [RecordHealth (standing_health st (sl_scope l) now)]))"

definition storm_tick_record :: "storm_given \<Rightarrow> storm \<Rightarrow> string list \<Rightarrow> int \<Rightarrow> health_record" where
  "storm_tick_record G S broken now =
     (let timing = decimal (length (so_transports S) * length CONTRACTS) @ '' pairs from '' @ decimal (storm_workers G S)
            @ '' workers in '' @ sg_shows G (so_last_tick S) @ '' (budget '' @ sg_shows G (storm_budget G S) @ '') at ''
            @ stress_name (so_stress S);
          (h, severity, said) = (if broken = [] then (Fine, 0, timing)
            else (Done, 90, timing @ '': '' @ join ''; '' broken)) in
      \<lparr>hr_scope = so_node S @ ''/tick'', hr_health = h, hr_severity = severity, hr_evidence = said, hr_observed = now\<rparr>)"

definition storm_counts :: "storm \<Rightarrow> int \<Rightarrow> recording list" where
  "storm_counts S now =
     map (\<lambda>(counted, v). RecordCount \<lparr>cr_scope = so_node S, cr_counted = counted, cr_value = v, cr_observed = now\<rparr>)
       [(Counted_Streams, so_delivered S), (Counted_Bytes, so_moved S)]"

text \<open>The lines of a tick: the pairs judged on the level's workers, in their order (\<open>Workers\<close>).\<close>

definition storm_lines :: "storm_given \<Rightarrow> storm \<Rightarrow> storm_line list" where
  "storm_lines G S = drive_pairs (so_transports S) (storm_judge G S (size_for (so_stress S) (so_round S)))"

definition storm_tick :: "storm_given \<Rightarrow> nat \<Rightarrow> int \<Rightarrow> storm \<Rightarrow> storm \<times> snapshot" where
  "storm_tick G elapsed now S =
     (let S = S\<lparr>so_round := so_round S + 1\<rparr>;
          lines = storm_lines G S;
          S = S\<lparr>so_last_tick := elapsed\<rparr>;
          panicked = length (filter sl_panicked lines);
          ((S, broken), snap) = fold (storm_fold now) lines ((S, []), []);
          S = S\<lparr>so_panics := so_panics S + panicked\<rparr>;
          broken = broken @ violations (sg_observe G) health_shown snap (so_node S);
          broken = (if so_last_tick S > storm_budget G S
            then broken @ [''the tick took '' @ sg_shows G (so_last_tick S) @ '', over its budget of ''
              @ sg_shows G (storm_budget G S)] else broken);
          broken = (if panicked > 0 then broken @ [decimal panicked @ '' pair(s) panicked this round''] else broken);
          snap = snap @ [RecordHealth (storm_tick_record G S broken now)] @ storm_counts S now in
      (S\<lparr>so_broken := broken\<rparr>, snap))"

section \<open>What holds of a tick\<close>

text \<open>
  How \<open>observe\<close> documents a rollup: what is read under a scope was recorded, a scope with nothing
  under it rolls up to nothing, and one with something is \<open>Fine\<close> exactly when all of it is.
\<close>

definition rolls_up :: "observe_api \<Rightarrow> bool" where
  "rolls_up O' \<longleftrightarrow> (\<forall>snap scope.
     set (health_under O' snap scope) \<subseteq> set (recorded snap) \<and>
     (worst_under O' snap scope = None \<longleftrightarrow> health_under O' snap scope = []) \<and>
     (worst_under O' snap scope = Some Fine \<longleftrightarrow>
        health_under O' snap scope \<noteq> [] \<and> list_all (\<lambda>r. hr_health r = Fine) (health_under O' snap scope)))"

definition reasoned :: "health_record \<Rightarrow> bool" where
  "reasoned r \<longleftrightarrow> hr_health r = Fine \<or> trim (hr_evidence r) \<noteq> []"

lemma violations_Nil:
  assumes "rolls_up O'" and "list_all reasoned (recorded snap)"
  shows "violations O' shown snap node = []"
proof -
  let ?r = "health_under O' snap node"
  have "set ?r \<subseteq> set (recorded snap)" using assms(1) unfolding rolls_up_def by blast
  with assms(2) have under: "list_all reasoned ?r" by (auto simp: list_all_iff)
  then have found: "filter (\<lambda>r. hr_health r \<noteq> Fine \<and> trim (hr_evidence r) = []) ?r = []"
    by (auto simp: filter_empty_conv list_all_iff reasoned_def)
  have trouble: "list_ex (\<lambda>r. hr_health r \<noteq> Fine) ?r \<longleftrightarrow> \<not> list_all (\<lambda>r. hr_health r = Fine) ?r"
    by (auto simp: list_ex_iff list_all_iff)
  from assms(1) have w: "worst_under O' snap node = None \<longleftrightarrow> ?r = []"
      "worst_under O' snap node = Some Fine \<longleftrightarrow> ?r \<noteq> [] \<and> list_all (\<lambda>r. hr_health r = Fine) ?r"
    by (auto simp: rolls_up_def)
  show ?thesis
    unfolding violations_def Let_def found trouble using w
    by (cases "worst_under O' snap node") auto
qed

definition speaks :: "storm_line \<Rightarrow> bool" where
  "speaks l \<longleftrightarrow> fst (line_says l) = Pass \<or> trim (snd (line_says l)) \<noteq> []"

lemma storm_fold_snd:
  "snd (fst (storm_fold now l X)) =
     snd (fst X) @ (if speaks l then [] else [sl_scope l @ '' was not delivered and gave no reason''])"
  by (cases X; cases "fst X") (auto simp: storm_fold_def speaks_def Let_def split: prod.splits)

lemma storm_folds_broken:
  "snd (fst (fold (storm_fold now) ls X)) = [] \<longleftrightarrow> snd (fst X) = [] \<and> list_all speaks ls"
  by (induction ls arbitrary: X) (auto simp: storm_fold_snd)

lemma storm_fold_keeps:
  "so_node (fst (fst (storm_fold now l X))) = so_node (fst (fst X))"
  "so_transports (fst (fst (storm_fold now l X))) = so_transports (fst (fst X))"
  "so_stress (fst (fst (storm_fold now l X))) = so_stress (fst (fst X))"
  "so_last_tick (fst (fst (storm_fold now l X))) = so_last_tick (fst (fst X))"
  "so_panics (fst (fst (storm_fold now l X))) = so_panics (fst (fst X))"
  by (cases X; cases "fst X"; simp add: storm_fold_def Let_def split: prod.splits)+

lemma storm_folds_keep:
  "so_node (fst (fst (fold (storm_fold now) ls X))) = so_node (fst (fst X))"
  "so_transports (fst (fst (fold (storm_fold now) ls X))) = so_transports (fst (fst X))"
  "so_stress (fst (fst (fold (storm_fold now) ls X))) = so_stress (fst (fst X))"
  "so_last_tick (fst (fst (fold (storm_fold now) ls X))) = so_last_tick (fst (fst X))"
  "so_panics (fst (fst (fold (storm_fold now) ls X))) = so_panics (fst (fst X))"
  by (induction ls arbitrary: X; simp add: storm_fold_keeps)+

lemma line_says_something:
  assumes "speaks l"
  shows "trim (snd (line_says l)) \<noteq> []"
proof (cases "sl_outcome l = Delivered")
  case True
  then show ?thesis by (simp add: line_says_def trim_decimal)
next
  case False
  then have "fst (line_says l) \<noteq> Pass" by (cases "sl_outcome l") (simp_all add: line_says_def)
  with assms show ?thesis by (simp add: speaks_def)
qed

lemma storm_fold_reasoned:
  assumes "speaks l" and "list_all reasoned (recorded (snd X))"
  shows "list_all reasoned (recorded (snd (storm_fold now l X)))"
proof -
  have line: "sd_line (standing_record r st) = snd r" for r st
    by (cases r) (simp add: standing_record_def)
  have "hr_evidence (standing_health st scope now) = sd_line st" for st scope
    by (simp add: standing_health_def Let_def split: prod.splits)
  then have "reasoned (standing_health (standing_record (line_says l) st) scope now)" for st scope
    using line_says_something [OF assms(1)] by (simp add: reasoned_def line)
  with assms(2) show ?thesis
    by (cases X; cases "fst X") (auto simp: storm_fold_def Let_def split: prod.splits)
qed

lemma storm_folds_reasoned:
  assumes "list_all speaks ls" and "list_all reasoned (recorded (snd X))"
  shows "list_all reasoned (recorded (snd (fold (storm_fold now) ls X)))"
  using assms by (induction ls arbitrary: X) (simp_all add: storm_fold_reasoned)

text \<open>What a tick promises: in its budget, and of each pair that it did not panic and, where it was not
  delivered, said why.\<close>

definition storm_kept :: "storm_given \<Rightarrow> nat \<Rightarrow> storm \<Rightarrow> bool" where
  "storm_kept G elapsed S \<longleftrightarrow>
     elapsed \<le> storm_budget G S
     \<and> list_all (\<lambda>l. \<not> sl_panicked l \<and> (sl_outcome l = Delivered \<or> trim (snd (line_says l)) \<noteq> []))
         (storm_lines G (S\<lparr>so_round := so_round S + 1\<rparr>))"

lemma storm_kept_speaks:
  "storm_kept G elapsed S \<longleftrightarrow>
     elapsed \<le> storm_budget G S
     \<and> filter sl_panicked (storm_lines G (S\<lparr>so_round := so_round S + 1\<rparr>)) = []
     \<and> list_all speaks (storm_lines G (S\<lparr>so_round := so_round S + 1\<rparr>))"
proof -
  have "sl_outcome l = Delivered \<or> trim (snd (line_says l)) \<noteq> [] \<longleftrightarrow> speaks l" for l
    by (cases "sl_outcome l") (simp_all add: speaks_def line_says_def)
  then show ?thesis by (auto simp: storm_kept_def list_all_iff filter_empty_conv)
qed

lemma storm_budget_cong:
  "so_transports S = so_transports T \<Longrightarrow> so_stress S = so_stress T \<Longrightarrow> storm_budget G S = storm_budget G T"
  by (simp add: storm_budget_def storm_workers_def)

text \<open>C36: under a rollup that is \<open>observe\<close>'s, the tick's own verdict is green exactly when the tick kept its
  budget, no pair panicked and every pair that was not delivered gave a reason: what the tick
  publishes under \<open>tick\<close> is \<open>Fine\<close> then and \<open>Done\<close> otherwise, and what it keeps as broken is empty
  exactly then; and the panics it has counted rise by the pairs that panicked.\<close>

theorem storm_green_exactly_when_kept:
  assumes "rolls_up (sg_observe G)"
  shows "(so_broken (fst (storm_tick G elapsed now S)) = [] \<longleftrightarrow> storm_kept G elapsed S)
    \<and> (\<exists>said severity. RecordHealth \<lparr>hr_scope = so_node S @ ''/tick'',
          hr_health = (if storm_kept G elapsed S then Fine else Done), hr_severity = severity,
          hr_evidence = said, hr_observed = now\<rparr> \<in> set (snd (storm_tick G elapsed now S)))
    \<and> so_panics (fst (storm_tick G elapsed now S)) =
        so_panics S + length (filter sl_panicked (storm_lines G (S\<lparr>so_round := so_round S + 1\<rparr>)))"
proof -
  let ?S1 = "S\<lparr>so_round := so_round S + 1\<rparr>"
  let ?ls = "storm_lines G ?S1"
  let ?X = "((?S1\<lparr>so_last_tick := elapsed\<rparr>, []), []) :: (storm \<times> string list) \<times> snapshot"
  obtain S2 broken snap where F: "fold (storm_fold now) ?ls ?X = ((S2, broken), snap)"
    by (metis prod.collapse)
  have keep: "so_node S2 = so_node S" "so_transports S2 = so_transports S" "so_stress S2 = so_stress S"
      "so_last_tick S2 = elapsed" "so_panics S2 = so_panics S"
    using storm_folds_keep [where now = now and ls = ?ls and X = ?X, unfolded F fst_conv] by simp_all
  define panicked where "panicked = length (filter sl_panicked ?ls)"
  define S3 where "S3 = S2\<lparr>so_panics := so_panics S2 + panicked\<rparr>"
  have budget: "storm_budget G S3 = storm_budget G S"
    by (rule storm_budget_cong) (simp_all add: S3_def keep)
  define b1 where "b1 = broken @ violations (sg_observe G) health_shown snap (so_node S3)"
  define b2 where "b2 = (if so_last_tick S3 > storm_budget G S3
            then b1 @ [''the tick took '' @ sg_shows G (so_last_tick S3) @ '', over its budget of ''
              @ sg_shows G (storm_budget G S3)] else b1)"
  define b3 where "b3 = (if panicked > 0 then b2 @ [decimal panicked @ '' pair(s) panicked this round''] else b2)"
  have tick: "storm_tick G elapsed now S = (S3\<lparr>so_broken := b3\<rparr>,
      snap @ [RecordHealth (storm_tick_record G S3 b3 now)] @ storm_counts S3 now)"
    unfolding storm_tick_def Let_def F prod.case b3_def b2_def b1_def S3_def panicked_def by (rule refl)
  have "broken = [] \<longleftrightarrow> list_all speaks ?ls"
    using storm_folds_broken [where now = now and ls = ?ls and X = ?X, unfolded F fst_conv snd_conv] by simp
  moreover have "list_all reasoned (recorded snap)" if "list_all speaks ?ls"
    using storm_folds_reasoned [OF that, where now = now and X = ?X, unfolded F snd_conv] by simp
  ultimately have b1: "b1 = [] \<longleftrightarrow> list_all speaks ?ls"
    using violations_Nil [OF assms] by (auto simp: b1_def)
  have b3: "b3 = [] \<longleftrightarrow> storm_kept G elapsed S"
    unfolding storm_kept_speaks b3_def b2_def budget panicked_def
    using b1 by (auto simp: S3_def keep)
  have "storm_tick_record G S3 b3 now =
      \<lparr>hr_scope = so_node S @ ''/tick'', hr_health = (if storm_kept G elapsed S then Fine else Done),
       hr_severity = hr_severity (storm_tick_record G S3 b3 now),
       hr_evidence = hr_evidence (storm_tick_record G S3 b3 now), hr_observed = now\<rparr>"
    using b3 by (simp add: storm_tick_record_def Let_def S3_def keep)
  then have "\<exists>said severity. RecordHealth \<lparr>hr_scope = so_node S @ ''/tick'',
          hr_health = (if storm_kept G elapsed S then Fine else Done), hr_severity = severity,
          hr_evidence = said, hr_observed = now\<rparr> \<in> set (snd (storm_tick G elapsed now S))"
    unfolding tick by (metis UnCI list.set_intros(1) set_append snd_conv append_Cons)
  with b3 show ?thesis by (simp add: tick S3_def keep panicked_def)
qed

definition rolling_observe :: observe_api where
  "rolling_observe = plain_observe\<lparr>worst_under := (\<lambda>snap scope.
     let rs = health_under plain_observe snap scope in
     if rs = [] then None else if list_all (\<lambda>r. hr_health r = Fine) rs then Some Fine else Some Done)\<rparr>"

lemma rolls_up_rolling: "rolls_up rolling_observe"
  by (auto simp: rolls_up_def rolling_observe_def plain_observe_def Let_def)

definition example_given :: storm_given where
  "example_given =
     \<lparr>sg_node = documented_node, sg_observe = rolling_observe, sg_contracts = accepting_contracts,
      sg_codecs = plain_codecs, sg_cores = 2, sg_timeout = 500, sg_shows = decimal,
      sg_panics = (\<lambda>transport c payload. None)\<rparr>"

definition example_storm :: storm where
  "example_storm = storm_at Calm (storm_new ''north'' [echo])"

lemma echoed_line:
  assumes "so_faults S = plan_none"
  shows "\<not> sl_panicked (storm_judge example_given S n echo c)
    \<and> (sl_outcome (storm_judge example_given S n echo c) = Delivered
       \<or> trim (snd (line_says (storm_judge example_given S n echo c))) \<noteq> [])"
proof -
  let ?p = "stress_payload plain_codecs c n"
  have none: "first_fault example_given S name c = None" for name
    by (simp add: first_fault_def assms plan_none_def fault_for_find map_filter_def)
  have given: "sg_contracts example_given = accepting_contracts" "sg_codecs example_given = plain_codecs"
    "sg_panics example_given transport c payload = None" for transport c payload
    by (simp_all add: example_given_def)
  have trip: "sl_outcome (storm_judge example_given S n echo c) = held accepting_contracts c ?p"
    "\<not> sl_panicked (storm_judge example_given S n echo c)"
    by (simp_all add: storm_judge_def none Let_def given round_trip_with_def carried_def echo_def)
  have "CHR ''c'' \<notin> hd ` set white_space" by (simp add: white_space_def)
  from trim_starts [OF this] have "trim (''contract not held: '' @ e) \<noteq> []" for e by simp
  then show ?thesis
    using held_cases [of accepting_contracts c ?p] trip by (auto simp: line_says_def)
qed

theorem storm_green_exactly_when_kept_witness:
  "so_broken (fst (storm_tick example_given 7 0 example_storm)) = []
   \<and> so_broken (fst (storm_tick example_given 1000000 0 example_storm)) \<noteq> []"
proof -
  have budget: "storm_budget example_given example_storm = 30000"
    by (simp add: storm_budget_def storm_workers_def example_storm_def storm_at_def storm_new_def
        example_given_def U32_MAX_def)
  have "so_transports example_storm = [echo]" "so_faults example_storm = plan_none"
    by (simp_all add: example_storm_def storm_at_def storm_new_def)
  then have "storm_kept example_given 7 example_storm"
    using echoed_line
    by (auto simp: storm_kept_def budget list_all_iff storm_lines_def drive_pairs_def drive_selected_def
        all_pairs_def)
  moreover have "\<not> storm_kept example_given 1000000 example_storm" by (simp add: storm_kept_def budget)
  moreover have "rolls_up (sg_observe example_given)" by (simp add: example_given_def rolls_up_rolling)
  ultimately show ?thesis using storm_green_exactly_when_kept by blast
qed

end
