(* ===== verification/Topology.thy ===== *)
theory Topology
  imports Handoff Roster Parties
begin

text \<open>
  The communication topology a roll publishes (\<open>src/topology.rs\<close>, \<open>src/topology/handoff.rs\<close>,
  \<open>src/topology/shared.rs\<close>): the handoff links between the stages of the nodes, configured by the
  roster, observed by the hops or both, and the shared store with the links of the nodes that ran a
  test over it. The drawing of nodes and Parties is \<open>observe::topology::draw\<close>'s, the parameter \<open>D\<close>;
  a floating point figure is of the type \<open>'f\<close> that \<open>D\<close> computes it in.
\<close>

section \<open>What is drawn\<close>

datatype node_kind = KindCluster | KindNode | KindStage | KindEndpoint | KindLocation | KindParty

datatype origin = FromConfigured | FromObserved | FromBoth

datatype pattern = SendReceive | PublishConsume

record 'f topology_node =
  tn_id :: string
  tn_parent :: string
  tn_label :: string
  tn_kind :: node_kind
  tn_scope :: string
  tn_state :: health
  tn_origin :: origin
  tn_load :: 'f
  tn_activity :: 'f
  tn_evidence :: string

record 'f topology_link =
  tl_id :: string
  tl_from :: string
  tl_to :: string
  tl_pattern :: pattern
  tl_origin :: origin
  tl_protocol :: string
  tl_state :: health
  tl_volume :: nat
  tl_rate :: 'f
  tl_latency :: 'f
  tl_progress :: 'f
  tl_attempts :: nat
  tl_evidence :: string

record 'f topology =
  tp_source :: string
  tp_observed :: int
  tp_nodes :: "'f topology_node list"
  tp_links :: "'f topology_link list"

record 'f draw_api =
  dw_worst :: "snapshot \<Rightarrow> string \<Rightarrow> health_record option"
  dw_mood :: "health_record option \<Rightarrow> health \<times> string"
  dw_drawn :: "health_record option \<Rightarrow> string \<Rightarrow> health \<times> string"
  dw_node_id :: "string \<Rightarrow> string"
  dw_cluster :: string
  dw_label :: "string \<Rightarrow> string"
  dw_members :: "snapshot \<Rightarrow> string \<Rightarrow> string list \<Rightarrow> 'f topology_node list"
  dw_party :: "snapshot \<Rightarrow> string \<Rightarrow> string list \<Rightarrow> (string \<times> string list \<times> string list) list
                 \<Rightarrow> 'f topology \<Rightarrow> 'f topology"
  dw_rank :: "health \<Rightarrow> nat"
  dw_measure :: "snapshot \<Rightarrow> string \<Rightarrow> counted \<Rightarrow> nat option"
  dw_zero :: 'f
  dw_fraction :: "nat \<Rightarrow> nat \<Rightarrow> 'f"
  dw_stage_named :: "string \<Rightarrow> stage option"

text \<open>\<open>Iterator::max_by_key\<close> over the health and the severity: the last of the greatest.\<close>

definition no_worse :: "'f draw_api \<Rightarrow> health_record \<Rightarrow> health_record \<Rightarrow> bool" where
  "no_worse D a b \<longleftrightarrow>
     dw_rank D (hr_health a) < dw_rank D (hr_health b)
     \<or> dw_rank D (hr_health a) = dw_rank D (hr_health b) \<and> hr_severity a \<le> hr_severity b"

definition worst_of :: "'f draw_api \<Rightarrow> health_record list \<Rightarrow> health_record option" where
  "worst_of D rs =
     fold (\<lambda>r best. case best of None \<Rightarrow> Some r | Some b \<Rightarrow> if no_worse D b r then Some r else Some b) rs None"

section \<open>The handoff links\<close>

type_synonym stage_pair = "string \<times> stage \<times> string \<times> stage"

definition configured_pairs :: "'cap capability_api \<Rightarrow> 'cap roster \<Rightarrow> stage_pair list" where
  "configured_pairs K R =
     concat (map (\<lambda>(a, b). concat (map (\<lambda>sender. map (\<lambda>receiver. (sender, a, receiver, b)) (roster_with K R b))
         (roster_with K R a)))
       [(Receive, Process), (Process, Send)])"

text \<open>A hop folded into the pairs found so far: the first of its pair takes its count.\<close>

fun pair_counted :: "stage_pair \<Rightarrow> nat \<Rightarrow> (stage_pair \<times> bool \<times> nat) list \<Rightarrow> (stage_pair \<times> bool \<times> nat) list" where
  "pair_counted pair n [] = [(pair, False, n)]"
| "pair_counted pair n ((known, configured, m) # ps) =
     (if known = pair then (known, configured, m + n) # ps else (known, configured, m) # pair_counted pair n ps)"

definition hop_pair :: "'f draw_api \<Rightarrow> hop \<Rightarrow> stage_pair option" where
  "hop_pair D h =
     (case (dw_stage_named D (hop_from_stage h), dw_stage_named D (hop_to_stage h)) of
        (Some from, Some to) \<Rightarrow> Some (hop_from h, from, hop_to h, to)
      | _ \<Rightarrow> None)"

definition handoff_pairs ::
    "'f draw_api \<Rightarrow> 'cap capability_api \<Rightarrow> 'cap roster option \<Rightarrow> hop list \<Rightarrow> (stage_pair \<times> bool \<times> nat) list" where
  "handoff_pairs D K configured hops =
     fold (\<lambda>h ps. case hop_pair D h of None \<Rightarrow> ps | Some pair \<Rightarrow> pair_counted pair (hop_count h) ps) hops
       (map (\<lambda>pair. (pair, True, 0)) (case configured of None \<Rightarrow> [] | Some R \<Rightarrow> configured_pairs K R))"

definition handoff_link ::
    "node_api \<Rightarrow> 'f draw_api \<Rightarrow> string \<Rightarrow> snapshot \<Rightarrow> stage_pair \<times> bool \<times> nat \<Rightarrow> 'f topology_link" where
  "handoff_link N D root snap = (\<lambda>((sender, a, receiver, b), configured, n).
     let ends = [root @ ''/node/'' @ sender @ ''/'' @ stage_name N a, root @ ''/node/'' @ receiver @ ''/'' @ stage_name N b];
         worse = worst_of D (List.map_filter (dw_worst D snap) ends);
         (state, worst_said) = dw_mood D worse;
         (origin, said) =
           (if configured \<and> n = 0
            then (FromConfigured, ''configured '' @ sender @ '' to '' @ receiver @ ''; no handoff observed yet'')
            else if configured
            then (FromBoth, decimal n @ '' handoffs '' @ sender @ '' to '' @ receiver)
            else (FromObserved, decimal n @ '' handoffs '' @ sender @ '' to '' @ receiver
              @ '', which no configuration declares'')) in
     \<lparr>tl_id = ''handoff/'' @ sender @ ''/'' @ stage_name N a @ ''/'' @ receiver @ ''/'' @ stage_name N b,
      tl_from = dw_node_id D sender @ ''/'' @ stage_name N a,
      tl_to = dw_node_id D receiver @ ''/'' @ stage_name N b,
      tl_pattern = SendReceive, tl_origin = origin, tl_protocol = ''handoff'', tl_state = state,
      tl_volume = n, tl_rate = dw_zero D, tl_latency = dw_zero D, tl_progress = dw_zero D, tl_attempts = 0,
      tl_evidence = said @ ''; worst leaf at either end: '' @ worst_said\<rparr>)"

definition handoff_links ::
    "node_api \<Rightarrow> 'f draw_api \<Rightarrow> 'cap capability_api \<Rightarrow> string \<Rightarrow> snapshot \<Rightarrow> 'cap roster option \<Rightarrow> hop list
       \<Rightarrow> 'f topology_link list" where
  "handoff_links N D K root snap configured hops =
     map (handoff_link N D root snap) (handoff_pairs D K configured hops)"

section \<open>The shared store\<close>

definition SHARED :: string where
  "SHARED = ''shared''"

definition shared_reported :: "observe_api \<Rightarrow> snapshot \<Rightarrow> string \<Rightarrow> string \<Rightarrow> bool" where
  "shared_reported O' snap scope test \<longleftrightarrow> health_under O' snap (scope @ ''/'' @ test) \<noteq> []"

definition shared_store :: "'f draw_api \<Rightarrow> string \<Rightarrow> snapshot \<Rightarrow> string list \<Rightarrow> 'f topology_node" where
  "shared_store D root snap names =
     (let over = concat (map (\<lambda>name. List.map_filter (\<lambda>test. dw_worst D snap (root @ ''/node/'' @ name @ ''/'' @ test))
            [''exclusive-claim'', ''daily-backlog'']) names);
          (state, said) = dw_drawn D (worst_of D over) (root @ ''/'' @ SHARED) in
      \<lparr>tn_id = SHARED, tn_parent = dw_cluster D, tn_label = ''shared store'', tn_kind = KindLocation,
       tn_scope = root @ ''/'' @ SHARED, tn_state = state, tn_origin = FromBoth, tn_load = dw_zero D,
       tn_activity = dw_zero D, tn_evidence = said\<rparr>)"

definition shared_link :: "'f draw_api \<Rightarrow> string \<Rightarrow> string \<Rightarrow> health \<times> string \<Rightarrow> 'f topology_link" where
  "shared_link D name what = (\<lambda>(state, said).
     \<lparr>tl_id = name @ ''/'' @ what, tl_from = dw_node_id D name, tl_to = SHARED, tl_pattern = PublishConsume,
      tl_origin = FromBoth, tl_protocol = ''file'', tl_state = state, tl_volume = 0, tl_rate = dw_zero D,
      tl_latency = dw_zero D, tl_progress = dw_zero D, tl_attempts = 0, tl_evidence = said\<rparr>)"

definition exclusive_claim_link :: "'f draw_api \<Rightarrow> snapshot \<Rightarrow> string \<Rightarrow> string \<Rightarrow> 'f topology_link" where
  "exclusive_claim_link D snap name scope =
     shared_link D name ''exclusive-claim'' (dw_mood D (dw_worst D snap (scope @ ''/exclusive-claim'')))"

definition daily_backlog_link :: "'f draw_api \<Rightarrow> snapshot \<Rightarrow> string \<Rightarrow> string \<Rightarrow> 'f topology_link" where
  "daily_backlog_link D snap name scope =
     (let daily = scope @ ''/daily-backlog'';
          count = (\<lambda>counted. case dw_measure D snap daily counted of None \<Rightarrow> 0 | Some n \<Rightarrow> n);
          drained = count Counted_Streams;
          backlog = count Counted_Messages in
      (shared_link D name ''daily-backlog'' (dw_mood D (dw_worst D snap daily)))
        \<lparr>tl_volume := drained, tl_progress := dw_fraction D drained (drained + backlog)\<rparr>)"

definition shared_links :: "observe_api \<Rightarrow> 'f draw_api \<Rightarrow> string \<Rightarrow> snapshot \<Rightarrow> string list \<Rightarrow> 'f topology_link list" where
  "shared_links O' D root snap names =
     concat (map (\<lambda>name. let scope = root @ ''/node/'' @ name in
       (if shared_reported O' snap scope ''exclusive-claim'' then [exclusive_claim_link D snap name scope] else [])
       @ (if shared_reported O' snap scope ''daily-backlog'' then [daily_backlog_link D snap name scope] else []))
     names)"

definition shared_draw :: "observe_api \<Rightarrow> 'f draw_api \<Rightarrow> string \<Rightarrow> snapshot \<Rightarrow> string list \<Rightarrow> 'f topology \<Rightarrow> 'f topology" where
  "shared_draw O' D root snap names T =
     (let links = shared_links O' D root snap names in
      if links = [] then T
      else T\<lparr>tp_nodes := tp_nodes T @ [shared_store D root snap names], tp_links := tp_links T @ links\<rparr>)"

section \<open>The cluster's topology\<close>

definition topology_sides :: "spread \<Rightarrow> (string \<times> string list \<times> string list) list" where
  "topology_sides S =
     map (\<lambda>(place, one). (pc_name one, spread_sends S place, spread_receives S place))
       (List.enumerate 0 (sp_parties S))"

definition cluster_topology ::
    "node_api \<Rightarrow> observe_api \<Rightarrow> 'f draw_api \<Rightarrow> 'cap capability_api \<Rightarrow> string \<Rightarrow> snapshot \<Rightarrow> 'cap roster \<Rightarrow> bool
       \<Rightarrow> hop list \<Rightarrow> spread \<Rightarrow> int \<Rightarrow> 'f topology" where
  "cluster_topology N O' D K root snap R relayed hops S now =
     (let names = roster_names R;
          T = \<lparr>tp_source = ''essentials '' @ em_dash @ '' cluster '' @ dw_label D root, tp_observed = now,
               tp_nodes = dw_members D snap root names, tp_links = []\<rparr>;
          T = T\<lparr>tp_links := tp_links T @ handoff_links N D K root snap (if relayed then Some R else None) hops\<rparr>;
          T = dw_party D snap root names (topology_sides S) T in
      shared_draw O' D root snap names T)"

section \<open>What is counted over a pair\<close>

lemma pair_counted_keys:
  "map fst (pair_counted p n ps) = (if p \<in> fst ` set ps then map fst ps else map fst ps @ [p])"
  by (induction p n ps rule: pair_counted.induct) auto

lemma pair_counted_get:
  "map_of (pair_counted p n ps) q =
     (if q = p then Some (case map_of ps p of None \<Rightarrow> (False, n) | Some (c, m) \<Rightarrow> (c, m + n)) else map_of ps q)"
  by (induction p n ps rule: pair_counted.induct) auto

lemma pair_counted_total:
  "(\<Sum>x\<leftarrow>pair_counted p n ps. snd (snd x)) = (\<Sum>x\<leftarrow>ps. snd (snd x)) + n"
  by (induction p n ps rule: pair_counted.induct) auto

abbreviation hops_counted :: "'f draw_api \<Rightarrow> hop list \<Rightarrow> (stage_pair \<times> bool \<times> nat) list \<Rightarrow> (stage_pair \<times> bool \<times> nat) list" where
  "hops_counted D \<equiv> fold (\<lambda>h ps. case hop_pair D h of None \<Rightarrow> ps | Some pair \<Rightarrow> pair_counted pair (hop_count h) ps)"

definition counted_over :: "'f draw_api \<Rightarrow> hop list \<Rightarrow> stage_pair \<Rightarrow> nat" where
  "counted_over D hops p = sum_list (map hop_count (filter (\<lambda>h. hop_pair D h = Some p) hops))"

lemma counted_over_simps [simp]:
  "counted_over D [] p = 0"
  "counted_over D (h # hops) p = (if hop_pair D h = Some p then hop_count h else 0) + counted_over D hops p"
  by (simp_all add: counted_over_def)

lemma hops_counted_distinct: "distinct (map fst ps) \<Longrightarrow> distinct (map fst (hops_counted D hops ps))"
  by (induction hops arbitrary: ps) (auto simp: pair_counted_keys split: option.splits)

lemma hops_counted_get:
  "map_of (hops_counted D hops ps) p =
     (case map_of ps p of
        Some (c, n) \<Rightarrow> Some (c, n + counted_over D hops p)
      | None \<Rightarrow> if \<exists>h\<in>set hops. hop_pair D h = Some p then Some (False, counted_over D hops p) else None)"
proof (induction hops arbitrary: ps)
  case Nil
  then show ?case by (simp split: option.splits)
next
  case (Cons h hops)
  show ?case
  proof (cases "hop_pair D h")
    case None
    then show ?thesis using Cons.IH [of ps] by (simp split: option.splits)
  next
    case (Some q)
    show ?thesis
    proof (cases "q = p")
      case True
      then show ?thesis using Cons.IH [of "pair_counted q (hop_count h) ps"] Some
        by (cases "map_of ps p") (simp_all add: pair_counted_get split: prod.splits)
    next
      case False
      then show ?thesis using Cons.IH [of "pair_counted q (hop_count h) ps"] Some
        by (simp add: pair_counted_get split: option.splits)
    qed
  qed
qed

lemma hops_counted_total:
  assumes "list_all (\<lambda>h. hop_pair D h \<noteq> None) hops"
  shows "(\<Sum>x\<leftarrow>hops_counted D hops ps. snd (snd x)) = (\<Sum>x\<leftarrow>ps. snd (snd x)) + (\<Sum>h\<leftarrow>hops. hop_count h)"
  using assms
proof (induction hops arbitrary: ps)
  case (Cons h hops)
  then obtain q where q: "hop_pair D h = Some q" by (cases "hop_pair D h") auto
  from Cons.prems have "list_all (\<lambda>h. hop_pair D h \<noteq> None) hops" by simp
  from Cons.IH [OF this, of "pair_counted q (hop_count h) ps"] q
  show ?case by (simp add: pair_counted_total del: split_paired_Ex)
qed simp

section \<open>What the roster configures\<close>

lemma set_configured_pairs:
  "set (configured_pairs K R) =
     set (roster_with K R Receive) \<times> {Receive} \<times> set (roster_with K R Process) \<times> {Process}
     \<union> set (roster_with K R Process) \<times> {Process} \<times> set (roster_with K R Send) \<times> {Send}"
  by (auto simp: configured_pairs_def)

lemma distinct_roster_with: "distinct (roster_names R) \<Longrightarrow> distinct (roster_with K R st)"
  by (induction R) (auto simp: roster_with_def roster_names_def)

lemma distinct_across:
  assumes "distinct xs" and "distinct ys"
  shows "distinct (concat (map (\<lambda>x. map (\<lambda>y. (x, a, y, b)) ys) xs))"
  using assms by (induction xs) (auto simp: distinct_map inj_on_def)

lemma distinct_configured_pairs: "distinct (roster_names R) \<Longrightarrow> distinct (configured_pairs K R)"
  by (auto simp: configured_pairs_def intro!: distinct_across distinct_roster_with)

lemma distinct_map_fst_const: "distinct (map fst (map (\<lambda>p. (p, x, y)) ps)) = distinct ps"
  by (simp add: o_def)

lemma map_of_const: "map_of (map (\<lambda>p. (p, x)) ps) q = (if q \<in> set ps then Some x else None)"
  by (induction ps) auto

lemma handoff_pairs_get:
  "map_of (handoff_pairs D K (Some R) hops) p =
     (if p \<in> set (configured_pairs K R) then Some (True, counted_over D hops p)
      else if \<exists>h\<in>set hops. hop_pair D h = Some p then Some (False, counted_over D hops p) else None)"
  by (simp add: handoff_pairs_def hops_counted_get map_of_const)

lemma distinct_handoff_pairs:
  "distinct (roster_names R) \<Longrightarrow> distinct (map fst (handoff_pairs D K (Some R) hops))"
  unfolding handoff_pairs_def option.case
  by (intro hops_counted_distinct) (simp add: distinct_map_fst_const distinct_configured_pairs del: map_map)

text \<open>The handoff links of a relayed run are, once each, the pairs of stages the roster configures and the
  pairs a handoff was delivered over; each carries exactly the handoffs delivered over it, and says it is
  configured, observed or both as it is.\<close>

theorem handoff_links_are_configured_or_observed:
  assumes "distinct (roster_names R)"
  shows "\<exists>pairs. handoff_links N D K root snap (Some R) hops = map (handoff_link N D root snap) pairs
    \<and> distinct (map fst pairs)
    \<and> set pairs = {(p, p \<in> set (configured_pairs K R), counted_over D hops p) | p.
         p \<in> set (configured_pairs K R) \<union> {q. \<exists>h\<in>set hops. hop_pair D h = Some q}}
    \<and> map tl_volume (handoff_links N D K root snap (Some R) hops) = map (snd \<circ> snd) pairs
    \<and> map tl_origin (handoff_links N D K root snap (Some R) hops) =
        map (\<lambda>(p, configured, n). if \<not> configured then FromObserved else if n = 0 then FromConfigured else FromBoth) pairs"
proof (intro exI conjI)
  let ?ps = "handoff_pairs D K (Some R) hops"
  show links: "handoff_links N D K root snap (Some R) hops = map (handoff_link N D root snap) ?ps"
    by (simp add: handoff_links_def)
  show d: "distinct (map fst ?ps)" by (rule distinct_handoff_pairs [OF assms])
  have "(p, c, n) \<in> set ?ps \<longleftrightarrow> map_of ?ps p = Some (c, n)" for p c n
    using d by (simp add: map_of_eq_Some_iff)
  then show "set ?ps = {(p, p \<in> set (configured_pairs K R), counted_over D hops p) | p.
         p \<in> set (configured_pairs K R) \<union> {q. \<exists>h\<in>set hops. hop_pair D h = Some q}}"
    unfolding handoff_pairs_get by (auto split: if_splits)
  show "map tl_volume (handoff_links N D K root snap (Some R) hops) = map (snd \<circ> snd) ?ps"
    unfolding links by (auto simp: handoff_link_def Let_def split: prod.splits)
  show "map tl_origin (handoff_links N D K root snap (Some R) hops) =
        map (\<lambda>(p, configured, n). if \<not> configured then FromObserved else if n = 0 then FromConfigured else FromBoth) ?ps"
    unfolding links by (auto simp: handoff_link_def Let_def split: prod.splits)
qed

section \<open>From the relay to the drawing\<close>

abbreviation delivered_hops :: "node_api \<Rightarrow> ((string \<times> stage) \<times> (string \<times> stage) \<times> int) list \<Rightarrow> hop list" where
  "delivered_hops N hs \<equiv> map snd (fold (\<lambda>(a, b, now). hops_record N a b now) hs [])"

lemma hops_total_count:
  assumes "btree_wf links"
  shows "(\<Sum>x\<leftarrow>fold (\<lambda>(a, b, now). hops_record N a b now) hs links. hop_count (snd x)) =
     (\<Sum>x\<leftarrow>links. hop_count (snd x)) + length hs"
  using assms
proof (induction hs arbitrary: links)
  case (Cons h hs)
  obtain a b now where h: "h = (a, b, now)" by (cases h)
  have "(\<Sum>x\<leftarrow>hops_record N a b now links. hop_count (snd x)) = Suc (\<Sum>x\<leftarrow>links. hop_count (snd x))"
    unfolding hops_record_def by (rule sum_btree_upsert [OF Cons.prems]) simp_all
  moreover have "btree_wf (hops_record N a b now links)"
    unfolding hops_record_def by (rule btree_wf_upsert [OF Cons.prems])
  ultimately show ?case using Cons.IH [of "hops_record N a b now links"] by (simp add: h)
qed simp

lemma list_all_btree_insert:
  "Q v \<Longrightarrow> list_all (\<lambda>x. Q (snd x)) m \<Longrightarrow> list_all (\<lambda>x. Q (snd x)) (btree_insert k v m)"
  by (induction k v m rule: btree_insert.induct) auto

lemma hops_all:
  assumes "\<And>h n t. Q h \<Longrightarrow> Q (h\<lparr>hop_count := n, hop_last := t\<rparr>)"
    and "\<And>a b now. (a, b, now) \<in> set hs \<Longrightarrow>
      Q \<lparr>hop_from = fst a, hop_from_stage = stage_name N (snd a), hop_to = fst b,
         hop_to_stage = stage_name N (snd b), hop_count = 0, hop_last = now\<rparr>"
    and "list_all (\<lambda>x. Q (snd x)) links"
  shows "list_all (\<lambda>x. Q (snd x)) (fold (\<lambda>(a, b, now). hops_record N a b now) hs links)"
  using assms(2,3)
proof (induction hs arbitrary: links)
  case (Cons h hs)
  obtain a b now where h: "h = (a, b, now)" by (cases h)
  let ?new = "\<lparr>hop_from = fst a, hop_from_stage = stage_name N (snd a), hop_to = fst b,
         hop_to_stage = stage_name N (snd b), hop_count = 0, hop_last = now\<rparr>"
  let ?old = "case btree_get links (hop_ends N a b) of None \<Rightarrow> ?new | Some hop \<Rightarrow> hop"
  have "Q ?new" using Cons.prems(1) [of a b now] by (simp add: h)
  moreover have "Q hop" if "btree_get links (hop_ends N a b) = Some hop" for hop
    using that Cons.prems(2) by (force simp: btree_get_def list_all_iff dest: map_of_SomeD)
  ultimately have "Q ?old" by (simp split: option.splits)
  then have "list_all (\<lambda>x. Q (snd x)) (hops_record N a b now links)"
    unfolding hops_record_def btree_upsert_def using Cons.prems(2) assms(1)
    by (intro list_all_btree_insert) simp_all
  with Cons show ?case by (simp add: h)
qed simp

lemma roster_capability_of:
  assumes "distinct (map to_ascii_lowercase (roster_names R))" and "(name, cap) \<in> set R"
  shows "roster_capability K R name = cap"
proof -
  have "find (\<lambda>(one, _). eq_ignore_ascii_case one name) R = Some (name, cap)"
    using assms
    by (induction R) (auto simp: roster_names_def eq_ignore_ascii_case_def image_iff)
  then show ?thesis by (simp add: roster_capability_def)
qed

lemma hop_pair_update [simp]: "hop_pair D (h\<lparr>hop_count := n, hop_last := t\<rparr>) = hop_pair D h"
  by (simp add: hop_pair_def split: option.splits)

lemma handed_pair_configured:
  assumes "message_path N" and "distinct (map to_ascii_lowercase (roster_names R))" and "length R < 2 ^ 64"
    and "\<And>cap st. cap_executes K cap \<Longrightarrow> cap_can K cap st"
    and "sender \<in> set (roster_with K R a)" and "stage_next N a = Some b"
    and "roster_target N K R sender b t c = Some receiver"
  shows "(sender, a, receiver, b) \<in> set (configured_pairs K R)"
proof -
  obtain cap where cap: "(sender, cap) \<in> set R" using assms(5) by (auto simp: set_roster_with)
  have "receiver \<in> set (roster_with K R b)"
    using roster_target_serves [OF assms(3) assms(7)]
  proof
    assume "receiver = sender \<and> cap_executes K (roster_capability K R sender)"
    then have "receiver = sender" "cap_can K cap b"
      using roster_capability_of [OF assms(2) cap] assms(4) by auto
    with cap show ?thesis by (auto simp: set_roster_with)
  qed
  with assms(1,5,6) show ?thesis
    by (cases a) (auto simp: set_configured_pairs message_path_def)
qed

lemma handoff_pairs_within:
  assumes names: "distinct (roster_names R)"
    and hops: "list_all (\<lambda>h. \<exists>p\<in>set (configured_pairs K R). hop_pair D h = Some p) hops"
  shows "list_all (\<lambda>x. fst (snd x)) (handoff_pairs D K (Some R) hops)"
    and "length (handoff_pairs D K (Some R) hops) = length (configured_pairs K R)"
proof -
  let ?ps = "handoff_pairs D K (Some R) hops"
  note distinct = distinct_handoff_pairs [OF names, of D K hops]
  have each: "fst (snd x) \<and> fst x \<in> set (configured_pairs K R)" if "x \<in> set ?ps" for x
  proof -
    from that have "map_of ?ps (fst x) = Some (snd x)" using distinct by (simp add: map_of_eq_Some_iff)
    with hops show ?thesis
      unfolding handoff_pairs_get by (cases x; cases "snd x") (auto simp: list_all_iff split: if_splits)
  qed
  then show "list_all (\<lambda>x. fst (snd x)) ?ps" by (simp add: list_all_iff)
  have "p \<in> fst ` set ?ps" if "p \<in> set (configured_pairs K R)" for p
  proof -
    from that have "map_of ?ps p \<noteq> None" by (simp add: handoff_pairs_get)
    then show ?thesis by (simp add: map_of_eq_None_iff)
  qed
  with each have "set (map fst ?ps) = set (configured_pairs K R)" by auto
  then show "length ?ps = length (configured_pairs K R)"
    using distinct_card [OF distinct] distinct_card [OF distinct_configured_pairs [OF names]]
    by (metis length_map)
qed

text \<open>C37: of a run whose nodes hand on as the roster says, the drawing is whole and nothing more: one link for
  every pair of stages the roster configures, none that no configuration declares, and the volumes of the
  links add up to the handoffs the nodes delivered.\<close>

theorem relayed_handoffs_are_drawn:
  assumes "message_path N" and "\<forall>st. dw_stage_named D (stage_name N st) = Some st"
    and "distinct (map to_ascii_lowercase (roster_names R))" and "length R < 2 ^ 64"
    and "\<forall>cap st. cap_executes K cap \<longrightarrow> cap_can K cap st"
    and "\<forall>(a, b, now)\<in>set hs. fst a \<in> set (roster_with K R (snd a)) \<and> stage_next N (snd a) = Some (snd b)
      \<and> (\<exists>t c. roster_target N K R (fst a) (snd b) t c = Some (fst b))"
  shows "(\<Sum>l\<leftarrow>handoff_links N D K root snap (Some R) (delivered_hops N hs). tl_volume l) = length hs
    \<and> list_all (\<lambda>l. tl_origin l \<noteq> FromObserved) (handoff_links N D K root snap (Some R) (delivered_hops N hs))
    \<and> length (handoff_links N D K root snap (Some R) (delivered_hops N hs)) = length (configured_pairs K R)"
proof (intro conjI)
  let ?hops = "delivered_hops N hs"
  let ?ps = "handoff_pairs D K (Some R) ?hops"
  have names: "distinct (roster_names R)" using assms(3) by (simp add: distinct_map)
  have "list_all (\<lambda>x. \<exists>p\<in>set (configured_pairs K R). hop_pair D (snd x) = Some p)
      (fold (\<lambda>(a, b, now). hops_record N a b now) hs [])"
  proof (rule hops_all)
    fix a b :: "string \<times> stage" and now :: int
    assume "(a, b, now) \<in> set hs"
    with assms(6) obtain t c where h: "fst a \<in> set (roster_with K R (snd a))" "stage_next N (snd a) = Some (snd b)"
        "roster_target N K R (fst a) (snd b) t c = Some (fst b)" by fast
    from handed_pair_configured [OF assms(1,3,4) _ h] assms(5)
    have "(fst a, snd a, fst b, snd b) \<in> set (configured_pairs K R)" by blast
    then show "\<exists>p\<in>set (configured_pairs K R). hop_pair D \<lparr>hop_from = fst a, hop_from_stage = stage_name N (snd a),
        hop_to = fst b, hop_to_stage = stage_name N (snd b), hop_count = 0, hop_last = now\<rparr> = Some p"
      using assms(2) by (auto simp: hop_pair_def)
  qed simp_all
  then have hops: "list_all (\<lambda>h. \<exists>p\<in>set (configured_pairs K R). hop_pair D h = Some p) ?hops"
    by (auto simp: list_all_iff)
  then have "list_all (\<lambda>h. hop_pair D h \<noteq> None) ?hops" by (auto simp: list_all_iff)
  from hops_counted_total [OF this]
  have "(\<Sum>x\<leftarrow>?ps. snd (snd x)) = (\<Sum>h\<leftarrow>?hops. hop_count h)"
    by (simp add: handoff_pairs_def o_def)
  moreover have "(\<Sum>h\<leftarrow>?hops. hop_count h) = length hs"
    using hops_total_count [of "[]" N hs] by (simp add: o_def)
  moreover have volume: "tl_volume (handoff_link N D root snap x) = snd (snd x)" for x
    by (simp add: handoff_link_def Let_def split: prod.splits)
  ultimately show "(\<Sum>l\<leftarrow>handoff_links N D K root snap (Some R) ?hops. tl_volume l) = length hs"
    by (simp add: handoff_links_def o_def)
  have "tl_origin (handoff_link N D root snap x) \<noteq> FromObserved" if "fst (snd x)" for x
    using that by (cases x) (auto simp: handoff_link_def Let_def split: prod.splits)
  with handoff_pairs_within(1) [OF names hops]
  show "list_all (\<lambda>l. tl_origin l \<noteq> FromObserved) (handoff_links N D K root snap (Some R) ?hops)"
    by (simp add: handoff_links_def list_all_iff)
  show "length (handoff_links N D K root snap (Some R) ?hops) = length (configured_pairs K R)"
    using handoff_pairs_within(2) [OF names hops] by (simp add: handoff_links_def)
qed

definition plain_draw :: "nat draw_api" where
  "plain_draw =
     \<lparr>dw_worst = (\<lambda>snap scope. None), dw_mood = (\<lambda>_. (Fine, ''nothing'')), dw_drawn = (\<lambda>_ scope. (Fine, scope)),
      dw_node_id = (\<lambda>name. ''node/'' @ name), dw_cluster = ''cluster'', dw_label = id,
      dw_members = (\<lambda>snap root names. []), dw_party = (\<lambda>snap root names sides T. T), dw_rank = (\<lambda>_. 0),
      dw_measure = (\<lambda>snap scope counted. None), dw_zero = 0, dw_fraction = (\<lambda>done all. done),
      dw_stage_named = (\<lambda>s. if s = ''receive'' then Some Receive else if s = ''process'' then Some Process
        else if s = ''send'' then Some Send else None)\<rparr>"

definition sound_capability :: "stage list capability_api" where
  "sound_capability = plain_capability\<lparr>cap_executes := (\<lambda>cap. {Receive, Process, Send} \<subseteq> set cap)\<rparr>"

lemma sound_can: "cap_executes sound_capability cap \<longrightarrow> cap_can sound_capability cap st"
  by (cases st) (auto simp: sound_capability_def plain_capability_def)

theorem handoff_links_are_configured_or_observed_witness:
  "\<exists>pairs. set pairs = {(p, p \<in> set (configured_pairs sound_capability example_roster), 0) | p.
         p \<in> set (configured_pairs sound_capability example_roster)}
    \<and> handoff_links documented_node plain_draw sound_capability ''xmip:///t'' [] (Some example_roster) []
        = map (handoff_link documented_node plain_draw ''xmip:///t'' []) pairs"
proof -
  have "distinct (roster_names example_roster)" by code_simp
  from handoff_links_are_configured_or_observed [OF this, where hops = "[]" and D = plain_draw
      and N = documented_node and K = sound_capability and root = "''xmip:///t''" and snap = "[]"]
  show ?thesis by simp metis
qed

theorem relayed_handoffs_are_drawn_witness:
  "(\<Sum>l\<leftarrow>handoff_links documented_node plain_draw sound_capability ''xmip:///t'' [] (Some example_roster)
        (delivered_hops documented_node [((''a'', Receive), (''p'', Process), 5), ((''a'', Receive), (''p'', Process), 6)]).
      tl_volume l) = 2"
proof -
  have "roster_target documented_node sound_capability example_roster ''a'' Process ''tcp'' Json = Some ''p''"
    by code_simp
  moreover have "''a'' \<in> set (roster_with sound_capability example_roster Receive)" by code_simp
  moreover have "\<forall>st. dw_stage_named plain_draw (stage_name documented_node st) = Some st"
    by (auto simp: plain_draw_def documented_node_def split: stage.splits)
  moreover have "distinct (map to_ascii_lowercase (roster_names example_roster))" by code_simp
  moreover have "length example_roster < 2 ^ 64" by (simp add: example_roster_def)
  moreover have "stage_next documented_node Receive = Some Process" by (simp add: documented_node_def)
  ultimately show ?thesis
    using relayed_handoffs_are_drawn [of documented_node plain_draw example_roster sound_capability
        "[((''a'', Receive), (''p'', Process), 5), ((''a'', Receive), (''p'', Process), 6)]" "''xmip:///t''" "[]"]
      message_path_documented sound_can
    by fastforce
qed

end
