(* ===== verification/Filing.thy ===== *)
theory Filing
  imports Fault Ledger
begin

text \<open>
  The filing (\<open>src/filing.rs\<close>) and the one round every cabinet runs (\<open>file_through\<close> of
  \<open>src/cabinet.rs\<close>): a probe per technology and contract through an archive store, judged on whether
  it came back whole. The stores are other crates': what one does is a parameter over the world \<open>'s\<close>
  they keep their items in, which every filing is handed and hands on.
\<close>

section \<open>A cabinet\<close>

record filed_item =
  fi_data_type :: string
  fi_identifier :: string
  fi_bytes :: bytes
  fi_metadata :: "(string \<times> string) list"

datatype filed = ReturnedItem filed_item | FiledFailed string

record ('s, 'r) archive_api =
  aa_archive :: "filed_item \<Rightarrow> 's \<Rightarrow> (string + 'r) \<times> 's"
  aa_restore :: "'r \<Rightarrow> 's \<Rightarrow> (string + filed_item) \<times> 's"

record 's cabinet =
  cb_technology :: string
  cb_file :: "filed_item \<Rightarrow> 's \<Rightarrow> filed \<times> 's"

definition file_through :: "('s, 'r) archive_api \<Rightarrow> filed_item \<Rightarrow> 's \<Rightarrow> filed \<times> 's" where
  "file_through A item s =
     (case aa_archive A item s of
        (Inl e, s) \<Rightarrow> (FiledFailed (''archive failed: '' @ e), s)
      | (Inr receipt, s) \<Rightarrow>
          (case aa_restore A receipt s of
             (Inr returned, s) \<Rightarrow> (ReturnedItem returned, s)
           | (Inl e, s) \<Rightarrow> (FiledFailed (''restore failed: '' @ e), s)))"

definition cabinet_over :: "string \<Rightarrow> ('s, 'r) archive_api \<Rightarrow> 's cabinet" where
  "cabinet_over tech A = \<lparr>cb_technology = tech, cb_file = file_through A\<rparr>"

section \<open>The filing\<close>

definition SKIP_RATE :: u8 where
  "SKIP_RATE = 5"

record filing_line =
  fg_scope :: string
  fg_mark :: mark
  fg_line :: string
  fg_filed :: bool
  fg_bytes :: nat

record 's filing =
  fl_node :: string
  fl_cabinets :: "'s cabinet list"
  fl_round :: nat
  fl_stress :: "stress option"
  fl_standings :: "(string, standing) btree"
  fl_filed :: nat
  fl_moved :: nat

definition filing_new :: "string \<Rightarrow> 's cabinet list \<Rightarrow> 's filing" where
  "filing_new node cabinets =
     \<lparr>fl_node = node, fl_cabinets = cabinets, fl_round = 0, fl_stress = None, fl_standings = [],
      fl_filed = 0, fl_moved = 0\<rparr>"

definition filing_at :: "stress \<Rightarrow> 's filing \<Rightarrow> 's filing" where
  "filing_at level F = F\<lparr>fl_stress := Some level\<rparr>"

definition filing_over :: "'s cabinet list \<Rightarrow> 's filing \<Rightarrow> 's filing" where
  "filing_over cabinets F = F\<lparr>fl_cabinets := cabinets\<rparr>"

definition filing_skipped :: "'s filing \<Rightarrow> string \<Rightarrow> contract \<Rightarrow> bool" where
  "filing_skipped F tech c \<longleftrightarrow>
     (case fl_stress F of
        None \<Rightarrow> False
      | Some level \<Rightarrow>
          fires_keyed (scaled_rate SKIP_RATE level) (''skip/'' @ tech @ ''/'' @ contract_name c) (fl_round F))"

definition filing_probe :: "codec_api \<Rightarrow> 's filing \<Rightarrow> contract \<Rightarrow> filed_item" where
  "filing_probe W F c =
     \<lparr>fi_data_type = contract_name c, fi_identifier = decimal (fl_round F) @ ''-'' @ contract_name c,
      fi_bytes = (case fl_stress F of
          Some level \<Rightarrow> stress_payload W c (size_for level (fl_round F))
        | None \<Rightarrow> contract_payload W c),
      fi_metadata = [(''source'', ''essentials''), (''round'', decimal (fl_round F))]\<rparr>"

definition difference :: "filed_item \<Rightarrow> filed_item \<Rightarrow> string" where
  "difference filed returned =
     (if fi_bytes filed \<noteq> fi_bytes returned then ''the bytes differ''
      else if fi_metadata filed \<noteq> fi_metadata returned then ''the metadata differs''
      else if fi_identifier filed \<noteq> fi_identifier returned then ''the identifier differs''
      else ''the data type differs'')"

definition filing_judge :: "codec_api \<Rightarrow> 's filing \<Rightarrow> 's cabinet \<Rightarrow> contract \<Rightarrow> 's \<Rightarrow> filing_line \<times> 's" where
  "filing_judge W F cab c s =
     (let tech = cb_technology cab;
          scope = fl_node F @ ''/'' @ tech @ ''/'' @ contract_name c in
      if filing_skipped F tech c
      then (\<lparr>fg_scope = scope, fg_mark = Fail,
             fg_line = ''the cabinet was skipped this round: the item was not filed'', fg_filed = False, fg_bytes = 0\<rparr>, s)
      else
        let item = filing_probe W F c;
            n = length (fi_bytes item);
            (answer, s) = cb_file cab item s;
            (m, line, moved) = (case answer of
                ReturnedItem returned \<Rightarrow>
                  if returned = item
                  then (Pass, decimal n @ '' bytes filed and returned whole'', n * 2)
                  else (Fail, ''returned, but '' @ difference item returned, n)
              | FiledFailed why \<Rightarrow> (Fail, why, 0)) in
        (\<lparr>fg_scope = scope, fg_mark = m, fg_line = line, fg_filed = True, fg_bytes = moved\<rparr>, s))"

text \<open>Every cabinet by every contract, in that order, each handed what the one before left.\<close>

definition filing_pairs :: "'s filing \<Rightarrow> ('s cabinet \<times> contract) list" where
  "filing_pairs F = concat (map (\<lambda>cab. map (Pair cab) CONTRACTS) (fl_cabinets F))"

fun file_each :: "codec_api \<Rightarrow> 's filing \<Rightarrow> ('s cabinet \<times> contract) list \<Rightarrow> 's \<Rightarrow> filing_line list \<times> 's" where
  "file_each W F [] s = ([], s)"
| "file_each W F ((cab, c) # pairs) s =
     (let (line, s) = filing_judge W F cab c s; (lines, s) = file_each W F pairs s in (line # lines, s))"

definition file_round :: "codec_api \<Rightarrow> 's filing \<Rightarrow> 's \<Rightarrow> filing_line list \<times> 's" where
  "file_round W F = file_each W F (filing_pairs F)"

definition filing_fold :: "int \<Rightarrow> filing_line \<Rightarrow> 's filing \<times> snapshot \<Rightarrow> 's filing \<times> snapshot" where
  "filing_fold now l = (\<lambda>(F, snap).
     let F = (if fg_filed l then F\<lparr>fl_filed := fl_filed F + 1\<rparr> else F);
         F = F\<lparr>fl_moved := fl_moved F + fg_bytes l\<rparr>;
         F = F\<lparr>fl_standings := btree_upsert (fg_scope l) standing_default (standing_record (fg_mark l, fg_line l))
           (fl_standings F)\<rparr> in
     (F, snap @ [RecordHealth (standing_health
       (case btree_get (fl_standings F) (fg_scope l) of Some st \<Rightarrow> st | None \<Rightarrow> standing_default) (fg_scope l) now)]))"

definition filing_tick :: "codec_api \<Rightarrow> int \<Rightarrow> 's filing \<times> 's \<Rightarrow> ('s filing \<times> 's) \<times> snapshot" where
  "filing_tick W now = (\<lambda>(F, s).
     let F = F\<lparr>fl_round := fl_round F + 1\<rparr>;
         (lines, s) = file_round W F s;
         (F, snap) = fold (filing_fold now) lines (F, []) in
     ((F, s), snap @ [RecordCount \<lparr>cr_scope = fl_node F, cr_counted = Counted_Bytes, cr_value = fl_moved F,
       cr_observed = now\<rparr>]))"

section \<open>One item judged\<close>

text \<open>An item is green exactly when its cabinet was not skipped and gave back, in every field, what it was
  handed; a red line names the first field that really differs, or the half of the round that failed;
  and the bytes counted are both ways of what came back whole, one way of what came back changed and
  none of what was refused or not filed.\<close>

theorem filing_judged:
  "let (l, t) = filing_judge W F (cabinet_over tech A) c s;
       item = filing_probe W F c;
       n = length (fi_bytes item);
       skip = filing_skipped F tech c;
       (archived, s1) = aa_archive A item s in
     (fg_mark l = Pass \<longleftrightarrow> \<not> skip \<and> (\<exists>r. archived = Inr r \<and> fst (aa_restore A r s1) = Inr item))
   \<and> (fg_mark l \<noteq> Pass \<longleftrightarrow> fg_mark l = Fail)
   \<and> (fg_filed l \<longleftrightarrow> \<not> skip)
   \<and> (skip \<longrightarrow> t = s \<and> fg_bytes l = 0)
   \<and> (\<forall>e. \<not> skip \<and> archived = Inl e \<longrightarrow> fg_line l = ''archive failed: '' @ e \<and> fg_bytes l = 0 \<and> t = s1)
   \<and> (\<forall>r e. \<not> skip \<and> archived = Inr r \<and> fst (aa_restore A r s1) = Inl e \<longrightarrow>
        fg_line l = ''restore failed: '' @ e \<and> fg_bytes l = 0)
   \<and> (\<forall>r back. \<not> skip \<and> archived = Inr r \<and> fst (aa_restore A r s1) = Inr back \<longrightarrow>
        fg_bytes l = (if back = item then n * 2 else n)
        \<and> (back \<noteq> item \<longrightarrow> fg_line l = ''returned, but '' @ difference item back))"
  by (auto simp: filing_judge_def cabinet_over_def file_through_def Let_def split: prod.splits sum.splits filed.splits)

text \<open>The field a red line names is one that differs.\<close>

lemma difference_is_real:
  assumes "filed \<noteq> (returned :: filed_item)"
  shows "difference filed returned = ''the bytes differ'' \<and> fi_bytes filed \<noteq> fi_bytes returned
    \<or> difference filed returned = ''the metadata differs'' \<and> fi_metadata filed \<noteq> fi_metadata returned
    \<or> difference filed returned = ''the identifier differs'' \<and> fi_identifier filed \<noteq> fi_identifier returned
    \<or> difference filed returned = ''the data type differs'' \<and> fi_data_type filed \<noteq> fi_data_type returned"
  using assms by (auto simp: difference_def)

text \<open>A store that keeps its items in a list and gives the place of each as its receipt.\<close>

definition listed_archive :: "(filed_item list, nat) archive_api" where
  "listed_archive =
     \<lparr>aa_archive = (\<lambda>item held. (Inr (length held), held @ [item])),
      aa_restore = (\<lambda>receipt held. (if receipt < length held then Inr (held ! receipt) else Inl ''no such item'', held))\<rparr>"

lemma listed_archive_keeps:
  "aa_archive listed_archive item held = (Inr (length held), held @ [item])"
  "fst (aa_restore listed_archive (length held) (held @ [item])) = Inr item"
  by (simp_all add: listed_archive_def)

theorem filing_judged_witness:
  "let (l, t) = filing_judge plain_codecs (filing_new ''n'' []) (cabinet_over ''list'' listed_archive) Text [] in
     fg_mark l = Pass \<and> fg_filed l \<and> fg_bytes l = length (contract_payload plain_codecs Text) * 2"
proof -
  obtain l t where judged:
    "filing_judge plain_codecs (filing_new ''n'' []) (cabinet_over ''list'' listed_archive) Text [] = (l, t)"
    by (cases "filing_judge plain_codecs (filing_new ''n'' []) (cabinet_over ''list'' listed_archive) Text []")
  have "\<not> filing_skipped (filing_new ''n'' [] :: filed_item list filing) ''list'' Text" by (simp add: filing_skipped_def filing_new_def)
  moreover have "fi_bytes (filing_probe plain_codecs (filing_new ''n'' [] :: filed_item list filing) Text) = contract_payload plain_codecs Text"
    by (simp add: filing_probe_def filing_new_def)
  ultimately show ?thesis
    using filing_judged [of plain_codecs "filing_new ''n'' []" "''list''" listed_archive Text "[]", unfolded judged]
      listed_archive_keeps [where held = "[]"]
    unfolding judged by (simp add: Let_def listed_archive_keeps)
qed

section \<open>Rounds over time\<close>

fun filing_run :: "codec_api \<Rightarrow> int list \<Rightarrow> 's filing \<times> 's \<Rightarrow> filing_line list \<times> 's filing \<times> 's" where
  "filing_run W [] Fs = ([], Fs)"
| "filing_run W (now # ts) (F, s) =
     (let (rest, Fs) = filing_run W ts (fst (filing_tick W now (F, s))) in
      (fst (file_round W (F\<lparr>fl_round := fl_round F + 1\<rparr>) s) @ rest, Fs))"

abbreviation line_upsert :: "filing_line \<Rightarrow> (string, standing) btree \<Rightarrow> (string, standing) btree" where
  "line_upsert l \<equiv> btree_upsert (fg_scope l) standing_default (standing_record (fg_mark l, fg_line l))"

lemma filing_fold_fields:
  "fl_standings (fst (filing_fold now l X)) = line_upsert l (fl_standings (fst X))"
  "fl_filed (fst (filing_fold now l X)) = fl_filed (fst X) + (if fg_filed l then 1 else 0)"
  "fl_moved (fst (filing_fold now l X)) = fl_moved (fst X) + fg_bytes l"
  "fl_node (fst (filing_fold now l X)) = fl_node (fst X)"
  "fl_cabinets (fst (filing_fold now l X)) = fl_cabinets (fst X)"
  "fl_round (fst (filing_fold now l X)) = fl_round (fst X)"
  "fl_stress (fst (filing_fold now l X)) = fl_stress (fst X)"
  by (cases X; simp add: filing_fold_def Let_def)+

lemma filing_folds_fields:
  "fl_standings (fst (fold (filing_fold now) ls X)) = fold line_upsert ls (fl_standings (fst X))"
  "fl_filed (fst (fold (filing_fold now) ls X)) = fl_filed (fst X) + length (filter fg_filed ls)"
  "fl_moved (fst (fold (filing_fold now) ls X)) = fl_moved (fst X) + (\<Sum>l\<leftarrow>ls. fg_bytes l)"
  "fl_node (fst (fold (filing_fold now) ls X)) = fl_node (fst X)"
  "fl_cabinets (fst (fold (filing_fold now) ls X)) = fl_cabinets (fst X)"
  "fl_round (fst (fold (filing_fold now) ls X)) = fl_round (fst X)"
  "fl_stress (fst (fold (filing_fold now) ls X)) = fl_stress (fst X)"
  by (induction ls arbitrary: X; simp add: filing_fold_fields)+

lemma filing_tick_state:
  fixes F :: "'s filing"
  defines "G \<equiv> F\<lparr>fl_round := fl_round F + 1\<rparr>"
  shows "fst (filing_tick W now (F, s)) =
    (fst (fold (filing_fold now) (fst (file_round W G s)) (G, [])), snd (file_round W G s))"
  by (simp add: filing_tick_def G_def Let_def split: prod.splits)

lemma filing_run_history:
  "fl_standings (fst (snd (filing_run W ts (F, s)))) = fold line_upsert (fst (filing_run W ts (F, s))) (fl_standings F)
   \<and> fl_filed (fst (snd (filing_run W ts (F, s)))) = fl_filed F + length (filter fg_filed (fst (filing_run W ts (F, s))))
   \<and> fl_moved (fst (snd (filing_run W ts (F, s)))) = fl_moved F + (\<Sum>l\<leftarrow>fst (filing_run W ts (F, s)). fg_bytes l)"
proof (induction ts arbitrary: F s)
  case (Cons now ts)
  let ?G = "F\<lparr>fl_round := fl_round F + 1\<rparr>"
  define L where "L = fst (file_round W ?G s)"
  obtain F' s' where t: "fst (filing_tick W now (F, s)) = (F', s')" by (cases "fst (filing_tick W now (F, s))")
  then have F': "F' = fst (fold (filing_fold now) L (?G, []))"
    unfolding filing_tick_state L_def by simp
  have fields: "fl_standings F' = fold line_upsert L (fl_standings F)"
    "fl_filed F' = fl_filed F + length (filter fg_filed L)" "fl_moved F' = fl_moved F + (\<Sum>l\<leftarrow>L. fg_bytes l)"
    by (simp_all add: F' filing_folds_fields)
  obtain rest Fs where r: "filing_run W ts (F', s') = (rest, Fs)" by (cases "filing_run W ts (F', s')")
  have run: "filing_run W (now # ts) (F, s) = (L @ rest, Fs)"
    unfolding filing_run.simps t r L_def Let_def prod.case ..
  show ?case unfolding run using Cons [of F' s', unfolded r fst_conv snd_conv fields] by simp
qed simp

text \<open>A cabinet that lost an item is not forgiven: after any rounds a scope stands as \<open>Done\<close> where its
  last round failed, as \<open>Stressed\<close> where only an earlier one did and as \<open>Fine\<close> where none did, and a scope
  no round judged does not stand at all; and the counts are those of the rounds.\<close>

theorem filing_stands_by_its_history:
  "let (lines, F, t) = filing_run W ts (filing_new node cabinets, s);
       own = filter (\<lambda>l. fg_scope l = scope) lines in
     map_option (\<lambda>st. hr_health (standing_health st scope now)) (btree_get (fl_standings F) scope) =
       (if own = [] then None
        else Some (if fg_mark (last own) = Fail then Done
                   else if fg_mark (last own) = Pass \<and> list_all (\<lambda>l. fg_mark l \<noteq> Fail) own then Fine
                   else Stressed))
   \<and> fl_filed F = length (filter fg_filed lines)
   \<and> fl_moved F = (\<Sum>l\<leftarrow>lines. fg_bytes l)"
proof -
  obtain lines F t where run: "filing_run W ts (filing_new node cabinets, s) = (lines, F, t)"
    by (cases "filing_run W ts (filing_new node cabinets, s)") auto
  define own where "own = filter (\<lambda>l. fg_scope l = scope) lines"
  have hist: "fl_standings F = fold line_upsert lines []" "fl_filed F = length (filter fg_filed lines)"
    "fl_moved F = (\<Sum>l\<leftarrow>lines. fg_bytes l)"
    using filing_run_history [where W = W and ts = ts and F = "filing_new node cabinets" and s = s, unfolded run]
    by (simp_all add: filing_new_def)
  have get: "btree_get (fl_standings F) scope =
      (if own = [] then None
       else Some (fold standing_record (map (\<lambda>l. (fg_mark l, fg_line l)) own) standing_default))"
    by (simp add: hist bt.get_fold_upsert btree_get_Nil own_def fold_map o_def split: list.splits)
  have "hr_health (standing_health (fold standing_record (map (\<lambda>l. (fg_mark l, fg_line l)) own) standing_default) scope now) =
      (if fg_mark (last own) = Fail then Done
       else if fg_mark (last own) = Pass \<and> list_all (\<lambda>l. fg_mark l \<noteq> Fail) own then Fine else Stressed)"
    if "own \<noteq> []"
    using standing.health_history [of "map (\<lambda>l. (fg_mark l, fg_line l)) own"] that
    by (simp add: last_map list_all_iff)
  then show ?thesis
    unfolding run Let_def prod.case own_def [symmetric] get by (simp add: hist(2,3))
qed

section \<open>Stores that give back what they are given\<close>

definition gives_back :: "('s, 'r) archive_api \<Rightarrow> bool" where
  "gives_back A \<longleftrightarrow> (\<forall>item s. \<exists>r t. aa_archive A item s = (Inr r, t) \<and> fst (aa_restore A r t) = Inr item)"

lemma cabinet_gives_back:
  assumes "gives_back A"
  shows "fst (cb_file (cabinet_over tech A) item s) = ReturnedItem item"
proof -
  obtain r t where "aa_archive A item s = (Inr r, t)" "fst (aa_restore A r t) = Inr item"
    using assms unfolding gives_back_def by blast
  then show ?thesis by (cases "aa_restore A r t") (simp add: cabinet_over_def file_through_def)
qed

definition unskipped :: "'s filing \<Rightarrow> bool" where
  "unskipped F \<longleftrightarrow> fl_stress F = None \<or> fl_stress F = Some Calm"

lemma unskipped_never: "unskipped F \<Longrightarrow> \<not> filing_skipped F tech c"
  by (auto simp: unskipped_def filing_skipped_def keyed.calm_never)

definition payload_moved :: "codec_api \<Rightarrow> 's filing \<Rightarrow> contract \<Rightarrow> nat" where
  "payload_moved W F c = 2 * length (case fl_stress F of
       Some level \<Rightarrow> stress_payload W c 64 | None \<Rightarrow> contract_payload W c)"

lemma filing_judge_whole:
  assumes "unskipped F" and "fst (cb_file cab (filing_probe W F c) s) = ReturnedItem (filing_probe W F c)"
  shows "fg_mark (fst (filing_judge W F cab c s)) = Pass \<and> fg_filed (fst (filing_judge W F cab c s))
    \<and> fg_bytes (fst (filing_judge W F cab c s)) = payload_moved W F c"
proof -
  have "2 * length (fi_bytes (filing_probe W F c)) = payload_moved W F c"
    using assms(1) by (auto simp: filing_probe_def payload_moved_def unskipped_def size_for_def)
  moreover obtain t where "cb_file cab (filing_probe W F c) s = (ReturnedItem (filing_probe W F c), t)"
    using assms(2) by (metis prod.collapse)
  ultimately show ?thesis
    using unskipped_never [OF assms(1)] by (simp add: filing_judge_def Let_def)
qed

lemma file_each_whole:
  assumes "unskipped F"
    and "\<And>cab c item s. (cab, c) \<in> set pairs \<Longrightarrow> fst (cb_file cab item s) = ReturnedItem item"
  shows "list_all (\<lambda>l. fg_mark l = Pass \<and> fg_filed l) (fst (file_each W F pairs s))
    \<and> map fg_bytes (fst (file_each W F pairs s)) = map (payload_moved W F \<circ> snd) pairs"
  using assms(2)
proof (induction pairs arbitrary: s)
  case (Cons p pairs)
  obtain cab c where p: "p = (cab, c)" by (cases p)
  obtain l t where j: "filing_judge W F cab c s = (l, t)" by (cases "filing_judge W F cab c s")
  obtain ls u where e: "file_each W F pairs t = (ls, u)" by (cases "file_each W F pairs t")
  have sub: "fst (cb_file cab item s) = ReturnedItem item" if "(cab, c) \<in> set pairs" for cab c item s
    using Cons.prems [of cab c item s] that by simp
  have "fg_mark l = Pass \<and> fg_filed l \<and> fg_bytes l = payload_moved W F c"
    using filing_judge_whole [OF assms(1), of cab W c s] Cons.prems [of cab c] by (simp add: p j)
  moreover have "list_all (\<lambda>l. fg_mark l = Pass \<and> fg_filed l) (fst (file_each W F pairs t))
      \<and> map fg_bytes (fst (file_each W F pairs t)) = map (payload_moved W F \<circ> snd) pairs"
    by (rule Cons.IH) (rule sub)
  ultimately show ?case by (simp add: p j e)
qed simp

lemma filing_tick_keeps:
  assumes "fst (filing_tick W now (F, s)) = (F', s')"
  shows "fl_cabinets F' = fl_cabinets F \<and> fl_stress F' = fl_stress F"
  using assms filing_folds_fields(5,7) [where X = "(F\<lparr>fl_round := fl_round F + 1\<rparr>, [])"]
  unfolding filing_tick_state by force

lemma pairs_moved: "(\<Sum>p\<leftarrow>filing_pairs F. g (snd p)) = length (fl_cabinets F) * (\<Sum>c\<leftarrow>CONTRACTS. (g c :: nat))"
proof -
  have "(\<Sum>p\<leftarrow>concat (map (\<lambda>cab. map (Pair cab) CONTRACTS) cabs). g (snd p)) = length cabs * (\<Sum>c\<leftarrow>CONTRACTS. g c)"
    for cabs by (induction cabs) (simp_all add: o_def)
  then show ?thesis by (simp only: filing_pairs_def)
qed

lemma filing_pairs_round [simp]: "filing_pairs (F\<lparr>fl_round := n\<rparr>) = filing_pairs F"
  by (simp add: filing_pairs_def)

lemma filing_run_whole:
  assumes "unskipped F" and "\<And>cab item s. cab \<in> set (fl_cabinets F) \<Longrightarrow> fst (cb_file cab item s) = ReturnedItem item"
  shows "list_all (\<lambda>l. fg_mark l = Pass \<and> fg_filed l) (fst (filing_run W ts (F, s)))
    \<and> (\<Sum>l\<leftarrow>fst (filing_run W ts (F, s)). fg_bytes l)
        = length ts * (\<Sum>p\<leftarrow>filing_pairs F. payload_moved W F (snd p))
    \<and> length (fst (filing_run W ts (F, s))) = length ts * length (filing_pairs F)"
  using assms
proof (induction ts arbitrary: F s)
  case (Cons now ts)
  let ?G = "F\<lparr>fl_round := fl_round F + 1\<rparr>"
  define L where "L = fst (file_round W ?G s)"
  obtain F' s' where t: "fst (filing_tick W now (F, s)) = (F', s')" by (cases "fst (filing_tick W now (F, s))")
  have keep: "fl_cabinets F' = fl_cabinets F" "fl_stress F' = fl_stress F"
    using filing_tick_keeps [OF t] by simp_all
  obtain rest Fs where r: "filing_run W ts (F', s') = (rest, Fs)" by (cases "filing_run W ts (F', s')")
  have run: "fst (filing_run W (now # ts) (F, s)) = L @ rest"
    unfolding filing_run.simps t r L_def Let_def prod.case fst_conv ..
  have pairs: "filing_pairs ?G = filing_pairs F" "filing_pairs F' = filing_pairs F"
    by (simp_all add: filing_pairs_def keep)
  have "unskipped ?G" using Cons.prems(1) by (simp add: unskipped_def)
  moreover have "fst (cb_file cab item s) = ReturnedItem item" if "(cab, c) \<in> set (filing_pairs F)" for cab c item s
    using that Cons.prems(2) by (auto simp: filing_pairs_def)
  ultimately have L: "list_all (\<lambda>l. fg_mark l = Pass \<and> fg_filed l) L"
      "map fg_bytes L = map (payload_moved W F \<circ> snd) (filing_pairs F)"
    using file_each_whole [where F = ?G and pairs = "filing_pairs F" and W = W and s = s]
    by (auto simp: L_def file_round_def pairs payload_moved_def [abs_def] o_def)
  have "unskipped F'" using Cons.prems(1) by (simp add: unskipped_def keep)
  from Cons.IH [OF this, of s'] Cons.prems(2) have IH:
    "list_all (\<lambda>l. fg_mark l = Pass \<and> fg_filed l) rest"
    "(\<Sum>l\<leftarrow>rest. fg_bytes l) = length ts * (\<Sum>p\<leftarrow>filing_pairs F. payload_moved W F (snd p))"
    "length rest = length ts * length (filing_pairs F)"
    by (simp_all add: r keep pairs payload_moved_def [abs_def])
  have "length L = length (filing_pairs F)" using arg_cong [OF L(2), of length] by simp
  then show ?case unfolding run using L IH by (simp add: o_def)
qed simp

text \<open>C39: over stores that give back what they are given, and with no level or at \<open>Calm\<close>, a filing files every
  contract through every cabinet in every round, every scope stands \<open>Fine\<close> for ever and the bytes
  counted are those of the probes, once in and once out.\<close>

theorem whole_stores_stay_green:
  assumes "\<forall>(tech, A) \<in> set stores. gives_back A" and "level = None \<or> level = Some Calm"
  shows "let F0 = (filing_new node (map (\<lambda>(tech, A). cabinet_over tech A) stores))\<lparr>fl_stress := level\<rparr>;
             (lines, F, t) = filing_run W ts (F0, s) in
      fl_filed F = length ts * length stores * 20
    \<and> fl_moved F = length ts * length stores * (\<Sum>c\<leftarrow>CONTRACTS. payload_moved W F0 c)
    \<and> (\<forall>scope st. btree_get (fl_standings F) scope = Some st \<longrightarrow> hr_health (standing_health st scope now) = Fine)"
proof -
  define F0 where "F0 = (filing_new node (map (\<lambda>(tech, A). cabinet_over tech A) stores))\<lparr>fl_stress := level\<rparr>"
  obtain lines F t where run: "filing_run W ts (F0, s) = (lines, F, t)"
    by (cases "filing_run W ts (F0, s)") auto
  have "unskipped F0" using assms(2) by (simp add: F0_def unskipped_def)
  moreover have "fst (cb_file cab item s) = ReturnedItem item" if "cab \<in> set (fl_cabinets F0)" for cab item s
    using that assms(1) cabinet_gives_back by (fastforce simp: F0_def filing_new_def)
  ultimately have whole: "list_all (\<lambda>l. fg_mark l = Pass \<and> fg_filed l) lines"
      "(\<Sum>l\<leftarrow>lines. fg_bytes l) = length ts * (\<Sum>p\<leftarrow>filing_pairs F0. payload_moved W F0 (snd p))"
      "length lines = length ts * length (filing_pairs F0)"
    using filing_run_whole [of F0 W ts s] by (simp_all add: run)
  have hist: "fl_standings F = fold line_upsert lines []" "fl_filed F = length (filter fg_filed lines)"
    "fl_moved F = (\<Sum>l\<leftarrow>lines. fg_bytes l)"
    using filing_run_history [where W = W and ts = ts and F = F0 and s = s, unfolded run]
    by (simp_all add: F0_def filing_new_def)
  have pairs: "length (filing_pairs F0) = length stores * 20"
    by (simp add: filing_pairs_def F0_def filing_new_def length_concat o_def sum_list_triv)
  have cabs: "length (fl_cabinets F0) = length stores" by (simp add: F0_def filing_new_def)
  have "filter fg_filed lines = lines" using whole(1) by (simp add: list_all_iff)
  moreover have "hr_health (standing_health st scope now) = Fine" if "btree_get (fl_standings F) scope = Some st" for scope st
  proof -
    define own where "own = filter (\<lambda>l. fg_scope l = scope) lines"
    have "own \<noteq> []" "st = fold standing_record (map (\<lambda>l. (fg_mark l, fg_line l)) own) standing_default"
      using that by (auto simp: hist bt.get_fold_upsert btree_get_Nil own_def fold_map o_def split: list.splits)
    moreover have "list_all (\<lambda>l. fg_mark l = Pass) own" using whole(1) by (simp add: own_def list_all_iff)
    ultimately show ?thesis
      using standing.health_history [of "map (\<lambda>l. (fg_mark l, fg_line l)) own"] by (simp add: last_map list_all_iff)
  qed
  ultimately show ?thesis
    unfolding F0_def [symmetric] Let_def run prod.case
    using whole pairs by (simp add: hist(2,3) pairs_moved cabs mult.assoc)
qed

theorem whole_stores_stay_green_witness:
  "fl_filed (fst (snd (filing_run plain_codecs [5, 6] (filing_new ''n'' [cabinet_over ''list'' listed_archive], [])))) = 40"
proof -
  have "gives_back listed_archive" by (simp add: gives_back_def listed_archive_def)
  moreover have "(filing_new ''n'' [cabinet_over ''list'' listed_archive])\<lparr>fl_stress := None\<rparr>
      = filing_new ''n'' [cabinet_over ''list'' listed_archive]" by (simp add: filing_new_def)
  ultimately show ?thesis
    using whole_stores_stay_green [of "[(''list'', listed_archive)]" None "''n''" plain_codecs "[5, 6]" "[]" 0]
    by (simp add: Let_def split: prod.splits)
qed

end
