(* ===== verification/Subscribing.thy ===== *)
theory Subscribing
  imports Relay
begin

text \<open>
  A node's Subscriptions (\<open>src/subscribing.rs\<close>, the bindings of \<open>src/subscribing/configured.rs\<close>) and the
  orders an operator leaves for them (\<open>src/operator_orders.rs\<close>). The runtime's publication, pickup and
  Ledger and the codec's fields are other crates': the parameters \<open>U\<close> over a world \<open>'w\<close> and \<open>Q\<close>.
\<close>

section \<open>What the runtime does\<close>

datatype journey_state = JourneyCompleted | JourneyFailed

record ('w, 'st, 'rel, 'jo) runtime_api =
  rn_publish :: "(string \<times> string) list \<Rightarrow> (string \<times> bool) list"
  rn_write_stream :: "bytes \<Rightarrow> 'w \<Rightarrow> (string + 'st) \<times> 'w"
  rn_ledger_publish :: "string \<Rightarrow> 'st \<Rightarrow> (string \<times> string) list \<Rightarrow> bytes \<Rightarrow> 'w \<Rightarrow> (string + nat \<times> nat) \<times> 'w"
  rn_released :: "'w \<Rightarrow> 'rel list \<times> 'w"
  rn_subscription :: "'rel \<Rightarrow> string"
  rn_body :: "'rel \<Rightarrow> bytes"
  rn_again :: "'rel \<Rightarrow> 'w \<Rightarrow> 'w"
  rn_unreadable :: "'rel \<Rightarrow> string \<Rightarrow> 'w \<Rightarrow> 'w"
  rn_read_journey :: "'rel \<Rightarrow> 'w \<Rightarrow> string + 'jo option"
  rn_last_message :: "'jo \<Rightarrow> 'st option"
  rn_read_whole :: "'st \<Rightarrow> 'w \<Rightarrow> string + bytes"
  rn_in_state :: "journey_state \<Rightarrow> 'jo \<Rightarrow> 'jo"
  rn_delivered :: "'rel \<Rightarrow> 'jo \<Rightarrow> 'w \<Rightarrow> (string + unit) \<times> 'w"
  rn_kept :: "'rel \<Rightarrow> 'jo \<Rightarrow> 'w \<Rightarrow> (string + unit) \<times> 'w"

record field_api =
  fd_text :: "string \<Rightarrow> bytes"
  fd_read_text :: "bytes \<Rightarrow> (string \<times> bytes) option"

text \<open>What is written as a field reads back as it, and leaves what follows.\<close>

definition fields_read_back :: "field_api \<Rightarrow> bool" where
  "fields_read_back Q \<longleftrightarrow> (\<forall>s rest. fd_read_text Q (fd_text Q s @ rest) = Some (s, rest))"

record subscribing =
  sg_published_at :: "(string \<times> string) list"

record ('rel, 'jo) picked =
  pk_handoff :: handoff
  pk_released :: 'rel
  pk_journey :: 'jo

section \<open>What is kept beside a held pair\<close>

definition said :: "field_api \<Rightarrow> handoff \<Rightarrow> bytes" where
  "said Q h =
     concat (map (fd_text Q) [hf_transport h, contract_name (hf_contract h), decimal (hf_round h), hf_from h])"

definition pair_of :: "field_api \<Rightarrow> bytes \<Rightarrow> bytes \<Rightarrow> handoff option" where
  "pair_of Q s bs =
     (case fd_read_text Q s of None \<Rightarrow> None | Some (transport, s) \<Rightarrow>
      case fd_read_text Q s of None \<Rightarrow> None | Some (name, s) \<Rightarrow>
      case fd_read_text Q s of None \<Rightarrow> None | Some (round, s) \<Rightarrow>
      case fd_read_text Q s of None \<Rightarrow> None | Some (from, s) \<Rightarrow>
      case contract_named name of None \<Rightarrow> None | Some c \<Rightarrow>
      case parse_unsigned 64 round of None \<Rightarrow> None | Some r \<Rightarrow>
        Some \<lparr>hf_transport = transport, hf_contract = c, hf_round = r, hf_from = from, hf_bytes = bs\<rparr>)"

section \<open>Starting\<close>

text \<open>Each Subscription's id with the first Receive Location of its Application, where it has one.\<close>

definition published_at :: "(string list \<times> string list) list \<Rightarrow> (string \<times> string) list" where
  "published_at designed =
     concat (map (\<lambda>(locations, ids). case locations of [] \<Rightarrow> [] | first # _ \<Rightarrow> map (\<lambda>i. (i, first)) ids) designed)"

text \<open>The nodes a configuration binds the Receive Locations and the Send Ports to, and the directory of
  each one's inbox.\<close>

definition configured_nodes :: "'cap capability_api \<Rightarrow> 'cap roster \<Rightarrow> string + string \<times> string" where
  "configured_nodes K R =
     (case roster_with K R Receive of
        [] \<Rightarrow> Inl ''no node declares receive''
      | receives # _ \<Rightarrow>
          (case roster_with K R Send of
             [] \<Rightarrow> Inl ''no node declares send''
           | sends # _ \<Rightarrow> Inr (receives, sends)))"

definition configured_inbox :: "node_api \<Rightarrow> string \<Rightarrow> string \<Rightarrow> stage \<Rightarrow> string" where
  "configured_inbox N shared to st = shared @ ''/handoff/'' @ to @ ''/'' @ stage_name N st"

section \<open>Routing\<close>

definition route_location :: "subscribing \<Rightarrow> (string \<times> bool) list \<Rightarrow> string" where
  "route_location S evaluations =
     (let own = (case find snd evaluations of
          Some (picked, _) \<Rightarrow> find (\<lambda>(i, _). i = picked) (sg_published_at S)
        | None \<Rightarrow> None) in
      case own of
        Some (_, location) \<Rightarrow> location
      | None \<Rightarrow> (case sg_published_at S of (_, location) # _ \<Rightarrow> location | [] \<Rightarrow> []))"

definition promoted :: "handoff \<Rightarrow> (string \<times> string) list" where
  "promoted h = [(''file.name'', file_name (hf_contract h) (hf_round h)), (''Transport'', hf_transport h)]"

definition subscribing_route ::
    "('w, 'st, 'rel, 'jo) runtime_api \<Rightarrow> field_api \<Rightarrow> subscribing \<Rightarrow> handoff \<Rightarrow> 'w \<Rightarrow> (string + bool) \<times> 'w" where
  "subscribing_route U Q S h w =
     (let location = route_location S (rn_publish U (promoted h)) in
      case rn_write_stream U (hf_bytes h) w of
        (Inl e, w) \<Rightarrow> (Inl e, w)
      | (Inr stream, w) \<Rightarrow>
          (case rn_ledger_publish U location stream (promoted h) (said Q h) w of
             (Inl e, w) \<Rightarrow> (Inl e, w)
           | (Inr (journeys, kept), w) \<Rightarrow> (Inr (journeys > kept), w)))"

section \<open>Letting go\<close>

text \<open>What a held pair read back comes to: the pair and its Journey, passed over (what was told the
  pickup of it), or an error.\<close>

definition read_back ::
    "('w, 'st, 'rel, 'jo) runtime_api \<Rightarrow> field_api \<Rightarrow> 'rel \<Rightarrow> 'w \<Rightarrow> (string + (handoff \<times> 'jo) option) \<times> 'w" where
  "read_back U Q released w =
     (case rn_read_journey U released w of
        Inl e \<Rightarrow> (Inl e, w)
      | Inr None \<Rightarrow> (Inr None, rn_unreadable U released ''its Journey does not read'' w)
      | Inr (Some j) \<Rightarrow>
          (case rn_last_message U j of
             None \<Rightarrow> (Inr None, rn_unreadable U released ''its Journey holds no Message'' w)
           | Some stream \<Rightarrow>
               (case rn_read_whole U stream w of
                  Inl e \<Rightarrow> (Inl e, w)
                | Inr bs \<Rightarrow>
                    (case pair_of Q (rn_body U released) bs of
                       None \<Rightarrow> (Inr None, rn_unreadable U released ''it is not a pair this node held'' w)
                     | Some h \<Rightarrow> (Inr (Some (h, j)), w)))))"

definition released_one ::
    "('w, 'st, 'rel, 'jo) runtime_api \<Rightarrow> field_api \<Rightarrow> 'rel \<Rightarrow> (('rel, 'jo) picked list \<times> string list) \<times> 'w
       \<Rightarrow> (('rel, 'jo) picked list \<times> string list) \<times> 'w" where
  "released_one U Q released = (\<lambda>((picked, stalled), w).
     if rn_subscription U released \<in> set stalled then ((picked, stalled), rn_again U released w)
     else (case read_back U Q released w of
         (Inr (Some (h, j)), w) \<Rightarrow>
           ((picked @ [\<lparr>pk_handoff = h, pk_released = released, pk_journey = j\<rparr>], stalled), w)
       | (Inr None, w) \<Rightarrow> ((picked, stalled), w)
       | (Inl _, w) \<Rightarrow> ((picked, stalled @ [rn_subscription U released]), rn_again U released w)))"

definition subscribing_released ::
    "('w, 'st, 'rel, 'jo) runtime_api \<Rightarrow> field_api \<Rightarrow> 'w \<Rightarrow> ('rel, 'jo) picked list \<times> 'w" where
  "subscribing_released U Q w =
     (let (released, w) = rn_released U w;
          ((picked, stalled), w) = fold (released_one U Q) released (([], []), w) in
      (picked, w))"

definition subscribing_done ::
    "('w, 'st, 'rel, 'jo) runtime_api \<Rightarrow> ('rel, 'jo) picked \<Rightarrow> string + unit \<Rightarrow> 'w \<Rightarrow> 'w" where
  "subscribing_done U p answer w =
     (let (written, w) = (case answer of
          Inr _ \<Rightarrow> rn_delivered U (pk_released p) (rn_in_state U JourneyCompleted (pk_journey p)) w
        | Inl _ \<Rightarrow> rn_kept U (pk_released p) (rn_in_state U JourneyFailed (pk_journey p)) w) in
      case written of Inl _ \<Rightarrow> rn_again U (pk_released p) w | Inr _ \<Rightarrow> w)"

text \<open>The Subscriptions a relay runs by (\<open>Relay\<close>), as this component provides them.\<close>

definition subscribing_of ::
    "('w, 'st, 'rel, 'jo) runtime_api \<Rightarrow> field_api \<Rightarrow> subscribing \<Rightarrow> ('w, ('rel, 'jo) picked) subscriptions" where
  "subscribing_of U Q S =
     \<lparr>sb_route = subscribing_route U Q S, sb_released = subscribing_released U Q, sb_handoff = pk_handoff,
      sb_done = subscribing_done U\<rparr>"

section \<open>The operator's orders\<close>

datatype noun = Event_Subscription | Subscription | Dead_Message | Message

record 'act order =
  or_noun :: noun
  or_target :: string
  or_act :: 'act
  or_who :: string

text \<open>What takes an order: the hub's Event subscriptions, and the node's Subscriptions and Dead Message
  Queue where it routes.\<close>

record ('w, 'act) acting =
  ac_eventing :: "string \<Rightarrow> 'act \<Rightarrow> string \<Rightarrow> 'w \<Rightarrow> (string + string) \<times> 'w"
  ac_subscribing :: "(string \<Rightarrow> 'act \<Rightarrow> string \<Rightarrow> 'w \<Rightarrow> (string + string) \<times> 'w) option"
  ac_replay :: "string \<Rightarrow> string \<Rightarrow> 'w \<Rightarrow> (string + string) \<times> 'w"
  ac_fail :: "string \<Rightarrow> 'w \<Rightarrow> 'w"

definition apply_order ::
    "('w, 'act) acting \<Rightarrow> string \<Rightarrow> string + 'act order \<Rightarrow> 'w \<Rightarrow> (string + string) \<times> 'w" where
  "apply_order A node found w =
     (case found of
        Inl problem \<Rightarrow> (Inl (''an order no node can take: '' @ problem), w)
      | Inr r \<Rightarrow>
          (case (or_noun r, ac_subscribing A) of
             (Event_Subscription, _) \<Rightarrow> ac_eventing A (or_target r) (or_act r) (or_who r) w
           | (Subscription, Some act) \<Rightarrow> act (or_target r) (or_act r) (or_who r) w
           | (Subscription, None) \<Rightarrow>
               (Inl (''REFUSED: '' @ node @ '' routes by no Subscription; the Subscription '' @ [CHR 0x27] @ or_target r
                 @ [CHR 0x27] @ '' is configured on another node''), w)
           | (Dead_Message, Some _) \<Rightarrow> ac_replay A (or_target r) (or_who r) w
           | (Message, _) \<Rightarrow>
               (Inl (''REFUSED: '' @ node @ '' sends no Message from the Ledger, so the Message of the Journey ''
                 @ or_target r @ '' is retried or dismissed on the node that sends it''), w)
           | (Dead_Message, None) \<Rightarrow>
               (Inl (''REFUSED: '' @ node @ '' routes nothing, so its Dead Message Queue keeps no Message ''
                 @ or_target r), w)))"

definition take_orders :: "('w, 'act) acting \<Rightarrow> string \<Rightarrow> (string + 'act order) list \<Rightarrow> 'w \<Rightarrow> 'w" where
  "take_orders A node found =
     fold (\<lambda>one w. case apply_order A node one w of (Inl problem, w) \<Rightarrow> ac_fail A problem w | (Inr _, w) \<Rightarrow> w) found"

section \<open>A held pair comes back as it was\<close>

lemma pair_of_said:
  assumes "fields_read_back Q" and "hf_round h < 2 ^ 64"
  shows "pair_of Q (said Q h) (hf_bytes h) = Some h"
proof -
  have read: "fd_read_text Q (fd_text Q s @ rest) = Some (s, rest)" for s rest
    using assms(1) by (simp add: fields_read_back_def)
  have "fd_read_text Q (fd_text Q s) = Some (s, [])" for s using read [of s "[]"] by simp
  then show ?thesis
    using parse_unsigned_decimal [OF assms(2)] by (simp add: pair_of_def said_def read)
qed

text \<open>What a paused Subscription holds is let go as the very pair it was: where the Ledger still gives the
  Journey, its Message and the Stream that were kept for a pair, and the pickup what was said of it,
  the node reads back that pair, every field and every byte, and changes nothing in reading it.\<close>

theorem held_pair_comes_back:
  assumes "fields_read_back Q" and "hf_round h < 2 ^ 64"
    and "rn_body U released = said Q h" and "rn_read_journey U released w = Inr (Some j)"
    and "rn_last_message U j = Some stream" and "rn_read_whole U stream w = Inr (hf_bytes h)"
  shows "read_back U Q released w = (Inr (Some (h, j)), w)"
  using pair_of_said [OF assms(1,2)] assms(3-6) by (simp add: read_back_def)

section \<open>What is let go, in order\<close>

text \<open>What the loop makes of each of those let go of: handed on, passed over, or kept for later; and the
  subscriptions stalled and the world it leaves for the rest.\<close>

datatype ('rel, 'jo) fate = HandedOn "('rel, 'jo) picked" | PassedOver | KeptForLater

fun fates ::
    "('w, 'st, 'rel, 'jo) runtime_api \<Rightarrow> field_api \<Rightarrow> 'rel list \<Rightarrow> string set \<Rightarrow> 'w \<Rightarrow> ('rel, 'jo) fate list \<times> 'w" where
  "fates U Q [] stalled w = ([], w)"
| "fates U Q (r # rs) stalled w =
     (if rn_subscription U r \<in> stalled
      then (case fates U Q rs stalled (rn_again U r w) of (fs, w) \<Rightarrow> (KeptForLater # fs, w))
      else (case read_back U Q r w of
          (Inr (Some (h, j)), w) \<Rightarrow>
            (case fates U Q rs stalled w of
               (fs, w) \<Rightarrow> (HandedOn \<lparr>pk_handoff = h, pk_released = r, pk_journey = j\<rparr> # fs, w))
        | (Inr None, w) \<Rightarrow> (case fates U Q rs stalled w of (fs, w) \<Rightarrow> (PassedOver # fs, w))
        | (Inl _, w) \<Rightarrow>
            (case fates U Q rs (insert (rn_subscription U r) stalled) (rn_again U r w) of
               (fs, w) \<Rightarrow> (KeptForLater # fs, w))))"

abbreviation handed_on :: "('rel, 'jo) fate list \<Rightarrow> ('rel, 'jo) picked list" where
  "handed_on \<equiv> List.map_filter (\<lambda>f. case f of HandedOn p \<Rightarrow> Some p | _ \<Rightarrow> None)"

lemma read_back_cases:
  obtains (error) e v where "read_back U Q r w = (Inl e, v)"
    | (passed) v where "read_back U Q r w = (Inr None, v)"
    | (read) h j v where "read_back U Q r w = (Inr (Some (h, j)), v)"
proof (cases "read_back U Q r w")
  case (Pair a v)
  then show thesis using that by (cases a; cases "projr a") auto
qed

lemma released_is_fates:
  assumes "fates U Q rs (set stalled) w = (fs, v)"
  shows "\<exists>st. fold (released_one U Q) rs ((picked, stalled), w) = ((picked @ handed_on fs, st), v)"
  using assms
proof (induction rs arbitrary: picked stalled w fs)
  case Nil
  then show ?case by (simp add: map_filter_def)
next
  case (Cons r rs)
  let ?f = "released_one U Q r ((picked, stalled), w)"
  show ?case
  proof (cases "rn_subscription U r \<in> set stalled")
    case True
    then obtain gs where gs: "fates U Q rs (set stalled) (rn_again U r w) = (gs, v)" "fs = KeptForLater # gs"
      using Cons.prems by (auto split: prod.splits)
    have "?f = ((picked, stalled), rn_again U r w)" using True by (simp add: released_one_def)
    with Cons.IH [OF gs(1), of picked] show ?thesis by (simp add: gs(2) map_filter_simps)
  next
    case False
    show ?thesis
    proof (cases rule: read_back_cases [of U Q r w])
      case (error e u)
      then obtain gs where gs: "fates U Q rs (set (stalled @ [rn_subscription U r])) (rn_again U r u) = (gs, v)"
          "fs = KeptForLater # gs"
        using Cons.prems False by (auto split: prod.splits)
      have "?f = ((picked, stalled @ [rn_subscription U r]), rn_again U r u)"
        using False error by (simp add: released_one_def)
      with Cons.IH [OF gs(1), of picked] show ?thesis by (simp add: gs(2) map_filter_simps)
    next
      case (passed u)
      then obtain gs where gs: "fates U Q rs (set stalled) u = (gs, v)" "fs = PassedOver # gs"
        using Cons.prems False by (auto split: prod.splits)
      have "?f = ((picked, stalled), u)" using False passed by (simp add: released_one_def)
      with Cons.IH [OF gs(1), of picked] show ?thesis by (simp add: gs(2) map_filter_simps)
    next
      case (read h j u)
      let ?p = "\<lparr>pk_handoff = h, pk_released = r, pk_journey = j\<rparr>"
      from read obtain gs where gs: "fates U Q rs (set stalled) u = (gs, v)" "fs = HandedOn ?p # gs"
        using Cons.prems False by (auto split: prod.splits)
      have "?f = ((picked @ [?p], stalled), u)" using False read by (simp add: released_one_def)
      with Cons.IH [OF gs(1), of "picked @ [?p]"] show ?thesis by (simp add: gs(2) map_filter_simps)
    qed
  qed
qed

text \<open>A fate is the one read back for it, and a subscription once stalled stays so.\<close>

fun fate_of :: "'rel \<Rightarrow> ('rel, 'jo) fate \<Rightarrow> bool" where
  "fate_of r (HandedOn p) \<longleftrightarrow> pk_released p = r"
| "fate_of r _ \<longleftrightarrow> True"

fun stalls_kept :: "('rel \<Rightarrow> string) \<Rightarrow> string set \<Rightarrow> 'rel list \<Rightarrow> ('rel, 'jo) fate list \<Rightarrow> bool" where
  "stalls_kept sub stalled [] fs \<longleftrightarrow> fs = []"
| "stalls_kept sub stalled (r # rs) [] \<longleftrightarrow> False"
| "stalls_kept sub stalled (r # rs) (f # fs) \<longleftrightarrow>
     fate_of r f \<and> (sub r \<in> stalled \<longrightarrow> f = KeptForLater)
     \<and> stalls_kept sub (if f = KeptForLater then insert (sub r) stalled else stalled) rs fs"

lemma fates_stalls_kept:
  assumes "fates U Q rs stalled w = (fs, v)"
  shows "stalls_kept (rn_subscription U) stalled rs fs"
  using assms
proof (induction rs arbitrary: stalled w fs)
  case (Cons r rs)
  show ?case
  proof (cases "rn_subscription U r \<in> stalled")
    case True
    then show ?thesis using Cons by (auto simp: insert_absorb split: prod.splits)
  next
    case False
    show ?thesis
      by (cases rule: read_back_cases [of U Q r w]) (use Cons False in \<open>auto split: prod.splits\<close>)
  qed
qed simp

lemma stalled_later:
  "stalls_kept sub stalled rs fs \<Longrightarrow> i < length rs \<Longrightarrow> sub (rs ! i) \<in> stalled \<Longrightarrow> fs ! i = KeptForLater"
proof (induction sub stalled rs fs arbitrary: i rule: stalls_kept.induct)
  case (3 sub stalled r rs f fs)
  then show ?case by (cases i) auto
qed auto

lemma stalls_kept_fates:
  assumes "stalls_kept sub stalled rs fs"
  shows "length fs = length rs"
    and "i < length rs \<Longrightarrow> sub (rs ! i) \<in> stalled \<Longrightarrow> fs ! i = KeptForLater"
    and "i < length rs \<Longrightarrow> fate_of (rs ! i) (fs ! i)"
    and "i < length rs \<Longrightarrow> k < i \<Longrightarrow> fs ! k = KeptForLater \<Longrightarrow> sub (rs ! k) = sub (rs ! i) \<Longrightarrow> fs ! i = KeptForLater"
proof -
  show "length fs = length rs"
    using assms by (induction sub stalled rs fs rule: stalls_kept.induct) auto
  show "i < length rs \<Longrightarrow> sub (rs ! i) \<in> stalled \<Longrightarrow> fs ! i = KeptForLater"
    using assms by (rule stalled_later)
  show "i < length rs \<Longrightarrow> fate_of (rs ! i) (fs ! i)"
    using assms
  proof (induction sub stalled rs fs arbitrary: i rule: stalls_kept.induct)
    case (3 sub stalled r rs f fs)
    then show ?case by (cases i) auto
  qed auto
  show "i < length rs \<Longrightarrow> k < i \<Longrightarrow> fs ! k = KeptForLater \<Longrightarrow> sub (rs ! k) = sub (rs ! i) \<Longrightarrow> fs ! i = KeptForLater"
    using assms
  proof (induction sub stalled rs fs arbitrary: i k rule: stalls_kept.induct)
    case (3 sub stalled r rs f fs)
    show ?case
    proof (cases i)
      case (Suc i')
      show ?thesis
      proof (cases k)
        case 0
        then have f: "f = KeptForLater" and mem: "sub (rs ! i') \<in> insert (sub r) stalled"
          using 3(4,5) Suc by auto
        from f 3(6) have "stalls_kept sub (insert (sub r) stalled) rs fs" by simp
        from stalled_later [OF this _ mem] 3(2) Suc show ?thesis by simp
      next
        case (Suc k')
        then show ?thesis using 3 \<open>i = Suc i'\<close> by auto
      qed
    qed (use 3 in auto)
  qed auto
qed


text \<open>A field as one byte of length and its text, which is enough to write the names of a pair.\<close>

definition example_runtime :: "(unit, bytes, nat, nat) runtime_api" where
  "example_runtime =
     \<lparr>rn_publish = (\<lambda>promoted. [(''s'', True)]), rn_write_stream = (\<lambda>bs w. (Inr bs, w)),
      rn_ledger_publish = (\<lambda>location st promoted body w. (Inr (1, 0), w)), rn_released = (\<lambda>w. ([0, 1, 2], w)),
      rn_subscription = (\<lambda>r. ''s''), rn_body = (\<lambda>r. []), rn_again = (\<lambda>r w. w), rn_unreadable = (\<lambda>r why w. w),
      rn_read_journey = (\<lambda>r w. if r = 1 then Inl ''no'' else Inr None), rn_last_message = (\<lambda>j. None),
      rn_read_whole = (\<lambda>st w. Inr st), rn_in_state = (\<lambda>s j. j), rn_delivered = (\<lambda>r j w. (Inr (), w)),
      rn_kept = (\<lambda>r j w. (Inr (), w))\<rparr>"

definition example_fields :: field_api where
  "example_fields =
     \<lparr>fd_text = (\<lambda>s. replicate (length s) (CHR 0x01) @ [CHR 0x00] @ s),
      fd_read_text = (\<lambda>bs. let n = length (takeWhile (\<lambda>b. b = CHR 0x01) bs); rest = drop (n + 1) bs in
         Some (take n rest, drop n rest))\<rparr>"

lemma example_fields_read_back: "fields_read_back example_fields"
proof -
  have "takeWhile (\<lambda>b. b = CHR 0x01) (replicate n (CHR 0x01) @ CHR 0x00 # t) = replicate n (CHR 0x01)" for n t
    by (induction n) auto
  then show ?thesis by (simp add: fields_read_back_def example_fields_def)
qed

theorem held_pair_comes_back_witness:
  "read_back (example_runtime\<lparr>rn_body := \<lambda>r. said example_fields example_handoff,
       rn_read_journey := \<lambda>r w. Inr (Some 4), rn_last_message := \<lambda>j. Some (hf_bytes example_handoff)\<rparr>)
     example_fields 0 () = (Inr (Some (example_handoff, 4)), ())"
  by (rule held_pair_comes_back [OF example_fields_read_back])
    (simp_all add: example_handoff_def example_runtime_def)


end
