(* ===== verification/Carried.thy ===== *)
theory Carried
  imports Ledger
begin

text \<open>
  What nodes carry through real Locations (\<open>src/carried.rs\<close>): a file dropped into each Receive Location
  each round, the arrivals told, and the judgment of what arrived, is awaited, overdue or lost. Time is
  nanoseconds of a clock that never goes back; writing a drop is an argument, the error where it failed.
\<close>

section \<open>Drops and arrivals\<close>

definition GRACE_NANOS :: nat where
  "GRACE_NANOS = 5000000000"

definition LOST_NANOS :: nat where
  "LOST_NANOS = 60000000000"

type_synonym arrivals = "(string, nat) btree"

record carried_run =
  cd_drops :: "string list"
  cd_dropped :: "(string, nat) btree"
  cd_arrived :: arrivals
  cd_next :: nat

datatype spot_side = DropSide string | ArrivalSide string

text \<open>The bindings driven: a Receive Location is a drop, by the name of its placement.\<close>

definition carried_new :: "spot_side list \<Rightarrow> arrivals \<Rightarrow> carried_run" where
  "carried_new bindings arrived =
     \<lparr>cd_drops = List.map_filter (\<lambda>b. case b of DropSide name \<Rightarrow> Some name | ArrivalSide _ \<Rightarrow> None) bindings,
      cd_dropped = [], cd_arrived = arrived, cd_next = 0\<rparr>"

text \<open>\<open>entry(name).or_insert(now)\<close>: when it was first seen.\<close>

definition first_seen :: "nat \<Rightarrow> string \<Rightarrow> arrivals \<Rightarrow> arrivals" where
  "first_seen now name arrived =
     (case btree_get arrived name of None \<Rightarrow> btree_insert name now arrived | Some _ \<Rightarrow> arrived)"

definition carried_seen :: "string list \<Rightarrow> nat \<Rightarrow> arrivals \<Rightarrow> arrivals" where
  "carried_seen folder now arrived =
     fold (first_seen now) (filter (\<lambda>name. \<not> contains ''.xmip-'' name) folder) arrived"

definition carried_told :: "string \<Rightarrow> nat \<Rightarrow> arrivals \<Rightarrow> arrivals" where
  "carried_told name now arrived = first_seen now name arrived"

section \<open>A round\<close>

definition drop_name :: "nat \<Rightarrow> string" where
  "drop_name next' = file_name (CONTRACTS ! (next' mod length CONTRACTS)) next'"

fun drop_each ::
    "(string \<Rightarrow> string \<Rightarrow> string option) \<Rightarrow> nat \<Rightarrow> string list \<Rightarrow> carried_run \<times> string list \<Rightarrow> carried_run \<times> string list" where
  "drop_each refuses at [] S = S"
| "drop_each refuses at (placement # drops) (C, failed) =
     (let name = drop_name (cd_next C);
          C = C\<lparr>cd_next := cd_next C + 1\<rparr> in
      drop_each refuses at drops
        (case refuses placement name of
           None \<Rightarrow> (C\<lparr>cd_dropped := btree_insert name at (cd_dropped C)\<rparr>, failed)
         | Some e \<Rightarrow> (C, failed @ [name @ '' into '' @ placement @ '': '' @ e])))"

record carried_sums =
  cs_took :: "nat list"
  cs_overdue :: "string list"
  cs_lost :: "string list"

definition carried_sum :: "arrivals \<Rightarrow> nat \<Rightarrow> string \<times> nat \<Rightarrow> carried_sums \<Rightarrow> carried_sums" where
  "carried_sum arrived at = (\<lambda>(name, dropped) S.
     case btree_get arrived name of
       Some seen \<Rightarrow> S\<lparr>cs_took := cs_took S @ [seen - dropped]\<rparr>
     | None \<Rightarrow>
         if at - dropped \<ge> LOST_NANOS then S\<lparr>cs_lost := cs_lost S @ [name]\<rparr>
         else if at - dropped \<ge> GRACE_NANOS then S\<lparr>cs_overdue := cs_overdue S @ [name]\<rparr>
         else S)"

definition carried_sums_of :: "arrivals \<Rightarrow> nat \<Rightarrow> (string, nat) btree \<Rightarrow> carried_sums" where
  "carried_sums_of arrived at dropped =
     fold (carried_sum arrived at) dropped \<lparr>cs_took = [], cs_overdue = [], cs_lost = []\<rparr>"

definition carried_spoken :: "(nat \<Rightarrow> string) \<Rightarrow> nat list \<Rightarrow> string" where
  "carried_spoken shows took =
     (case sort took of
        [] \<Rightarrow> []
      | fastest # rest \<Rightarrow> ''; from its drop to its arrival '' @ shows fastest @ '' the fastest, ''
          @ shows (sort took ! (length took div 2)) @ '' the median'')"

definition carried_record :: "(nat \<Rightarrow> string) \<Rightarrow> string \<Rightarrow> string list \<Rightarrow> nat \<Rightarrow> int \<Rightarrow> carried_run \<Rightarrow> health_record" where
  "carried_record shows root failed at now C =
     (let S = carried_sums_of (cd_arrived C) at (cd_dropped C);
          carried = decimal (length (cs_took S)) @ '' of '' @ decimal (length (cd_dropped C))
            @ '' file(s) dropped carried, each through a receiving node, Xmip Storage over the wire and a sending node''
            @ carried_spoken shows (cs_took S);
          (h, said) =
            (if failed \<noteq> [] then (Done, ''not dropped: '' @ join ''; '' failed @ ''; '' @ carried)
             else if cs_lost S \<noteq> []
             then (Done, decimal (length (cs_lost S)) @ '' lost, '' @ join '', '' (take 5 (cs_lost S)) @ '': '' @ carried)
             else if cs_overdue S \<noteq> []
             then (Stressed, decimal (length (cs_overdue S)) @ '' overdue past '' @ shows GRACE_NANOS @ '': '' @ carried)
             else (Fine, carried)) in
      \<lparr>hr_scope = root @ ''/carried'', hr_health = h, hr_severity = 0, hr_evidence = said, hr_observed = now\<rparr>)"

text \<open>The drops of a round are written at \<open>at\<close> and it is judged at \<open>judged\<close>.\<close>

definition carried_round ::
    "(nat \<Rightarrow> string) \<Rightarrow> (string \<Rightarrow> string \<Rightarrow> string option) \<Rightarrow> string \<Rightarrow> nat \<Rightarrow> nat \<Rightarrow> int \<Rightarrow> carried_run
       \<Rightarrow> carried_run \<times> health_record" where
  "carried_round shows refuses root at judged now C =
     (let (C, failed) = drop_each refuses at (cd_drops C) (C, []) in
      (C, carried_record shows root failed judged now C))"

definition carried_words :: "carried_run \<Rightarrow> string" where
  "carried_words C =
     decimal (length (filter (\<lambda>name. btree_get (cd_arrived C) name \<noteq> None) (map fst (cd_dropped C))))
       @ '' of '' @ decimal (length (cd_dropped C)) @ '' carried''"

text \<open>The wait at the end: asked at each of \<open>asked\<close>, whether every file dropped has arrived by then;
  it ends at the first yes, and without one at the deadline.\<close>

fun carried_settles :: "(nat \<Rightarrow> arrivals) \<Rightarrow> nat \<Rightarrow> (string, nat) btree \<Rightarrow> nat list \<Rightarrow> bool" where
  "carried_settles arrived deadline dropped [] \<longleftrightarrow> False"
| "carried_settles arrived deadline dropped (t # asked) \<longleftrightarrow>
     t < deadline \<and> (list_all (\<lambda>(name, _). btree_get (arrived t) name \<noteq> None) dropped
       \<or> carried_settles arrived deadline dropped asked)"

section \<open>The names of the files dropped\<close>

lemma decimal_no_dash: "CHR ''-'' \<notin> set (decimal n)"
proof
  assume "CHR ''-'' \<in> set (decimal n)"
  then have "is_digit (CHR ''-'')" using list_all_is_digit_decimal [of n] by (simp add: list_all_iff)
  then show False by (simp add: is_digit_def)
qed

lemma file_name_number: "digits_value (rev (takeWhile (\<lambda>b. b \<noteq> CHR ''-'') (rev (file_name c n)))) = n"
proof -
  have "takeWhile (\<lambda>b. b \<noteq> CHR ''-'') (rev (decimal n) @ CHR ''-'' # rev (contract_name c)) = rev (decimal n)"
    using decimal_no_dash [of n] by (subst takeWhile_append2) auto
  then show ?thesis by (simp add: file_name_def digits_value_decimal)
qed

lemma drop_name_inj: "drop_name i = drop_name k \<longleftrightarrow> i = k"
  unfolding drop_name_def by (metis file_name_number)

section \<open>The judgment\<close>

definition awaited :: "arrivals \<Rightarrow> nat \<Rightarrow> string \<times> nat \<Rightarrow> bool" where
  "awaited arrived late = (\<lambda>(name, age). btree_get arrived name = None \<and> late \<le> age)"

lemma carried_sums_parts:
  "fold (carried_sum arrived at) dropped S =
     \<lparr>cs_took = cs_took S @ map (\<lambda>(name, t). the (btree_get arrived name) - t)
        (filter (\<lambda>(name, t). btree_get arrived name \<noteq> None) dropped),
      cs_overdue = cs_overdue S @ map fst (filter (\<lambda>(name, t). btree_get arrived name = None
        \<and> GRACE_NANOS \<le> at - t \<and> at - t < LOST_NANOS) dropped),
      cs_lost = cs_lost S @ map fst (filter (\<lambda>(name, t). btree_get arrived name = None \<and> LOST_NANOS \<le> at - t) dropped)\<rparr>"
  by (induction dropped arbitrary: S) (auto simp: carried_sum_def split: option.splits)

lemma drop_each_fields:
  "cd_drops (fst (drop_each refuses at ds X)) = cd_drops (fst X)"
  "cd_arrived (fst (drop_each refuses at ds X)) = cd_arrived (fst X)"
  "cd_next (fst (drop_each refuses at ds X)) = cd_next (fst X) + length ds"
proof (induction ds arbitrary: X)
  case (Cons d ds)
  {
    case 1
    then show ?case by (cases X) (simp add: Cons Let_def split: option.splits)
  next
    case 2
    then show ?case by (cases X) (simp add: Cons Let_def split: option.splits)
  next
    case 3
    then show ?case by (cases X) (simp add: Cons Let_def split: option.splits)
  }
qed simp_all

lemma drop_each_failed:
  "snd (drop_each refuses at ds X) = [] \<longleftrightarrow>
     snd X = [] \<and> (\<forall>i<length ds. refuses (ds ! i) (drop_name (cd_next (fst X) + i)) = None)"
proof (induction ds arbitrary: X)
  case (Cons d ds)
  obtain C failed where X: "X = (C, failed)" by (cases X)
  have "(\<forall>i<length (d # ds). refuses ((d # ds) ! i) (drop_name (cd_next C + i)) = None) \<longleftrightarrow>
      refuses d (drop_name (cd_next C)) = None \<and> (\<forall>i<length ds. refuses (ds ! i) (drop_name (cd_next C + 1 + i)) = None)"
    by (auto simp: less_Suc_eq_0_disj)
  then show ?case
    by (simp add: X Let_def Cons split: option.splits)
qed simp

lemma filter_Nil_list_ex: "filter P xs = [] \<longleftrightarrow> \<not> list_ex P xs"
  by (induction xs) auto

lemma list_ex_weaken: "list_ex P xs \<Longrightarrow> (\<And>x. P x \<Longrightarrow> Q x) \<Longrightarrow> list_ex Q xs"
  by (induction xs) auto

lemma health_of_sums:
  "hr_health (carried_record shows root failed at now C) =
     (if failed \<noteq> [] \<or> list_ex (\<lambda>(name, t). btree_get (cd_arrived C) name = None \<and> LOST_NANOS \<le> at - t) (cd_dropped C)
      then Done
      else if list_ex (\<lambda>(name, t). btree_get (cd_arrived C) name = None \<and> GRACE_NANOS \<le> at - t) (cd_dropped C)
      then Stressed else Fine)"
proof -
  have "carried_sums_of (cd_arrived C) at (cd_dropped C) =
     \<lparr>cs_took = map (\<lambda>(name, t). the (btree_get (cd_arrived C) name) - t)
        (filter (\<lambda>(name, t). btree_get (cd_arrived C) name \<noteq> None) (cd_dropped C)),
      cs_overdue = map fst (filter (\<lambda>(name, t). btree_get (cd_arrived C) name = None
        \<and> GRACE_NANOS \<le> at - t \<and> at - t < LOST_NANOS) (cd_dropped C)),
      cs_lost = map fst (filter (\<lambda>(name, t). btree_get (cd_arrived C) name = None \<and> LOST_NANOS \<le> at - t) (cd_dropped C))\<rparr>"
    by (simp add: carried_sums_of_def carried_sums_parts)
  moreover have "filter (\<lambda>(name, t). btree_get (cd_arrived C) name = None \<and> GRACE_NANOS \<le> at - t \<and> at - t < LOST_NANOS)
      (cd_dropped C) = [] \<longleftrightarrow>
      \<not> list_ex (\<lambda>(name, t). btree_get (cd_arrived C) name = None \<and> GRACE_NANOS \<le> at - t) (cd_dropped C)"
    if "\<not> list_ex (\<lambda>(name, t). btree_get (cd_arrived C) name = None \<and> LOST_NANOS \<le> at - t) (cd_dropped C)"
    using that by (fastforce simp: list_ex_iff filter_empty_conv not_le)
  ultimately show ?thesis
    by (simp add: carried_record_def Let_def filter_Nil_list_ex split: prod.splits)
qed

text \<open>A round is red exactly when one of its files could not be dropped or a file dropped in any round has
  not arrived and is past the bound at which it is lost; it is yellow exactly when it is not red and
  one that has not arrived is past its grace; and it is green exactly when every file dropped arrived
  or is younger than its grace.\<close>

theorem carried_round_judged:
  "let (C', r) = carried_round shows refuses root at judged now C;
       late = (\<lambda>bound. list_ex (\<lambda>(name, t). btree_get (cd_arrived C) name = None \<and> bound \<le> judged - t) (cd_dropped C'));
       refused = list_ex (\<lambda>i. refuses (cd_drops C ! i) (drop_name (cd_next C + i)) \<noteq> None) [0..<length (cd_drops C)] in
     (hr_health r = Done \<longleftrightarrow> refused \<or> late LOST_NANOS)
   \<and> (hr_health r = Stressed \<longleftrightarrow> \<not> refused \<and> \<not> late LOST_NANOS \<and> late GRACE_NANOS)
   \<and> (hr_health r = Fine \<longleftrightarrow> \<not> refused \<and> \<not> late GRACE_NANOS)
   \<and> hr_scope r = root @ ''/carried''"
proof -
  obtain C' failed where d: "drop_each refuses at (cd_drops C) (C, []) = (C', failed)"
    by (cases "drop_each refuses at (cd_drops C) (C, [])")
  have arrived: "cd_arrived C' = cd_arrived C"
    using drop_each_fields(2) [of refuses at "cd_drops C" "(C, [])"] by (simp add: d)
  have failed: "failed \<noteq> [] \<longleftrightarrow>
      list_ex (\<lambda>i. refuses (cd_drops C ! i) (drop_name (cd_next C + i)) \<noteq> None) [0..<length (cd_drops C)]"
    using drop_each_failed [of refuses at "cd_drops C" "(C, [])"] by (auto simp: d list_ex_iff)
  have late: "list_ex (\<lambda>(name, t). btree_get (cd_arrived C) name = None \<and> GRACE_NANOS \<le> judged - t) (cd_dropped C')"
    if "list_ex (\<lambda>(name, t). btree_get (cd_arrived C) name = None \<and> LOST_NANOS \<le> judged - t) (cd_dropped C')"
    using that by (rule list_ex_weaken) (auto simp: LOST_NANOS_def GRACE_NANOS_def)
  have "hr_scope (carried_record shows root failed judged now C') = root @ ''/carried''"
    by (simp add: carried_record_def Let_def split: prod.splits)
  with late show ?thesis
    unfolding carried_round_def d Let_def prod.case failed [symmetric] health_of_sums arrived by auto
qed

section \<open>Nothing dropped is forgotten\<close>

datatype carried_event =
    CarriedRound "string \<Rightarrow> string \<Rightarrow> string option" nat
  | CarriedTold string nat
  | CarriedSeen "string list" nat

fun carried_after :: "carried_event \<Rightarrow> carried_run \<times> string list \<Rightarrow> carried_run \<times> string list" where
  "carried_after (CarriedRound refuses at) (C, failed) =
     (let (C, more) = drop_each refuses at (cd_drops C) (C, []) in (C, failed @ more))"
| "carried_after (CarriedTold name at) (C, failed) = (C\<lparr>cd_arrived := carried_told name at (cd_arrived C)\<rparr>, failed)"
| "carried_after (CarriedSeen folder at) (C, failed) = (C\<lparr>cd_arrived := carried_seen folder at (cd_arrived C)\<rparr>, failed)"

definition dropped_inv :: "carried_run \<times> string list \<Rightarrow> bool" where
  "dropped_inv = (\<lambda>(C, failed).
     btree_wf (cd_dropped C) \<and> fst ` set (cd_dropped C) \<subseteq> drop_name ` {..<cd_next C}
     \<and> length (cd_dropped C) + length failed = cd_next C)"

lemma btree_insert_fresh: "k \<notin> fst ` set m \<Longrightarrow> length (btree_insert k v m) = length m + 1"
  by (induction k v m rule: btree_insert.induct) auto

lemma btree_get_mem: "btree_get m k = Some v \<Longrightarrow> k \<in> fst ` set m"
  unfolding btree_get_def by (force dest: map_of_SomeD)

lemma drop_each_inv:
  assumes "dropped_inv (C, failed)"
  shows "dropped_inv (drop_each refuses at ds (C, failed))
    \<and> (\<forall>name t. btree_get (cd_dropped C) name = Some t \<longrightarrow>
         btree_get (cd_dropped (fst (drop_each refuses at ds (C, failed)))) name = Some t)"
  using assms
proof (induction ds arbitrary: C failed)
  case (Cons d ds)
  let ?name = "drop_name (cd_next C)"
  have fresh: "?name \<notin> fst ` set (cd_dropped C)"
    using Cons.prems by (auto simp: dropped_inv_def drop_name_inj dest!: subsetD)
  show ?case
  proof (cases "refuses d ?name")
    case None
    let ?C = "C\<lparr>cd_next := cd_next C + 1, cd_dropped := btree_insert ?name at (cd_dropped C)\<rparr>"
    have "dropped_inv (?C, failed)"
      using Cons.prems fresh
      by (auto simp: dropped_inv_def btree_wf_insert fst_set_btree_insert btree_insert_fresh lessThan_Suc)
    moreover have "btree_get (cd_dropped ?C) name = Some t" if "btree_get (cd_dropped C) name = Some t" for name t
    proof -
      have "name \<noteq> ?name" using that fresh btree_get_mem by metis
      with that show ?thesis by (simp add: btree_get_insert)
    qed
    ultimately show ?thesis using Cons.IH [of ?C failed] None by (simp add: Let_def)
  next
    case (Some e)
    let ?C = "C\<lparr>cd_next := cd_next C + 1\<rparr>"
    have "dropped_inv (?C, failed @ [?name @ '' into '' @ d @ '': '' @ e])"
      using Cons.prems by (auto simp: dropped_inv_def lessThan_Suc)
    from Cons.IH [OF this] Some show ?thesis by (simp add: Let_def)
  qed
qed simp

lemma drop_each_append:
  "drop_each refuses at ds (C, failed) =
     (fst (drop_each refuses at ds (C, [])), failed @ snd (drop_each refuses at ds (C, [])))"
proof (induction ds arbitrary: C failed)
  case (Cons d ds)
  show ?case
  proof (cases "refuses d (drop_name (cd_next C))")
    case None
    then show ?thesis
      using Cons [of "C\<lparr>cd_next := cd_next C + 1, cd_dropped := btree_insert (drop_name (cd_next C)) at (cd_dropped C)\<rparr>" failed]
      by (simp add: Let_def)
  next
    case (Some e)
    let ?C = "C\<lparr>cd_next := cd_next C + 1\<rparr>"
    let ?e = "drop_name (cd_next C) @ '' into '' @ d @ '': '' @ e"
    show ?thesis
      using Cons [of ?C "failed @ [?e]"] Cons [of ?C "[?e]"] Some by (simp add: Let_def)
  qed
qed simp

lemma first_seen_keeps: "btree_get arrived name = Some t \<Longrightarrow> btree_get (first_seen now other arrived) name = Some t"
  by (auto simp: first_seen_def btree_get_insert split: option.splits)

lemma carried_seen_keeps: "btree_get arrived name = Some t \<Longrightarrow> btree_get (carried_seen folder now arrived) name = Some t"
  unfolding carried_seen_def
  by (induction "filter (\<lambda>name. \<not> contains ''.xmip-'' name) folder" arbitrary: folder arrived)
    (simp_all add: fold_invariant [where P = "\<lambda>a. btree_get a name = Some t" and Q = "\<lambda>_. True"] first_seen_keeps)

lemma carried_after_inv:
  assumes "dropped_inv X"
  shows "dropped_inv (carried_after e X)
    \<and> (\<forall>name t. btree_get (cd_dropped (fst X)) name = Some t \<longrightarrow> btree_get (cd_dropped (fst (carried_after e X))) name = Some t)
    \<and> (\<forall>name t. btree_get (cd_arrived (fst X)) name = Some t \<longrightarrow> btree_get (cd_arrived (fst (carried_after e X))) name = Some t)
    \<and> cd_drops (fst (carried_after e X)) = cd_drops (fst X)
    \<and> cd_next (fst (carried_after e X)) =
        cd_next (fst X) + (case e of CarriedRound _ _ \<Rightarrow> length (cd_drops (fst X)) | _ \<Rightarrow> 0)"
proof (cases e)
  case (CarriedRound refuses at)
  obtain C failed where X: "X = (C, failed)" by (cases X)
  have "carried_after e X = drop_each refuses at (cd_drops C) (C, failed)"
    by (simp add: CarriedRound X drop_each_append [of refuses at _ C failed] split: prod.splits)
  then show ?thesis
    using drop_each_inv [of C failed refuses at "cd_drops C"] assms drop_each_fields [of refuses at "cd_drops C" "(C, failed)"]
    by (simp add: X CarriedRound)
next
  case (CarriedTold name at)
  then show ?thesis using assms by (cases X) (auto simp: carried_told_def dropped_inv_def first_seen_keeps)
next
  case (CarriedSeen folder at)
  then show ?thesis using assms by (cases X) (auto simp: dropped_inv_def carried_seen_keeps)
qed

text \<open>C38: nothing dropped is forgotten, counted twice or given a new time: after any rounds and arrivals, in any
  order, the files the rig holds and those it said could not be dropped are together one for each drop
  of each round, and a file held, or seen to arrive, keeps for ever when it was.\<close>

theorem nothing_dropped_is_forgotten:
  assumes "fold carried_after evs (carried_new bindings [], []) = (C, failed)"
    and "fold carried_after later (C, failed) = (C', failed')"
  shows "length (cd_dropped C) + length failed =
        length (filter (\<lambda>e. case e of CarriedRound _ _ \<Rightarrow> True | _ \<Rightarrow> False) evs) * length (cd_drops C)
    \<and> distinct (map fst (cd_dropped C))
    \<and> (\<forall>name t. btree_get (cd_dropped C) name = Some t \<longrightarrow> btree_get (cd_dropped C') name = Some t)
    \<and> (\<forall>name t. btree_get (cd_arrived C) name = Some t \<longrightarrow> btree_get (cd_arrived C') name = Some t)"
proof -
  have run: "dropped_inv (fold carried_after es X)
      \<and> (\<forall>name t. btree_get (cd_dropped (fst X)) name = Some t \<longrightarrow>
           btree_get (cd_dropped (fst (fold carried_after es X))) name = Some t)
      \<and> (\<forall>name t. btree_get (cd_arrived (fst X)) name = Some t \<longrightarrow>
           btree_get (cd_arrived (fst (fold carried_after es X))) name = Some t)
      \<and> cd_drops (fst (fold carried_after es X)) = cd_drops (fst X)
      \<and> cd_next (fst (fold carried_after es X)) = cd_next (fst X)
          + length (filter (\<lambda>e. case e of CarriedRound _ _ \<Rightarrow> True | _ \<Rightarrow> False) es) * length (cd_drops (fst X))"
    if "dropped_inv X" for es X
    using that
  proof (induction es arbitrary: X)
    case (Cons e es)
    note step = carried_after_inv [OF Cons.prems, of e]
    from Cons.IH [of "carried_after e X"] step show ?case by (cases e) simp_all
  qed simp
  have start: "dropped_inv (carried_new bindings [], [])" by (simp add: dropped_inv_def carried_new_def)
  from run [OF start, of evs] assms(1)
  have C: "dropped_inv (C, failed)" "cd_next C =
      length (filter (\<lambda>e. case e of CarriedRound _ _ \<Rightarrow> True | _ \<Rightarrow> False) evs) * length (cd_drops C)"
    by (simp_all add: carried_new_def)
  from run [OF C(1), of later] assms(2)
  show ?thesis using C by (simp add: dropped_inv_def btree_wf_distinct)
qed

theorem nothing_dropped_is_forgotten_witness:
  "\<exists>C failed. fold carried_after [CarriedRound (\<lambda>_ _. None) 5, CarriedTold ''bytes-0'' 7, CarriedRound (\<lambda>_ _. Some ''full'') 9]
       (carried_new [DropSide ''a'', ArrivalSide ''b''] [], []) = (C, failed)
     \<and> length (cd_dropped C) + length failed = 2"
proof -
  let ?evs = "[CarriedRound (\<lambda>_ _. None) 5, CarriedTold ''bytes-0'' 7, CarriedRound (\<lambda>_ _. Some ''full'') 9]"
  obtain C failed where C: "fold carried_after ?evs (carried_new [DropSide ''a'', ArrivalSide ''b''] [], []) = (C, failed)"
    by (cases "fold carried_after ?evs (carried_new [DropSide ''a'', ArrivalSide ''b''] [], [])")
  moreover have "length (cd_drops C) = 1"
    using C by (auto simp: carried_new_def map_filter_def Let_def)
  ultimately show ?thesis
    using nothing_dropped_is_forgotten [OF C, of "[]" C failed] by simp
qed

end
