(* ===== verification/Real_Nodes.thy ===== *)
theory Real_Nodes
  imports Cluster
begin

text \<open>
  Real nodes (\<open>src/real.rs\<close>): which of the names an operator typed are nodes on machines of their own,
  asked over their operate listeners, and what is left for the run to spawn. The machine's resolver,
  the files of a certificate, the configuration's reader and the remote of a node are parameters.
\<close>

section \<open>What a node is asked through\<close>

record publication =
  pb_node :: string
  pb_records :: "(string \<times> string) list"
  pb_snapshot :: snapshot

record ('i, 'r, 'cap) reach =
  rc_nodes :: "string + string list"
  rc_listen :: "string \<Rightarrow> string \<Rightarrow> string + string option"
  rc_resolves :: "string \<Rightarrow> bool"
  rc_file :: "string \<Rightarrow> string + bytes"
  rc_identity :: "bytes \<Rightarrow> bytes \<Rightarrow> bytes \<Rightarrow> string + 'i"
  rc_open :: "string \<Rightarrow> 'i \<Rightarrow> string + 'r"
  rc_publication :: "'r \<Rightarrow> string + string"
  rc_read :: "string \<Rightarrow> string + publication"
  rc_capability_scope :: "string \<Rightarrow> string"
  rc_declared :: "string \<Rightarrow> string \<Rightarrow> (string + 'cap) option"
  rc_set_secret :: "'r \<Rightarrow> string \<Rightarrow> string \<Rightarrow> string \<Rightarrow> string + bool \<times> string"

record ('r, 'cap) real_node =
  rn_name :: string
  rn_address :: string
  rn_capability :: 'cap
  rn_remote :: 'r

text \<open>\<open>str::rsplit_once\<close>, its second half.\<close>

definition after_last :: "char \<Rightarrow> string \<Rightarrow> string option" where
  "after_last c s = (if c \<in> set s then Some (rev (takeWhile (\<lambda>x. x \<noteq> c) (rev s))) else None)"

definition operate_port :: "('i, 'r, 'cap) reach \<Rightarrow> string \<Rightarrow> string option \<Rightarrow> string + string" where
  "operate_port A cluster node =
     (case rc_nodes A of
        Inl e \<Rightarrow> Inl e
      | Inr declared \<Rightarrow>
          let asked = (case node of
              Some name \<Rightarrow> if name \<in> set declared then Some name else (case declared of [] \<Rightarrow> None | n # _ \<Rightarrow> Some n)
            | None \<Rightarrow> (case declared of [] \<Rightarrow> None | n # _ \<Rightarrow> Some n)) in
          (case asked of
             None \<Rightarrow> Inl ''REFUSED: the Essentials' cluster.xmip declares no node''
           | Some asked \<Rightarrow>
               (case rc_listen A asked cluster of
                  Inl e \<Rightarrow> Inl e
                | Inr None \<Rightarrow> Inl (''REFUSED: the Essentials' cluster.xmip operates '' @ asked @ '' nowhere'')
                | Inr (Some listen) \<Rightarrow>
                    (case after_last (CHR '':'') listen of
                       Some port \<Rightarrow> Inr port
                     | None \<Rightarrow> Inl (''REFUSED: [operate] listen '' @ listen @ '' names no port'')))))"

definition resolving :: "('i, 'r, 'cap) reach \<Rightarrow> string \<Rightarrow> string \<Rightarrow> string option" where
  "resolving A name port =
     (let address = name @ '':'' @ port in if rc_resolves A address then Some address else None)"

text \<open>A file of the certificate's folder, read or refused.\<close>

definition certificate_file :: "('i, 'r, 'cap) reach \<Rightarrow> string \<Rightarrow> string \<Rightarrow> string + bytes" where
  "certificate_file A folder leaf =
     (let path = folder @ ''/'' @ leaf in
      case rc_file A path of Inl e \<Rightarrow> Inl (''REFUSED: '' @ path @ '': '' @ e) | Inr bs \<Rightarrow> Inr bs)"

definition answering :: "('i, 'r, 'cap) reach \<Rightarrow> string \<Rightarrow> string \<Rightarrow> string option \<Rightarrow> string + 'r" where
  "answering A name address folder =
     (case folder of
        None \<Rightarrow> Inl (''REFUSED: '' @ name @ '' resolves, at '' @ address @ '', and the run holds no operator certificate ''
          @ ''to ask it whether it is an Xmip node; name the folder of one with -Certificate'')
      | Some folder \<Rightarrow>
          (case certificate_file A folder ''operator.pem'' of Inl e \<Rightarrow> Inl e | Inr pem \<Rightarrow>
           case certificate_file A folder ''operator.key'' of Inl e \<Rightarrow> Inl e | Inr key \<Rightarrow>
           case certificate_file A folder ''anchors.pem'' of Inl e \<Rightarrow> Inl e | Inr anchors \<Rightarrow>
           case rc_identity A pem key anchors of
             Inl e \<Rightarrow> Inl (''REFUSED: the certificate in '' @ folder @ '': '' @ e)
           | Inr identity \<Rightarrow>
               (case rc_open A address identity of
                  Inl e \<Rightarrow> Inl (''REFUSED: '' @ name @ '' resolves, at '' @ address @ '': '' @ e)
                | Inr remote \<Rightarrow> Inr remote)))"

definition node_refused :: "string \<Rightarrow> string \<Rightarrow> string \<Rightarrow> string" where
  "node_refused name address what = ''REFUSED: '' @ name @ '' resolves, at '' @ address @ '', and '' @ what"

definition node_publication :: "('i, 'r, 'cap) reach \<Rightarrow> string \<Rightarrow> string \<Rightarrow> 'r \<Rightarrow> string + publication" where
  "node_publication A name address remote =
     (case rc_publication A remote of
        Inl e \<Rightarrow> Inl (node_refused name address (''does not answer: '' @ e))
      | Inr text \<Rightarrow>
          (case rc_read A text of
             Inl e \<Rightarrow> Inl (node_refused name address (''answers with no Xmip publication: '' @ e))
           | Inr p \<Rightarrow> Inr p))"

definition node_scope :: "string \<Rightarrow> string \<Rightarrow> string" where
  "node_scope cluster name = ''xmip:///'' @ cluster @ ''/node/'' @ name"

definition node_declared :: "('i, 'r, 'cap) reach \<Rightarrow> string \<Rightarrow> string \<Rightarrow> string \<Rightarrow> 'r \<Rightarrow> string + 'cap" where
  "node_declared A cluster name address remote =
     (case node_publication A name address remote of
        Inl e \<Rightarrow> Inl e
      | Inr p \<Rightarrow>
          let scope = node_scope cluster name in
          if pb_node p \<noteq> scope
          then Inl (node_refused name address (''answers as '' @ pb_node p @ '', not as '' @ scope))
          else
            (case Option.bind (find (\<lambda>(at, _). at = rc_capability_scope A scope) (pb_records p))
                (\<lambda>(at, said). rc_declared A at said) of
               None \<Rightarrow> Inl (node_refused name address ''says nothing of what it can do'')
             | Some (Inl e) \<Rightarrow> Inl (node_refused name address e)
             | Some (Inr cap) \<Rightarrow> Inr cap))"

section \<open>Which nodes are real\<close>

fun found_each :: "('i, 'r, 'cap) reach \<Rightarrow> string \<Rightarrow> string option \<Rightarrow> string list \<Rightarrow> string + ('r, 'cap) real_node list" where
  "found_each A cluster certificate [] = Inr []"
| "found_each A cluster certificate (name # typed) =
     (case operate_port A cluster (Some name) of
        Inl e \<Rightarrow> Inl e
      | Inr port \<Rightarrow>
          (case resolving A name port of
             None \<Rightarrow> found_each A cluster certificate typed
           | Some address \<Rightarrow>
               (case answering A name address certificate of
                  Inl e \<Rightarrow> Inl e
                | Inr remote \<Rightarrow>
                    (case node_declared A cluster name address remote of
                       Inl e \<Rightarrow> Inl e
                     | Inr cap \<Rightarrow>
                         map_sum id (\<lambda>real. \<lparr>rn_name = name, rn_address = address, rn_capability = cap, rn_remote = remote\<rparr> # real)
                           (found_each A cluster certificate typed)))))"

definition cluster_answers :: "('i, 'r, 'cap) reach \<Rightarrow> string \<Rightarrow> string option \<Rightarrow> string option" where
  "cluster_answers A cluster certificate =
     (case operate_port A cluster None of
        Inl e \<Rightarrow> Some e
      | Inr port \<Rightarrow>
          (case resolving A cluster port of
             None \<Rightarrow> None
           | Some address \<Rightarrow>
               (case answering A cluster address certificate of
                  Inl e \<Rightarrow> Some e
                | Inr remote \<Rightarrow>
                    (case node_publication A cluster address remote of
                       Inl e \<Rightarrow> Some e
                     | Inr p \<Rightarrow>
                         if prefix (node_scope cluster []) (pb_node p) then None
                         else Some (''REFUSED: the cluster name '' @ cluster @ '' resolves, at '' @ address
                           @ '', and answers as '' @ pb_node p @ '', no node of cluster '' @ cluster)))))"

definition real_found :: "('i, 'r, 'cap) reach \<Rightarrow> string \<Rightarrow> string list \<Rightarrow> string option \<Rightarrow> string + ('r, 'cap) real_node list" where
  "real_found A cluster typed certificate =
     (case cluster_answers A cluster certificate of
        Some e \<Rightarrow> Inl e
      | None \<Rightarrow> found_each A cluster certificate typed)"

record ('r, 'cap) sorted_nodes =
  sn_real :: "('r, 'cap) real_node list"
  sn_names :: "string list"
  sn_roster :: "'cap roster"
  sn_simulated :: "'cap roster"

definition nodes_sorted ::
    "('i, 'r, 'cap) reach \<Rightarrow> string \<Rightarrow> string list \<Rightarrow> string option \<Rightarrow> 'cap roster \<Rightarrow> string + ('r, 'cap) sorted_nodes" where
  "nodes_sorted A cluster typed certificate R =
     (case real_found A cluster typed certificate of
        Inl e \<Rightarrow> Inl e
      | Inr real \<Rightarrow>
          let names = map rn_name real;
              R = fold (\<lambda>node R. roster_declared (rn_name node) (rn_capability node) R) real R in
          Inr \<lparr>sn_real = real, sn_names = names, sn_roster = R, sn_simulated = roster_without names R\<rparr>)"

section \<open>What real nodes publish\<close>

definition real_published_into ::
    "('i, 'r, 'cap) reach \<Rightarrow> observe_api \<Rightarrow> (snapshot \<Rightarrow> count_record list) \<Rightarrow> string \<Rightarrow> int \<Rightarrow> ('r, 'cap) real_node
       \<Rightarrow> snapshot \<Rightarrow> snapshot" where
  "real_published_into A O' counts_of scope now node snap =
     (let (snap, h, said) =
        (case (case rc_publication A (rn_remote node) of Inl e \<Rightarrow> Inl e | Inr text \<Rightarrow> rc_read A text) of
           Inr p \<Rightarrow> (merge_snapshots O' counts_of snap (pb_snapshot p), Fine, ''real, at '' @ rn_address node)
         | Inl problem \<Rightarrow> (snap, Exhausted, ''real, at '' @ rn_address node @ '', did not answer: '' @ problem)) in
      snap @ [RecordHealth \<lparr>hr_scope = scope @ ''/reached'', hr_health = h, hr_severity = 0, hr_evidence = said,
        hr_observed = now\<rparr>])"

definition all_published_into ::
    "('i, 'r, 'cap) reach \<Rightarrow> observe_api \<Rightarrow> (snapshot \<Rightarrow> count_record list) \<Rightarrow> string \<Rightarrow> int \<Rightarrow> ('r, 'cap) real_node list
       \<Rightarrow> snapshot \<Rightarrow> snapshot" where
  "all_published_into A O' counts_of root now =
     fold (\<lambda>node. real_published_into A O' counts_of (root @ ''/node/'' @ rn_name node) now node)"

definition set_password :: "('i, 'r, 'cap) reach \<Rightarrow> ('r, 'cap) real_node \<Rightarrow> string \<Rightarrow> string \<Rightarrow> string + unit" where
  "set_password A node name v =
     (let refused = (\<lambda>why. ''REFUSED: the secret '' @ [CHR 0x27] @ name @ [CHR 0x27] @ '' on '' @ rn_name node @ '': '' @ why) in
      case rc_set_secret A (rn_remote node) (rn_name node) name v of
        Inr (True, _) \<Rightarrow> Inr ()
      | Inr (False, said) \<Rightarrow> Inl (refused said)
      | Inl why \<Rightarrow> Inl (refused why))"

section \<open>A name that resolves is never spawned\<close>

definition resolves :: "('i, 'r, 'cap) reach \<Rightarrow> string \<Rightarrow> string \<Rightarrow> bool" where
  "resolves A cluster name \<longleftrightarrow>
     (case operate_port A cluster (Some name) of Inl _ \<Rightarrow> False | Inr port \<Rightarrow> resolving A name port \<noteq> None)"

text \<open>What a real node has shown: it was asked with a certificate, at the address its name resolves to,
  and what it published there is the publication of the node of that name in that cluster.\<close>

definition shown_real :: "('i, 'r, 'cap) reach \<Rightarrow> string \<Rightarrow> string option \<Rightarrow> ('r, 'cap) real_node \<Rightarrow> bool" where
  "shown_real A cluster certificate n \<longleftrightarrow>
     certificate \<noteq> None
     \<and> rc_resolves A (rn_address n)
     \<and> answering A (rn_name n) (rn_address n) certificate = Inr (rn_remote n)
     \<and> (case rc_publication A (rn_remote n) of
          Inl _ \<Rightarrow> False
        | Inr text \<Rightarrow>
            (case rc_read A text of
               Inl _ \<Rightarrow> False
             | Inr p \<Rightarrow> pb_node p = node_scope cluster (rn_name n)
                 \<and> Inr (rn_capability n) \<in> (\<lambda>(at, said). case rc_declared A at said of Some d \<Rightarrow> d | None \<Rightarrow> Inl []) ` set (pb_records p)))"

lemma node_declared_shown:
  assumes "node_declared A cluster name address remote = Inr cap"
  shows "\<exists>text p. rc_publication A remote = Inr text \<and> rc_read A text = Inr p \<and> pb_node p = node_scope cluster name
    \<and> (\<exists>at said. (at, said) \<in> set (pb_records p) \<and> rc_declared A at said = Some (Inr cap))"
proof -
  from assms obtain p where p: "node_publication A name address remote = Inr p" "pb_node p = node_scope cluster name"
      and cap: "Option.bind (find (\<lambda>(at, _). at = rc_capability_scope A (node_scope cluster name)) (pb_records p))
          (\<lambda>(at, said). rc_declared A at said) = Some (Inr cap)"
    by (auto simp: node_declared_def Let_def split: sum.splits if_splits option.splits)
  then obtain at said where "find (\<lambda>(at, _). at = rc_capability_scope A (node_scope cluster name)) (pb_records p) = Some (at, said)"
      and d: "rc_declared A at said = Some (Inr cap)" by (auto simp: Option.bind_eq_Some_conv)
  then have "(at, said) \<in> set (pb_records p)" by (auto simp: find_Some_iff) (metis nth_mem)
  with d p show ?thesis by (auto simp: node_publication_def split: sum.splits)
qed

lemma found_each_real:
  assumes "found_each A cluster certificate typed = Inr real"
  shows "map rn_name real = filter (resolves A cluster) typed \<and> list_all (shown_real A cluster certificate) real"
  using assms
proof (induction typed arbitrary: real)
  case (Cons name typed)
  obtain port where port: "operate_port A cluster (Some name) = Inr port"
    using Cons.prems by (auto split: sum.splits)
  show ?case
  proof (cases "resolving A name port")
    case None
    then have "found_each A cluster certificate typed = Inr real" using Cons.prems port by simp
    from Cons.IH [OF this] None port show ?thesis by (simp add: resolves_def)
  next
    case (Some address)
    from Cons.prems obtain remote cap rest where r: "answering A name address certificate = Inr remote"
        "node_declared A cluster name address remote = Inr cap" "found_each A cluster certificate typed = Inr rest"
        "real = \<lparr>rn_name = name, rn_address = address, rn_capability = cap, rn_remote = remote\<rparr> # rest"
      by (cases "found_each A cluster certificate typed") (auto simp: port Some split: sum.splits)
    have "certificate \<noteq> None" using r(1) by (cases certificate) (simp_all add: answering_def)
    moreover have "rc_resolves A address" using Some by (auto simp: resolving_def Let_def split: if_splits)
    ultimately have "shown_real A cluster certificate (hd real)"
      using node_declared_shown [OF r(2)] r(1) by (force simp: shown_real_def r(4))
    with Cons.IH [OF r(3)] port Some show ?thesis by (simp add: r(4) resolves_def)
  qed
qed simp

lemma roster_declared_names:
  "map fst (roster_declared n c R) = (if list_ex (\<lambda>(one, _). eq_ignore_ascii_case one n) R then map fst R else map fst R @ [n])"
  by (induction n c R rule: roster_declared.induct) auto

lemma roster_capability_declared:
  "roster_capability K (roster_declared n c R) m =
     (if eq_ignore_ascii_case n m then c else roster_capability K R m)"
  by (induction n c R rule: roster_declared.induct)
    (auto simp: roster_capability_def eq_ignore_ascii_case_def split: if_splits)

abbreviation declare_real :: "('r, 'cap) real_node list \<Rightarrow> 'cap roster \<Rightarrow> 'cap roster" where
  "declare_real \<equiv> fold (\<lambda>node R. roster_declared (rn_name node) (rn_capability node) R)"

lemma declare_real_names:
  "set (roster_names R) \<subseteq> set (roster_names (declare_real real R))
   \<and> set (roster_names (declare_real real R)) \<subseteq> set (roster_names R) \<union> rn_name ` set real"
proof (induction real arbitrary: R)
  case (Cons n real)
  have "set (roster_names R) \<subseteq> set (roster_names (roster_declared (rn_name n) (rn_capability n) R))"
    "set (roster_names (roster_declared (rn_name n) (rn_capability n) R)) \<subseteq> insert (rn_name n) (set (roster_names R))"
    unfolding roster_names_def by (simp_all only: roster_declared_names) auto
  with Cons.IH [of "roster_declared (rn_name n) (rn_capability n) R"] show ?case by auto
qed simp

lemma declare_real_capability:
  assumes "distinct (map (to_ascii_lowercase \<circ> rn_name) real)" and "n \<in> set real"
  shows "roster_capability K (declare_real real R) (rn_name n) = rn_capability n"
  using assms
proof (induction real rule: rev_induct)
  case (snoc m real)
  show ?case
  proof (cases "n = m")
    case True
    then show ?thesis by (simp add: roster_capability_declared)
  next
    case False
    then have "n \<in> set real" using snoc.prems by simp
    then have "\<not> eq_ignore_ascii_case (rn_name m) (rn_name n)"
      using snoc.prems(1) by (auto simp: eq_ignore_ascii_case_def image_iff)
    then show ?thesis using snoc \<open>n \<in> set real\<close> by (simp add: roster_capability_declared)
  qed
qed simp

lemma roster_without_names:
  "set (roster_names (roster_without names R)) =
     {name \<in> set (roster_names R). \<not> list_ex (\<lambda>one. eq_ignore_ascii_case one name) names}"
  by (force simp: roster_without_def roster_names_def)

lemma sorted_parts:
  assumes "nodes_sorted A cluster typed certificate R = Inr S"
  shows "sn_names S = filter (resolves A cluster) typed \<and> sn_names S = map rn_name (sn_real S)
    \<and> list_all (shown_real A cluster certificate) (sn_real S)
    \<and> set (roster_names (sn_simulated S)) =
        {name \<in> set (roster_names R). \<not> list_ex (\<lambda>one. eq_ignore_ascii_case one name) (sn_names S)}
    \<and> (distinct (map to_ascii_lowercase (sn_names S)) \<longrightarrow>
        list_all (\<lambda>n. roster_capability K (sn_roster S) (rn_name n) = rn_capability n) (sn_real S))"
proof -
  from assms obtain real where real: "found_each A cluster certificate typed = Inr real"
      and S: "S = \<lparr>sn_real = real, sn_names = map rn_name real, sn_roster = declare_real real R,
        sn_simulated = roster_without (map rn_name real) (declare_real real R)\<rparr>"
    by (auto simp: nodes_sorted_def real_found_def Let_def split: sum.splits option.splits)
  note found = found_each_real [OF real]
  have "list_ex (\<lambda>one. eq_ignore_ascii_case one name) (map rn_name real)" if "name \<in> rn_name ` set real" for name
    using that by (simp add: list_ex_iff) (metis eq_ignore_ascii_case_refl imageE)
  with declare_real_names [of R real]
  have "set (roster_names (sn_simulated S)) =
        {name \<in> set (roster_names R). \<not> list_ex (\<lambda>one. eq_ignore_ascii_case one name) (sn_names S)}"
    by (auto simp: S roster_without_names)
  moreover have "list_all (\<lambda>n. roster_capability K (sn_roster S) (rn_name n) = rn_capability n) (sn_real S)"
    if "distinct (map to_ascii_lowercase (sn_names S))"
    using that declare_real_capability [of real _ K R] by (simp add: S list_all_iff o_def)
  ultimately show ?thesis using found by (simp add: S)
qed

text \<open>A name that resolves is never quietly replaced with a spawned process: where a run goes on, its real
  nodes are exactly the names typed that resolve, each having shown, under a certificate, that it is
  the node of that name in the cluster; what is left to spawn is exactly the roster less their names in
  any case; and a real node stands in the roster with what it declared itself.\<close>

theorem resolving_name_is_never_spawned:
  assumes "nodes_sorted A cluster typed certificate R = Inr S"
  shows "sn_names S = filter (resolves A cluster) typed \<and> sn_names S = map rn_name (sn_real S)
    \<and> list_all (shown_real A cluster certificate) (sn_real S)
    \<and> set (roster_names (sn_simulated S)) =
        {name \<in> set (roster_names R). \<not> list_ex (\<lambda>one. eq_ignore_ascii_case one name) (sn_names S)}
    \<and> (distinct (map to_ascii_lowercase (sn_names S)) \<longrightarrow>
        list_all (\<lambda>n. roster_capability K (sn_roster S) (rn_name n) = rn_capability n) (sn_real S))"
  using assms by (rule sorted_parts)

text \<open>With no certificate to ask with, a run in which any typed name resolves is refused, and where none
  resolves, nor the cluster's own name, and the ports read, every node is simulated.\<close>

theorem resolving_name_needs_a_certificate:
  assumes "list_ex (resolves A cluster) typed"
  shows "\<exists>why. nodes_sorted A cluster typed None R = Inl why"
proof (cases "nodes_sorted A cluster typed None R")
  case (Inr S)
  then have "found_each A cluster None typed = Inr (sn_real S)"
    by (auto simp: nodes_sorted_def real_found_def Let_def split: sum.splits option.splits)
  from found_each_real [OF this] assms have "sn_real S \<noteq> []" "list_all (shown_real A cluster None) (sn_real S)"
    by (auto simp: filter_empty_conv list_ex_iff dest: arg_cong [of _ _ set])
  then show ?thesis by (cases "sn_real S") (simp_all add: shown_real_def)
qed blast

definition example_reach :: "(unit, unit, stage list) reach" where
  "example_reach =
     \<lparr>rc_nodes = Inr [''n''], rc_listen = (\<lambda>node cluster. Inr (Some ''0.0.0.0:7401'')),
      rc_resolves = (\<lambda>address. address = ''n:7401''), rc_file = (\<lambda>path. Inr []),
      rc_identity = (\<lambda>pem key anchors. Inr ()), rc_open = (\<lambda>address identity. Inr ()),
      rc_publication = (\<lambda>remote. Inr ''text''),
      rc_read = (\<lambda>text. Inr \<lparr>pb_node = ''xmip:///c/node/n'', pb_records = [(''can'', ''receiving'')], pb_snapshot = []\<rparr>),
      rc_capability_scope = (\<lambda>scope. ''can''), rc_declared = (\<lambda>at said. Some (Inr [Receive])),
      rc_set_secret = (\<lambda>remote node name v. Inr (True, []))\<rparr>"

lemma example_sorted:
  "\<exists>S. nodes_sorted example_reach ''c'' [''n'', ''m''] (Some ''certificate'') [(''N'', []), (''m'', [])] = Inr S"
proof -
  have port: "operate_port example_reach ''c'' node = Inr ''7401''" for node
    by (cases node) (simp_all add: operate_port_def example_reach_def after_last_def)
  have "resolving example_reach ''n'' ''7401'' = Some ''n:7401''" "resolving example_reach ''m'' ''7401'' = None"
    "resolving example_reach ''c'' ''7401'' = None"
    by (simp_all add: resolving_def example_reach_def)
  moreover have "answering example_reach ''n'' ''n:7401'' (Some ''certificate'') = Inr ()"
    by (simp add: answering_def certificate_file_def example_reach_def)
  moreover have "node_declared example_reach ''c'' ''n'' ''n:7401'' () = Inr [Receive]"
    by (simp add: node_declared_def node_publication_def node_scope_def example_reach_def)
  ultimately show ?thesis by (simp add: nodes_sorted_def real_found_def cluster_answers_def port Let_def)
qed

theorem resolving_name_is_never_spawned_witness:
  "\<exists>S. nodes_sorted example_reach ''c'' [''n'', ''m''] (Some ''certificate'') [(''N'', []), (''m'', [])] = Inr S
     \<and> sn_names S = [''n''] \<and> set (roster_names (sn_simulated S)) = {''m''}"
proof -
  obtain S where S: "nodes_sorted example_reach ''c'' [''n'', ''m''] (Some ''certificate'') [(''N'', []), (''m'', [])] = Inr S"
    using example_sorted by blast
  have "filter (resolves example_reach ''c'') [''n'', ''m''] = [''n'']"
    by (simp add: resolves_def operate_port_def resolving_def example_reach_def after_last_def)
  moreover have "eq_ignore_ascii_case ''n'' ''N''" "\<not> eq_ignore_ascii_case ''n'' ''m''" by code_simp+
  ultimately show ?thesis
    using S resolving_name_is_never_spawned [OF S, of plain_capability] by (auto simp: roster_names_def)
qed

theorem resolving_name_needs_a_certificate_witness:
  "\<exists>why. nodes_sorted example_reach ''c'' [''n''] None [(''n'', [])] = Inl why"
  by (rule resolving_name_needs_a_certificate)
    (simp add: resolves_def operate_port_def resolving_def example_reach_def after_last_def)

end
