(* ===== verification/Heartbeat.thy ===== *)
theory Heartbeat
  imports Files
begin

text \<open>
  A node saying it is alive (\<open>src/heartbeat.rs\<close>): the node's own thread, which counts its rounds and
  beats as each is done, and the thread that beats in between, over one count they both hold while
  they write. A beat is written whole or not at all here; the instants are the machine's clock.
\<close>

section \<open>The heart\<close>

record beat =
  bt_nanos :: int
  bt_rounds :: nat

definition beat_default :: beat where
  "beat_default = \<lparr>bt_nanos = 0, bt_rounds = 0\<rparr>"

text \<open>Where the node's own thread is: between rounds, or in a round it has counted and not yet beaten for.\<close>

datatype counting = Resting | Counted_Round

text \<open>Where the beating thread is: parked for an interval, woken and about to beat, or ended.\<close>

datatype beating = Parked | Woken | Ended

record heart =
  ht_rounds :: nat
  ht_file :: "beat option"
  ht_counting :: counting
  ht_stopping :: bool
  ht_beating :: beating

text \<open>\<open>beat\<close>, the count held: at the instant \<open>t\<close>, where \<open>written\<close> says whether the file took it.\<close>

definition beat_now :: "int \<Rightarrow> bool \<Rightarrow> heart \<Rightarrow> heart" where
  "beat_now t written H =
     (if written then H\<lparr>ht_file := Some \<lparr>bt_nanos = t, bt_rounds = ht_rounds H\<rparr>\<rparr> else H)"

definition heart_start :: "beat option \<Rightarrow> int \<Rightarrow> bool \<Rightarrow> heart" where
  "heart_start before t written =
     beat_now t written
       \<lparr>ht_rounds = 0, ht_file = before, ht_counting = Resting, ht_stopping = False, ht_beating = Parked\<rparr>"

datatype heart_label =
    Wakes
  | Beats int bool
  | Ends
  | Counts
  | Says int bool
  | Leaves

text \<open>
  One step of either thread: the beating thread wakes and looks whether it is told to stop, and beats or
  ends; the node's thread counts a round, then beats for it; dropped, it tells the other to stop.
\<close>

inductive heart_step :: "heart_label \<Rightarrow> heart \<Rightarrow> heart \<Rightarrow> bool" where
  wakes: "ht_beating H = Parked \<Longrightarrow> \<not> ht_stopping H \<Longrightarrow> heart_step Wakes H (H\<lparr>ht_beating := Woken\<rparr>)"
| beats: "ht_beating H = Woken \<Longrightarrow> heart_step (Beats t w) H (beat_now t w (H\<lparr>ht_beating := Parked\<rparr>))"
| ends: "ht_beating H = Parked \<Longrightarrow> ht_stopping H \<Longrightarrow> heart_step Ends H (H\<lparr>ht_beating := Ended\<rparr>)"
| counts: "ht_counting H = Resting \<Longrightarrow> \<not> ht_stopping H \<Longrightarrow>
    heart_step Counts H (H\<lparr>ht_rounds := ht_rounds H + 1, ht_counting := Counted_Round\<rparr>)"
| says: "ht_counting H = Counted_Round \<Longrightarrow> heart_step (Says t w) H (beat_now t w (H\<lparr>ht_counting := Resting\<rparr>))"
| leaves: "ht_counting H = Resting \<Longrightarrow> \<not> ht_stopping H \<Longrightarrow> heart_step Leaves H (H\<lparr>ht_stopping := True\<rparr>)"

inductive heart_steps :: "heart \<Rightarrow> heart_label list \<Rightarrow> heart \<Rightarrow> bool" where
  heart_refl: "heart_steps H [] H"
| heart_trans: "heart_steps H ls H' \<Longrightarrow> heart_step l H' H'' \<Longrightarrow> heart_steps H (ls @ [l]) H''"

section \<open>A beat never takes a round back\<close>

text \<open>What the file says of the rounds; a file no beat is in says none.\<close>

definition said_rounds :: "heart \<Rightarrow> nat" where
  "said_rounds H = (case ht_file H of None \<Rightarrow> 0 | Some b \<Rightarrow> bt_rounds b)"

definition rounds_counted :: "heart_label list \<Rightarrow> nat" where
  "rounds_counted ls = length (filter (\<lambda>l. l = Counts) ls)"

lemma beat_now_simps [simp]:
  "ht_rounds (beat_now t w H) = ht_rounds H" "ht_counting (beat_now t w H) = ht_counting H"
  "ht_stopping (beat_now t w H) = ht_stopping H" "ht_beating (beat_now t w H) = ht_beating H"
  "said_rounds (beat_now t w H) = (if w then ht_rounds H else said_rounds H)"
  "said_rounds (H\<lparr>ht_beating := b\<rparr>) = said_rounds H" "said_rounds (H\<lparr>ht_stopping := x\<rparr>) = said_rounds H"
  "said_rounds (H\<lparr>ht_counting := c\<rparr>) = said_rounds H" "said_rounds (H\<lparr>ht_rounds := n\<rparr>) = said_rounds H"
  by (simp_all add: beat_now_def said_rounds_def)

text \<open>A step keeps the file behind the count, and lets neither go down.\<close>

lemma heart_step_monotone:
  assumes "heart_step l H H'" and "said_rounds H \<le> ht_rounds H"
  shows "said_rounds H' \<le> ht_rounds H'" "said_rounds H \<le> said_rounds H'"
    "ht_rounds H' = ht_rounds H + (if l = Counts then 1 else 0)"
  using assms by (induction rule: heart_step.induct) auto

lemma heart_steps_monotone:
  assumes "heart_steps H ls H'" and "said_rounds H \<le> ht_rounds H"
  shows "said_rounds H' \<le> ht_rounds H' \<and> said_rounds H \<le> said_rounds H' \<and> ht_rounds H' = ht_rounds H + rounds_counted ls"
  using assms
proof induction
  case (heart_trans H ls H' l H'')
  then show ?case using heart_step_monotone [of l H' H''] by (auto simp: rounds_counted_def)
qed (simp add: rounds_counted_def)

text \<open>What a run of steps keeps, where every beat is written: between two rounds the file says every round
  that was counted.\<close>

definition written_label :: "heart_label \<Rightarrow> bool" where
  "written_label l \<longleftrightarrow> (case l of Beats _ w \<Rightarrow> w | Says _ w \<Rightarrow> w | _ \<Rightarrow> True)"

definition said_all :: "heart \<Rightarrow> bool" where
  "said_all H \<longleftrightarrow> ht_counting H = Counted_Round \<or> said_rounds H = ht_rounds H"

lemma heart_step_said:
  "heart_step l H H' \<Longrightarrow> written_label l \<Longrightarrow> said_all H \<Longrightarrow> said_all H'"
  by (induction rule: heart_step.induct) (auto simp: said_all_def written_label_def)

lemma heart_steps_said:
  "heart_steps H ls H' \<Longrightarrow> list_all written_label ls \<Longrightarrow> said_all H \<Longrightarrow> said_all H'"
  by (induction rule: heart_steps.induct) (auto intro: heart_step_said)

lemma start_said: "written \<or> before = None \<Longrightarrow> said_all (heart_start before t written)
    \<and> said_rounds (heart_start before t written) = 0"
  by (auto simp: heart_start_def said_all_def said_rounds_def beat_now_def)



text \<open>Told to stop, the beating thread beats at most once more, the beat it had woken for, and ends.\<close>

lemma told_to_stop_it_ends:
  assumes "ht_stopping H" and "heart_step l H H'"
  shows "ht_stopping H' \<and> l \<noteq> Wakes \<and> (l = Ends \<longrightarrow> ht_beating H' = Ended)
    \<and> (\<forall>t w. l = Beats t w \<longrightarrow> ht_beating H = Woken \<and> ht_beating H' = Parked)"
  using assms(2,1) by (induction rule: heart_step.induct) auto

end
