(* ===== verification/Eventing.thy ===== *)
theory Eventing
  imports Stress
begin

text \<open>
  What a node raises and who hears it (\<open>src/eventing.rs\<close>): one Event per stage whose failing pairs
  changed since the round before, the subscription of on-call drained each round, and what the hub
  holds recorded with the round. The hub is the event crate's, the parameter \<open>H\<close> over the world it
  keeps; which stage a scope is under is \<open>observe::Scope\<close>'s.
\<close>

section \<open>Events\<close>

datatype event_outcome = Event_Failure | Event_Success

record event =
  ee_stage :: stage
  ee_outcome :: event_outcome
  ee_at :: string
  ee_pairs :: nat
  ee_failing :: nat

record ('w, 'sub, 'gone) hub_api =
  hub_publish :: "event \<Rightarrow> 'w \<Rightarrow> 'w"
  hub_next :: "nat \<Rightarrow> 'w \<Rightarrow> 'w"
  hub_closed :: "'w \<Rightarrow> bool"
  hub_standing :: "string \<Rightarrow> 'w \<Rightarrow> 'sub list"
  hub_unheard :: "'w \<Rightarrow> 'gone list"
  hub_gone_by :: "'gone \<Rightarrow> string"
  hub_number :: "string \<Rightarrow> nat option"
  hub_act :: "nat \<Rightarrow> string \<Rightarrow> string \<Rightarrow> 'w \<Rightarrow> (string + string) \<times> 'w"

definition CAPACITY :: nat where
  "CAPACITY = 64"

section \<open>A node's eventing\<close>

record eventing =
  ev_node :: string
  ev_stages :: "stage list"
  ev_listening :: bool
  ev_drained :: bool
  ev_failing :: "(stage, nat) btree"

text \<open>What the hub answered to the two subscriptions, and what of it is audited, the failure to
  \<open>subscribe\<close>.\<close>

definition eventing_start ::
    "string \<Rightarrow> stage list \<Rightarrow> string + unit \<Rightarrow> string + unit \<Rightarrow> eventing \<times> string list" where
  "eventing_start node stages listening drained =
     (\<lparr>ev_node = node, ev_stages = stages, ev_listening = (listening = Inr ()), ev_drained = (drained = Inr ()),
        ev_failing = []\<rparr>,
      (case listening of Inl problem \<Rightarrow> [problem] | Inr _ \<Rightarrow> []) @ (case drained of Inl refused \<Rightarrow> [refused] | Inr _ \<Rightarrow> []))"

definition eventing_act ::
    "('w, 'sub, 'gone) hub_api \<Rightarrow> string \<Rightarrow> string \<Rightarrow> string \<Rightarrow> 'w \<Rightarrow> (string + string) \<times> 'w" where
  "eventing_act H target act who w =
     (case hub_number H target of
        None \<Rightarrow> (Inl (''REFUSED: '' @ [CHR 0x27] @ target @ [CHR 0x27] @ '' numbers no Event subscription''), w)
      | Some number \<Rightarrow> hub_act H number act who w)"

definition stage_at :: "node_api \<Rightarrow> string \<Rightarrow> stage \<Rightarrow> string" where
  "stage_at N node st = node @ ''/'' @ stage_name N st"

definition stage_failing ::
    "observe_api \<Rightarrow> (string \<Rightarrow> stage option) \<Rightarrow> node_api \<Rightarrow> string \<Rightarrow> snapshot \<Rightarrow> stage \<Rightarrow> nat" where
  "stage_failing O' scope_stage N node snap st =
     length (filter (\<lambda>r. hr_health r = Done \<and> scope_stage (hr_scope r) = Some st)
       (health_under O' snap (stage_at N node st)))"

definition eventing_raise ::
    "observe_api \<Rightarrow> (string \<Rightarrow> stage option) \<Rightarrow> node_api \<Rightarrow> snapshot \<Rightarrow> stage \<Rightarrow> eventing \<Rightarrow> eventing \<times> event list" where
  "eventing_raise O' scope_stage N snap st V =
     (let at = stage_at N (ev_node V) st;
          records = health_under O' snap at;
          failing = stage_failing O' scope_stage N (ev_node V) snap st;
          before = (case btree_get (ev_failing V) st of Some n \<Rightarrow> n | None \<Rightarrow> 0);
          V = V\<lparr>ev_failing := btree_insert st failing (ev_failing V)\<rparr> in
      if records = [] \<or> failing = before then (V, [])
      else (V, [\<lparr>ee_stage = st, ee_outcome = (if failing > before then Event_Failure else Event_Success), ee_at = at,
        ee_pairs = length records, ee_failing = failing\<rparr>]))"

text \<open>Every stage of the node in turn.\<close>

definition eventing_raise_next ::
    "observe_api \<Rightarrow> (string \<Rightarrow> stage option) \<Rightarrow> node_api \<Rightarrow> snapshot \<Rightarrow> stage \<Rightarrow> eventing \<times> event list \<Rightarrow> eventing \<times> event list" where
  "eventing_raise_next O' scope_stage N snap st = (\<lambda>(V, es).
     case eventing_raise O' scope_stage N snap st V of (V, raised) \<Rightarrow> (V, es @ raised))"

definition eventing_raise_all ::
    "observe_api \<Rightarrow> (string \<Rightarrow> stage option) \<Rightarrow> node_api \<Rightarrow> snapshot \<Rightarrow> eventing \<Rightarrow> eventing \<times> event list" where
  "eventing_raise_all O' scope_stage N snap V = fold (eventing_raise_next O' scope_stage N snap) (ev_stages V) (V, [])"

text \<open>What a round records of the hub in the snapshot, beside its health: the subscriptions it holds, and
  those of the node's nobody heard, in place of the ones that were there.\<close>

datatype ('sub, 'gone) hub_recording =
    Records_Subscription 'sub
  | Clears_Unheard string
  | Records_Unheard 'gone

definition eventing_round ::
    "('w, 'sub, 'gone) hub_api \<Rightarrow> observe_api \<Rightarrow> (string \<Rightarrow> stage option) \<Rightarrow> node_api \<Rightarrow> snapshot \<Rightarrow> eventing \<times> 'w
       \<Rightarrow> (eventing \<times> 'w) \<times> ('sub, 'gone) hub_recording list" where
  "eventing_round H O' scope_stage N snap = (\<lambda>(V, w).
     let (V, raised) = eventing_raise_all O' scope_stage N snap V;
         w = fold (hub_publish H) raised w;
         w = (if ev_drained V then hub_next H CAPACITY w else w);
         V = V\<lparr>ev_drained := ev_drained V \<and> \<not> hub_closed H w\<rparr> in
     ((V, w), map Records_Subscription (hub_standing H (ev_node V) w) @ [Clears_Unheard (ev_node V)]
       @ map Records_Unheard (filter (\<lambda>gone. hub_gone_by H gone = ev_node V) (hub_unheard H w))))"

section \<open>What is heard of a stage\<close>

text \<open>The rounds of a node, over the world its hub keeps.\<close>

definition eventing_rounds ::
    "('w, 'sub, 'gone) hub_api \<Rightarrow> observe_api \<Rightarrow> (string \<Rightarrow> stage option) \<Rightarrow> node_api \<Rightarrow> snapshot list \<Rightarrow> eventing \<times> 'w
       \<Rightarrow> eventing \<times> 'w" where
  "eventing_rounds H O' scope_stage N snaps VW =
     fold (\<lambda>snap VW. fst (eventing_round H O' scope_stage N snap VW)) snaps VW"

text \<open>A hub whose world says what was published to it, in order: publishing adds to it, and a subscriber
  that drains its queue takes nothing back.\<close>

definition hub_logs :: "('w, 'sub, 'gone) hub_api \<Rightarrow> ('w \<Rightarrow> event list) \<Rightarrow> bool" where
  "hub_logs H logged \<longleftrightarrow>
     (\<forall>e w. logged (hub_publish H e w) = logged w @ [e]) \<and> (\<forall>n w. logged (hub_next H n w) = logged w)"

definition failing_before :: "eventing \<Rightarrow> stage \<Rightarrow> nat" where
  "failing_before V st = (case btree_get (ev_failing V) st of Some n \<Rightarrow> n | None \<Rightarrow> 0)"

text \<open>What a stage is owed, from its rounds as pairs of how many of its pairs were recorded and how many
  of them failed: an Event for every round with records in which the failing changed.\<close>

fun stage_changes :: "string \<Rightarrow> stage \<Rightarrow> nat \<Rightarrow> (nat \<times> nat) list \<Rightarrow> event list" where
  "stage_changes at st before [] = []"
| "stage_changes at st before ((pairs, failing) # rest) =
     (if pairs = 0 \<or> failing = before then []
      else [\<lparr>ee_stage = st, ee_outcome = (if failing > before then Event_Failure else Event_Success), ee_at = at,
        ee_pairs = pairs, ee_failing = failing\<rparr>]) @ stage_changes at st failing rest"

definition stage_round ::
    "observe_api \<Rightarrow> (string \<Rightarrow> stage option) \<Rightarrow> node_api \<Rightarrow> string \<Rightarrow> stage \<Rightarrow> snapshot \<Rightarrow> nat \<times> nat" where
  "stage_round O' scope_stage N node st snap =
     (length (health_under O' snap (stage_at N node st)), stage_failing O' scope_stage N node snap st)"

abbreviation of_stage :: "stage \<Rightarrow> event list \<Rightarrow> event list" where
  "of_stage st es \<equiv> filter (\<lambda>e. ee_stage e = st) es"

lemma raise_keeps:
  "ev_node (fst (eventing_raise O' scope_stage N snap st V)) = ev_node V"
  "ev_stages (fst (eventing_raise O' scope_stage N snap st V)) = ev_stages V"
  "failing_before (fst (eventing_raise O' scope_stage N snap st V)) st'
     = (if st' = st then stage_failing O' scope_stage N (ev_node V) snap st else failing_before V st')"
  by (simp_all add: eventing_raise_def Let_def failing_before_def store_simps)

lemma raise_events:
  "of_stage st' (snd (eventing_raise O' scope_stage N snap st V))
     = (if st' = st then stage_changes (stage_at N (ev_node V) st) st (failing_before V st)
          [stage_round O' scope_stage N (ev_node V) st snap] else [])"
  by (simp add: eventing_raise_def Let_def failing_before_def stage_round_def)

text \<open>The fold over the stages, where none is named twice: each is raised once, from what it was before.\<close>

lemma raise_next_pair:
  "eventing_raise_next O' scope_stage N snap s (V, es) =
     (fst (eventing_raise O' scope_stage N snap s V), es @ snd (eventing_raise O' scope_stage N snap s V))"
  by (simp add: eventing_raise_next_def case_prod_beta)

lemma raise_fold:
  assumes "distinct sts"
  shows "ev_node (fst (fold (eventing_raise_next O' scope_stage N snap) sts (V, es))) = ev_node V"
    and "ev_stages (fst (fold (eventing_raise_next O' scope_stage N snap) sts (V, es))) = ev_stages V"
    and "failing_before (fst (fold (eventing_raise_next O' scope_stage N snap) sts (V, es))) st
      = (if st \<in> set sts then stage_failing O' scope_stage N (ev_node V) snap st else failing_before V st)"
    and "of_stage st (snd (fold (eventing_raise_next O' scope_stage N snap) sts (V, es))) = of_stage st es @
      (if st \<in> set sts then stage_changes (stage_at N (ev_node V) st) st (failing_before V st)
          [stage_round O' scope_stage N (ev_node V) st snap] else [])"
  using assms
proof (induction sts arbitrary: V es)
  case (Cons s sts)
  {
    case 1 then show ?case using Cons(1) by (simp add: raise_next_pair raise_keeps)
  next
    case 2 then show ?case using Cons(2) by (simp add: raise_next_pair raise_keeps)
  next
    case 3 then show ?case using Cons(3) by (auto simp: raise_next_pair raise_keeps)
  next
    case 4 then show ?case using Cons(4) by (auto simp: raise_next_pair raise_keeps raise_events)
  }
qed simp_all

lemmas raise_all = raise_fold [where sts = "ev_stages V" and V = V and es = "[]" for V, folded eventing_raise_all_def]

lemma published_log: "hub_logs H logged \<Longrightarrow> logged (fold (hub_publish H) es w) = logged w @ es"
  by (induction es arbitrary: w) (simp_all add: hub_logs_def)

lemma round_raised:
  assumes "hub_logs H logged"
  shows "ev_node (fst (fst (eventing_round H O' scope_stage N snap (V, w)))) = ev_node (fst (eventing_raise_all O' scope_stage N snap V))"
    "ev_stages (fst (fst (eventing_round H O' scope_stage N snap (V, w)))) = ev_stages (fst (eventing_raise_all O' scope_stage N snap V))"
    "failing_before (fst (fst (eventing_round H O' scope_stage N snap (V, w)))) st
      = failing_before (fst (eventing_raise_all O' scope_stage N snap V)) st"
    "logged (snd (fst (eventing_round H O' scope_stage N snap (V, w)))) = logged w @ snd (eventing_raise_all O' scope_stage N snap V)"
  using assms by (simp_all add: eventing_round_def case_prod_beta Let_def failing_before_def published_log hub_logs_def)

lemma rounds_changes:
  assumes "hub_logs H logged" and "distinct (ev_stages V)" and "st \<in> set (ev_stages V)"
  shows "of_stage st (logged (snd (eventing_rounds H O' scope_stage N snaps (V, w))))
      = of_stage st (logged w) @ stage_changes (stage_at N (ev_node V) st) st (failing_before V st)
          (map (stage_round O' scope_stage N (ev_node V) st) snaps)"
  using assms(2,3)
proof (induction snaps arbitrary: V w)
  case (Cons snap snaps)
  obtain V1 w1 rs where round: "eventing_round H O' scope_stage N snap (V, w) = ((V1, w1), rs)" by (metis surj_pair)
  note raised = round_raised [OF assms(1), of O' scope_stage N snap V w, unfolded round fst_conv snd_conv]
  note all = raise_all [OF Cons.prems(1), where O' = O' and scope_stage = scope_stage and N = N and snap = snap]
  have "of_stage st (logged (snd (eventing_rounds H O' scope_stage N snaps (V1, w1))))
      = of_stage st (logged w1) @ stage_changes (stage_at N (ev_node V) st) st
          (stage_failing O' scope_stage N (ev_node V) snap st) (map (stage_round O' scope_stage N (ev_node V) st) snaps)"
    using Cons.IH [of V1 w1] Cons.prems raised all by simp
  moreover have "of_stage st (logged w1) = of_stage st (logged w) @ stage_changes (stage_at N (ev_node V) st) st
      (failing_before V st) [stage_round O' scope_stage N (ev_node V) st snap]"
    using raised(4) all(4) [where st = st] Cons.prems(2) by simp
  ultimately show ?case
    by (simp add: eventing_rounds_def round stage_round_def [of O' scope_stage N "ev_node V" st snap])
qed (simp add: eventing_rounds_def)

lemma changes_last:
  assumes "\<forall>r \<in> set rs. fst r \<noteq> 0"
  shows "(case stage_changes at st before rs of [] \<Rightarrow> before | es \<Rightarrow> ee_failing (last es))
    = (if rs = [] then before else snd (last rs))"
  using assms
proof (induction at st before rs rule: stage_changes.induct)
  case (2 at st before pairs failing rest)
  then show ?case by (cases "stage_changes at st failing rest"; cases rest) auto
qed simp


text \<open>A hub whose world is what was published, and two rounds of one failing pair, then none.\<close>

definition log_hub :: "(event list, unit, unit) hub_api" where
  "log_hub = \<lparr>hub_publish = \<lambda>e w. w @ [e], hub_next = \<lambda>n w. w, hub_closed = \<lambda>w. False, hub_standing = \<lambda>node w. [],
     hub_unheard = \<lambda>w. [], hub_gone_by = \<lambda>gone. [], hub_number = \<lambda>target. None,
     hub_act = \<lambda>number act who w. (Inr act, w)\<rparr>"

definition one_pair :: "health \<Rightarrow> snapshot" where
  "one_pair h = [RecordHealth \<lparr>hr_scope = ''n/process/tcp/json'', hr_health = h, hr_severity = 0, hr_evidence = [],
     hr_observed = 0\<rparr>]"

definition pair_observe :: observe_api where
  "pair_observe = \<lparr>health_records = recorded, health_under = \<lambda>snap at. filter (\<lambda>r. prefix at (hr_scope r)) (recorded snap),
     worst_under = \<lambda>snap at. None, counted_at = \<lambda>st. Counted_Messages\<rparr>"


text \<open>
  A round without a record of a stage sets its failing to none and says nothing: a pair that failed
  before it and holds after it is never said to hold, and the last Event of the stage stays a failure.
\<close>

lemma recovery_over_a_gap_is_unheard:
  "map ee_outcome (snd (eventing_rounds log_hub pair_observe (\<lambda>scope. Some Process) documented_node
      [one_pair Done, [], one_pair Fine] (fst (eventing_start ''n'' [Process] (Inr ()) (Inr ())), []))) = [Event_Failure]"
  by code_simp

end
