(* ===== verification/In_Process.thy ===== *)
theory In_Process
  imports Schedule Low_Latency Heavy_Load Retention Filing Exclusive_Claim Daily_Backlog Cluster
begin

text \<open>
  The scenarios a roll runs in its own process (\<open>src/in_process.rs\<close>): the seven of them, each beneath the
  cluster's root under its own name and sized for the level, and a round of those chosen merged into
  one snapshot. What a round of each meets, the instants, how long its exchanges took and what others
  did to its directory, is the argument of the round. Each scenario is its own theory's.
\<close>

section \<open>The scenarios\<close>

record 's in_process =
  ip_chosen :: "string list"
  ip_relayed :: bool
  ip_round_trip :: schedule
  ip_low_latency :: low_latency
  ip_heavy_load :: heavy_load
  ip_retention :: retention
  ip_filing :: "'s filing"
  ip_exclusive_claim :: exclusive_claim
  ip_daily_backlog :: daily_backlog

text \<open>The size of a heavy load, from what \<open>XMIP_ESSENTIALS_LOAD_BYTES\<close> says: \<open>unit\<close> starts at its first letter.\<close>

definition is_letter :: "char \<Rightarrow> bool" where
  "is_letter c \<longleftrightarrow> 97 \<le> (of_char c :: nat) \<and> (of_char c :: nat) \<le> 122"

definition load_bytes :: "string option \<Rightarrow> nat" where
  "load_bytes said =
     (case said of
        None \<Rightarrow> 1048576
      | Some raw \<Rightarrow>
          let low = to_ascii_lowercase (trim raw);
              number = takeWhile (\<lambda>c. \<not> is_letter c) low;
              unit = dropWhile (\<lambda>c. \<not> is_letter c) low;
              scale = (if unit \<in> {''gb'', ''g''} then 1073741824
                       else if unit \<in> {''mb'', ''m''} then 1048576
                       else if unit \<in> {''kb'', ''k''} then 1024 else 1) in
          (case parse_unsigned 64 (trim number) of
             Some v \<Rightarrow> min (v * scale) (2 ^ 64 - 1)
           | None \<Rightarrow> 1048576))"

text \<open>Each over transports of its own directory: \<open>trip\<close>, \<open>latency\<close> and \<open>load\<close>.\<close>

definition in_process_new ::
    "('id, 'facts) estate \<Rightarrow> string \<Rightarrow> adapter list \<Rightarrow> adapter list \<Rightarrow> adapter list \<Rightarrow> 's cabinet list \<Rightarrow> nat \<Rightarrow> string
       \<Rightarrow> string option \<Rightarrow> dir \<Rightarrow> stress \<Rightarrow> string list \<Rightarrow> bool \<Rightarrow> 's in_process \<times> dir" where
  "in_process_new E root trip latency load cabinets pid claim_dir said backlog level chosen relayed =
     (let share = stress_workers (es_cores E) level * 16;
          scope = (\<lambda>name. root @ ''/'' @ name);
          (B, backlog) = daily_new pid (scope ''daily-backlog'') backlog in
      (\<lparr>ip_chosen = chosen, ip_relayed = relayed,
        ip_round_trip = pairs_per_round share (schedule_rotating (schedule_new E (scope ''round-trip'') trip)),
        ip_low_latency = low_latency_per_round share (low_latency_at Realistic (low_latency_new (scope ''low-latency'') latency)),
        ip_heavy_load = heavy_load_per_round (stress_workers (es_cores E) level * 8) (heavy_load_with_bytes (load_bytes said)
          (heavy_load_at Realistic (heavy_load_new (scope ''heavy-load'') load))),
        ip_retention = retention_at Realistic (retention_new (scope ''retention'')),
        ip_filing = filing_at Realistic (filing_new (scope ''filing'') cabinets),
        ip_exclusive_claim = under_pressure (exclusive_claim_new (scope ''exclusive-claim'') claim_dir pid),
        ip_daily_backlog = B\<rparr>, backlog))"

section \<open>A round\<close>

text \<open>What is around it: \<open>is_counts\<close> is \<open>Snapshot::all_counts\<close>.\<close>

record ('id, 'facts) in_surroundings =
  is_estate :: "('id, 'facts) estate"
  is_millis :: "nat \<Rightarrow> string"
  is_display :: load_display
  is_counts :: "snapshot \<Rightarrow> count_record list"

record in_round =
  ir_now :: "string \<Rightarrow> int"
  ir_latency :: "nat \<times> contract \<Rightarrow> nat"
  ir_load :: "nat \<times> contract \<Rightarrow> nat"
  ir_exercised :: "exclusive_claim \<Rightarrow> style \<Rightarrow> claim_verdict"
  ir_others :: others

text \<open>The stores its filing files into, and the directory of its backlog.\<close>

type_synonym 's in_world = "'s in_process \<times> 's \<times> dir"

definition in_merge :: "('id, 'facts) in_surroundings \<Rightarrow> snapshot \<Rightarrow> snapshot \<Rightarrow> snapshot" where
  "in_merge X = merge_snapshots (es_observe (is_estate X)) (is_counts X)"

definition in_round_trip ::
    "('id, 'facts) in_surroundings \<Rightarrow> in_round \<Rightarrow> 's in_world \<times> snapshot \<Rightarrow> 's in_world \<times> snapshot" where
  "in_round_trip X W = (\<lambda>((P, s, d), snap).
     if scenario_drives (ip_chosen P) ''round-trip'' \<and> \<not> ip_relayed P
     then (case schedule_tick (is_estate X) (ir_now W ''round-trip'') (ip_round_trip P) of
       (S, ticked) \<Rightarrow> ((P\<lparr>ip_round_trip := S\<rparr>, s, d), in_merge X snap ticked))
     else ((P, s, d), snap))"

definition in_low_latency ::
    "('id, 'facts) in_surroundings \<Rightarrow> in_round \<Rightarrow> 's in_world \<times> snapshot \<Rightarrow> 's in_world \<times> snapshot" where
  "in_low_latency X W = (\<lambda>((P, s, d), snap).
     if scenario_drives (ip_chosen P) ''low-latency''
     then (case low_latency_tick (is_millis X) (es_codecs (is_estate X)) (ir_latency W) (ir_now W ''low-latency'')
         (ip_low_latency P) of (L, ticked) \<Rightarrow> ((P\<lparr>ip_low_latency := L\<rparr>, s, d), in_merge X snap ticked))
     else ((P, s, d), snap))"

definition in_heavy_load ::
    "('id, 'facts) in_surroundings \<Rightarrow> in_round \<Rightarrow> 's in_world \<times> snapshot \<Rightarrow> 's in_world \<times> snapshot" where
  "in_heavy_load X W = (\<lambda>((P, s, d), snap).
     if scenario_drives (ip_chosen P) ''heavy-load''
     then (case heavy_load_tick (is_display X) (es_contracts (is_estate X)) (es_codecs (is_estate X)) (ir_load W)
         (ir_now W ''heavy-load'') (ip_heavy_load P) of
       (H, ticked) \<Rightarrow> ((P\<lparr>ip_heavy_load := H\<rparr>, s, d), in_merge X snap ticked))
     else ((P, s, d), snap))"

definition in_retention ::
    "('id, 'facts) in_surroundings \<Rightarrow> in_round \<Rightarrow> nat \<Rightarrow> 's in_world \<times> snapshot \<Rightarrow> 's in_world \<times> snapshot" where
  "in_retention X W simulated = (\<lambda>((P, s, d), snap).
     if scenario_drives (ip_chosen P) ''retention''
     then (case retention_tick (ir_now W ''retention'') simulated (ip_retention P) of
       (R, ticked) \<Rightarrow> ((P\<lparr>ip_retention := R\<rparr>, s, d), in_merge X snap ticked))
     else ((P, s, d), snap))"

definition in_filing ::
    "('id, 'facts) in_surroundings \<Rightarrow> in_round \<Rightarrow> 's in_world \<times> snapshot \<Rightarrow> 's in_world \<times> snapshot" where
  "in_filing X W = (\<lambda>((P, s, d), snap).
     if scenario_drives (ip_chosen P) ''filing''
     then (case filing_tick (es_codecs (is_estate X)) (ir_now W ''filing'') (ip_filing P, s) of
       ((F, s), ticked) \<Rightarrow> ((P\<lparr>ip_filing := F\<rparr>, s, d), in_merge X snap ticked))
     else ((P, s, d), snap))"

definition in_exclusive_claim ::
    "('id, 'facts) in_surroundings \<Rightarrow> in_round \<Rightarrow> 's in_world \<times> snapshot \<Rightarrow> 's in_world \<times> snapshot" where
  "in_exclusive_claim X W = (\<lambda>((P, s, d), snap).
     if scenario_drives (ip_chosen P) ''exclusive-claim''
     then (case exclusive_claim_tick (ir_exercised W) (ir_now W ''exclusive-claim'') (ip_exclusive_claim P) of
       (C, ticked) \<Rightarrow> ((P\<lparr>ip_exclusive_claim := C\<rparr>, s, d), in_merge X snap ticked))
     else ((P, s, d), snap))"

definition in_daily_backlog ::
    "('id, 'facts) in_surroundings \<Rightarrow> in_round \<Rightarrow> 's in_world \<times> snapshot \<Rightarrow> 's in_world \<times> snapshot" where
  "in_daily_backlog X W = (\<lambda>((P, s, d), snap).
     if scenario_drives (ip_chosen P) ''daily-backlog''
     then (case daily_tick (ir_others W) (ir_now W ''daily-backlog'') (ip_daily_backlog P, d) of
       ((B, d), ticked) \<Rightarrow> ((P\<lparr>ip_daily_backlog := B\<rparr>, s, d), in_merge X snap ticked))
     else ((P, s, d), snap))"

definition in_process_tick ::
    "('id, 'facts) in_surroundings \<Rightarrow> in_round \<Rightarrow> nat \<Rightarrow> 's in_world \<Rightarrow> 's in_world \<times> snapshot" where
  "in_process_tick X W simulated PW =
     in_daily_backlog X W (in_exclusive_claim X W (in_filing X W (in_retention X W simulated (in_heavy_load X W
       (in_low_latency X W (in_round_trip X W (PW, [])))))))"

text \<open>The rounds of a roll, each with what it meets and the simulated time it is at.\<close>

definition in_process_ticks ::
    "('id, 'facts) in_surroundings \<Rightarrow> (in_round \<times> nat) list \<Rightarrow> 's in_world \<Rightarrow> 's in_world" where
  "in_process_ticks X = fold (\<lambda>(W, simulated) PW. fst (in_process_tick X W simulated PW))"

section \<open>Where each publishes\<close>

definition beneath :: "string \<Rightarrow> string \<Rightarrow> bool" where
  "beneath node scope \<longleftrightarrow> scope = node \<or> prefix (node @ ''/'') scope"

definition scope_of :: "recording \<Rightarrow> string" where
  "scope_of r = (case r of RecordHealth h \<Rightarrow> hr_scope h | RecordCount c \<Rightarrow> cr_scope c)"

definition all_beneath :: "string \<Rightarrow> snapshot \<Rightarrow> bool" where
  "all_beneath node snap \<longleftrightarrow> (\<forall>r \<in> set snap. beneath node (scope_of r))"

lemma beneath_simps [simp]:
  "beneath node node" "beneath node (node @ CHR ''/'' # rest)" "beneath node (node @ ''/'' @ rest)"
  by (simp_all add: beneath_def)

lemma scope_of_simps [simp]:
  "scope_of (RecordHealth h) = hr_scope h" "scope_of (RecordCount c) = cr_scope c"
  by (simp_all add: scope_of_def)

lemma all_beneath_simps [simp]:
  "all_beneath node []" "all_beneath node (r # snap) \<longleftrightarrow> beneath node (scope_of r) \<and> all_beneath node snap"
  "all_beneath node (xs @ ys) \<longleftrightarrow> all_beneath node xs \<and> all_beneath node ys"
  by (auto simp: all_beneath_def)

lemma standing_scope [simp]: "hr_scope (standing_health st scope now) = scope"
  by (simp add: standing_health_def Let_def)

lemma fold_invariant: "P a \<Longrightarrow> (\<And>x a. x \<in> set xs \<Longrightarrow> P a \<Longrightarrow> P (f x a)) \<Longrightarrow> P (fold f xs a)"
  by (induction xs arbitrary: a) auto

definition keys_beneath :: "string \<Rightarrow> (string, 'v) btree \<Rightarrow> bool" where
  "keys_beneath node m \<longleftrightarrow> (\<forall>k \<in> fst ` set m. beneath node k)"

lemma keys_beneath_simps [simp]:
  "keys_beneath node []" "keys_beneath node (btree_insert k v m) \<longleftrightarrow> beneath node k \<and> keys_beneath node m"
  "keys_beneath node (btree_upsert k d f m) \<longleftrightarrow> beneath node k \<and> keys_beneath node m"
  by (auto simp: keys_beneath_def btree_upsert_def fst_set_btree_insert)

text \<open>What each scenario keeps to: its node, and the scopes it remembers.\<close>

definition trip_within :: "string \<Rightarrow> schedule \<Rightarrow> bool" where
  "trip_within node S \<longleftrightarrow> lg_node (sc_ledger S) = node \<and> keys_beneath node (lg_tallies (sc_ledger S))"

lemma ledger_run_beneath:
  assumes "keys_beneath (lg_node L) (lg_tallies L)" and "all_beneath (lg_node L) snap"
  shows "keys_beneath (lg_node L) (lg_tallies (fst (ledger_run N now vs (L, snap))))
    \<and> all_beneath (lg_node L) (snd (ledger_run N now vs (L, snap)))"
proof -
  have "verdict_scope N node v = node @ ''/'' @ drop (length node + 1) (verdict_scope N node v)" for node v
    by (simp add: verdict_scope_def Let_def split: option.splits)
  then have scope: "beneath node (verdict_scope N node v)" for node v by (metis beneath_simps(3))
  let ?P = "\<lambda>Ls. lg_node (fst Ls) = lg_node L \<and> keys_beneath (lg_node L) (lg_tallies (fst Ls))
      \<and> all_beneath (lg_node L) (snd Ls)"
  have "?P (ledger_run N now vs (L, snap))"
  proof (rule fold_invariant [where P = ?P])
    show "?P (ledger_fold N now v Ls)" if "?P Ls" for v Ls
      using that scope by (simp add: lg_tallies_fold snapshot_fold)
  qed (simp add: assms)
  then show ?thesis by blast
qed

lemma trip_tick:
  assumes "trip_within node S"
  shows "trip_within node (fst (schedule_tick E now S)) \<and> all_beneath node (snd (schedule_tick E now S))"
proof -
  let ?S = "S\<lparr>sc_round := sc_round S + 1\<rparr>"
  obtain L snap where run: "ledger_run (es_node E) now (schedule_run_once E ?S now) (sc_ledger ?S, []) = (L, snap)"
    by (metis surj_pair)
  have node: "lg_node L = node" using run lg_node_run [of "es_node E" now "schedule_run_once E ?S now" "(sc_ledger ?S, [])"] assms
    by (simp add: trip_within_def)
  from ledger_run_beneath [of "sc_ledger ?S" "[]" "es_node E" now "schedule_run_once E ?S now"] run assms
  have kept: "keys_beneath node (lg_tallies L)" "all_beneath node snap" by (auto simp: trip_within_def)
  have "all_beneath node (ledger_close (es_node E) (es_observe E) L snap now)"
    using kept node by (auto simp: ledger_close_def Let_def stage_counts_def all_beneath_def keys_beneath_def)
  then show ?thesis
    using run kept node by (simp add: schedule_tick_def Let_def trip_within_def split: option.splits)
qed

definition latency_within :: "string \<Rightarrow> low_latency \<Rightarrow> bool" where
  "latency_within node L \<longleftrightarrow> ll_node L = node \<and> keys_beneath node (ll_seen L)"

lemma latency_tick:
  assumes "latency_within node L"
  shows "latency_within node (fst (low_latency_tick millis W elapsed now L))
    \<and> all_beneath node (snd (low_latency_tick millis W elapsed now L))"
proof -
  let ?L = "L\<lparr>ll_round := ll_round L + 1\<rparr>"
  let ?pairs = "slice (all_pairs (ll_transports ?L)) (ll_cursor ?L) (ll_per_round ?L)"
  obtain L' snap where run: "fold (latency_pair millis W elapsed now) ?pairs (?L, []) = (L', snap)" by (metis surj_pair)
  have scope: "hr_scope (latency_health millis L scope transport now) = scope" for L scope transport
    by (simp add: latency_health_def Let_def split: option.splits)
  let ?P = "\<lambda>Ls. latency_within node (fst Ls) \<and> all_beneath node (snd Ls)"
  have "?P (fold (latency_pair millis W elapsed now) ?pairs (?L, []))"
  proof (rule fold_invariant [where P = ?P])
    show "?P (latency_pair millis W elapsed now pair Ls)" if "?P Ls" for pair Ls
      using that by (cases Ls)
        (simp add: latency_within_def latency_pair_def Let_def scope latency_red_def latency_yellow_def split: exchange.splits)
  qed (use assms in \<open>simp add: latency_within_def\<close>)
  with run have kept: "latency_within node L'" "all_beneath node snap" by auto
  then show ?thesis
    using run by (auto simp: low_latency_tick_def Let_def all_beneath_def latency_within_def keys_beneath_def scope split: option.splits)
qed

definition load_within :: "string \<Rightarrow> heavy_load \<Rightarrow> bool" where
  "load_within node H \<longleftrightarrow> hv_node H = node \<and> keys_beneath node (hv_standings H)"

lemma load_tick:
  assumes "load_within node H"
  shows "load_within node (fst (heavy_load_tick D C W elapsed now H)) \<and> all_beneath node (snd (heavy_load_tick D C W elapsed now H))"
proof -
  let ?H = "H\<lparr>hv_round := hv_round H + 1\<rparr>"
  have "load_within node (fold (load_fold D C W elapsed) (heavy_load_pairs ?H) ?H)"
    using assms
    by (intro fold_invariant [where P = "load_within node"]) (simp_all add: load_within_def load_fold_def Let_def)
  then show ?thesis by (auto simp: heavy_load_tick_def Let_def load_within_def all_beneath_def keys_beneath_def)
qed

lemma retention_beneath:
  "rt_node (fst (retention_tick now simulated R)) = rt_node R \<and> all_beneath (rt_node R) (snd (retention_tick now simulated R))"
proof -
  define S where "S = create_through simulated (R\<lparr>rt_round := rt_round R + 1\<rparr>)"
  obtain Q lk where swept: "sweep_live simulated S = (Q, lk)" by (metis surj_pair)
  then have node: "rt_node Q = rt_node R" by (auto simp: sweep_live_result S_def)
  let ?step = "\<lambda>sc (R, snap). let (R, r) = retention_verdict (retention_scope R sc) (fst sc) (snd sc) lk now R in
          (R, snap @ [RecordHealth r])"
  let ?P = "\<lambda>Rs. rt_node (fst Rs) = rt_node R \<and> all_beneath (rt_node R) (snd Rs)"
  have "?P (fold ?step (List.product SWEEPS CONTRACTS) (Q, []))"
  proof (rule fold_invariant [where P = ?P])
    show "?P (?step sc Rs)" if "?P Rs" for sc Rs
      using that by (cases Rs; cases sc) (simp add: retention_verdict_def retention_scope_def Let_def case_prod_beta)
  qed (simp add: node)
  then show ?thesis unfolding retention_tick_def Let_def S_def [symmetric] swept by simp
qed

lemma filing_beneath:
  fixes F :: "'s filing"
  assumes "filing_tick W now (F, s) = ((F', s'), snap)"
  shows "fl_node F' = fl_node F \<and> all_beneath (fl_node F) snap"
proof -
  let ?F = "F\<lparr>fl_round := fl_round F + 1\<rparr>"
  have scope: "fg_scope (fst (filing_judge W F cab c s)) = fl_node F @ ''/'' @ cb_technology cab @ ''/'' @ contract_name c"
    for F :: "'s filing" and cab c s by (simp add: filing_judge_def Let_def split: prod.splits filed.splits)
  have "list_all (\<lambda>l. beneath (fl_node F) (fg_scope l)) (fst (file_each W ?F pairs s))" for pairs s
  proof (induction pairs arbitrary: s)
    case (Cons pair pairs)
    then show ?case by (cases pair) (simp add: Let_def case_prod_beta scope)
  qed simp
  then have lines: "\<And>l. l \<in> set (fst (file_round W ?F s)) \<Longrightarrow> beneath (fl_node F) (fg_scope l)"
    by (fastforce simp: file_round_def list_all_iff)
  let ?P = "\<lambda>Fs. fl_node (fst Fs) = fl_node F \<and> all_beneath (fl_node F) (snd Fs)"
  have "?P (fold (filing_fold now) (fst (file_round W ?F s)) (?F, []))"
  proof (rule fold_invariant [where P = ?P])
    show "?P (filing_fold now l Fs)" if "l \<in> set (fst (file_round W ?F s))" "?P Fs" for l Fs
      using that lines by (cases Fs) (simp add: filing_fold_def Let_def)
  qed simp
  with assms show ?thesis by (fastforce simp: filing_tick_def Let_def split: prod.splits)
qed

lemma claim_beneath:
  "ec_node (fst (exclusive_claim_tick exercised now C)) = ec_node C
   \<and> all_beneath (ec_node C) (snd (exclusive_claim_tick exercised now C))"
proof -
  let ?step = "\<lambda>st (E, snap). let (E, r) = claim_fold st (exercised E st) now E in (E, snap @ [RecordHealth r])"
  let ?P = "\<lambda>Es. ec_node (fst Es) = ec_node C \<and> all_beneath (ec_node C) (snd Es)"
  have "?P (fold ?step STYLES (C\<lparr>ec_round := ec_round C + 1\<rparr>, []))"
  proof (rule fold_invariant [where P = ?P])
    show "?P (?step st Es)" if "?P Es" for st Es
      using that by (cases Es) (simp add: claim_fold_def Let_def split: claim_verdict.splits)
  qed simp
  then show ?thesis by (simp add: exclusive_claim_tick_def Let_def)
qed

lemma backlog_beneath:
  assumes "daily_tick A now (B, d) = ((B', d'), snap)"
  shows "db_node B' = db_node B \<and> all_beneath (db_node B) snap"
proof -
  have "db_node (fst (daily_arrive n W)) = db_node (fst W)" for n W
    by (induction n arbitrary: W) (simp_all add: Let_def case_prod_beta)
  then have arrive: "daily_arrive n (B, d) = (S, e) \<Longrightarrow> db_node S = db_node B" for n B d S e by (metis fst_conv)
  have settle: "db_node (daily_settle capacity processed m S) = db_node S" for capacity processed m S
    by (cases m) (simp add: daily_settle_def daily_escalate_def Let_def)
  show ?thesis
    using assms arrive by (auto simp: daily_tick_def Let_def settle daily_counts_def split: prod.splits)
qed

text \<open>What \<open>observe\<close> reads of a snapshot is what was recorded in it.\<close>

definition reads_recorded :: "('id, 'facts) in_surroundings \<Rightarrow> bool" where
  "reads_recorded X \<longleftrightarrow> records_scopes (es_observe (is_estate X))
     \<and> (\<forall>snap. \<forall>c \<in> set (is_counts X snap). \<exists>r \<in> set snap. cr_scope c = scope_of r)"

lemma recorded_in: "h \<in> set (recorded snap) \<Longrightarrow> RecordHealth h \<in> set snap"
  by (auto simp: recorded_def split: recording.splits)

lemma merged_scopes:
  assumes "reads_recorded X" and "r \<in> set (in_merge X snap ticked)"
  shows "r \<in> set snap \<or> scope_of r \<in> scope_of ` set ticked"
proof -
  from assms(2) consider (kept) "r \<in> set snap"
    | (health) h where "h \<in> set (health_records (es_observe (is_estate X)) ticked)" "r = RecordHealth h"
    | (count) c where "c \<in> set (is_counts X ticked)" "r = RecordCount c"
    by (auto simp: in_merge_def merge_snapshots_def)
  then show ?thesis
  proof cases
    case health
    then have "hr_scope h \<in> hr_scope ` set (recorded ticked)"
      using assms(1) by (auto simp: reads_recorded_def records_scopes_def)
    then obtain g where "g \<in> set (recorded ticked)" "hr_scope h = hr_scope g" by auto
    with recorded_in [of g ticked] health show ?thesis by (metis image_eqI scope_of_simps(1))
  next
    case count
    with assms(1) show ?thesis by (auto simp: reads_recorded_def)
  qed simp
qed

text \<open>What a scenario's step does: it leaves the seven where they are, and what it adds is beneath its own,
  if it is driven.\<close>

definition adds_beneath :: "string \<Rightarrow> bool \<Rightarrow> snapshot \<Rightarrow> snapshot \<Rightarrow> bool" where
  "adds_beneath node driven snap snap' \<longleftrightarrow>
     (\<forall>r \<in> set snap'. r \<in> set snap \<or> driven \<and> beneath node (scope_of r))"

lemma adds_merge:
  "reads_recorded X \<Longrightarrow> all_beneath node ticked \<Longrightarrow> driven \<Longrightarrow> adds_beneath node driven snap (in_merge X snap ticked)"
  using merged_scopes [of X _ snap ticked] by (fastforce simp: adds_beneath_def all_beneath_def)

lemma adds_nothing: "adds_beneath node driven snap snap"
  by (simp add: adds_beneath_def)

section \<open>What every scenario promises\<close>

text \<open>
  The contract the seven scenarios share: a round leaves a scenario where it was, and all it publishes is
  beneath its node. \<open>'a\<close> is what its round is given.
\<close>

locale scenario =
  fixes keeps_place :: "string \<Rightarrow> 'st \<Rightarrow> bool"
    and tick :: "'a \<Rightarrow> 'st \<Rightarrow> 'st \<times> snapshot"
  assumes stays: "keeps_place node S \<Longrightarrow> keeps_place node (fst (tick a S))"
    and publishes: "keeps_place node S \<Longrightarrow> all_beneath node (snd (tick a S))"
begin

lemma merges:
  assumes "reads_recorded X" and "keeps_place node S"
  shows "keeps_place node (fst (tick a S)) \<and> adds_beneath node True snap (in_merge X snap (snd (tick a S)))"
  by (intro conjI stays adds_merge publishes assms TrueI)

lemma stays_through: "keeps_place node S \<Longrightarrow> keeps_place node (fold (\<lambda>a S. fst (tick a S)) as S)"
  by (induction as arbitrary: S) (simp_all add: stays)

lemma publishes_through: "keeps_place node S \<Longrightarrow> all_beneath node (snd (tick a (fold (\<lambda>a S. fst (tick a S)) as S)))"
  by (rule publishes [OF stays_through])

end

interpretation trip: scenario trip_within "\<lambda>(E, now). schedule_tick E now"
  by unfold_locales (auto simp: trip_tick)

interpretation timed: scenario latency_within "\<lambda>(millis, W, elapsed, now). low_latency_tick millis W elapsed now"
  by unfold_locales (auto simp: latency_tick)

interpretation loaded: scenario load_within "\<lambda>(D, C, W, elapsed, now). heavy_load_tick D C W elapsed now"
  by unfold_locales (auto simp: load_tick)

interpretation swept: scenario "\<lambda>node R. rt_node R = node" "\<lambda>(now, simulated). retention_tick now simulated"
  by unfold_locales (auto simp: retention_beneath)

interpretation kept_whole: scenario "\<lambda>node Fs. fl_node (fst Fs) = node" "\<lambda>(W, now). filing_tick W now"
proof unfold_locales
  show "fl_node (fst (fst ((case a of (W, now) \<Rightarrow> filing_tick W now) Fs))) = node"
    and "all_beneath node (snd ((case a of (W, now) \<Rightarrow> filing_tick W now) Fs))"
    if "fl_node (fst Fs) = node" for node and Fs :: "'s filing \<times> 's" and a :: "codec_api \<times> int"
  proof -
    obtain x now y s where pair: "a = (x, now)" "Fs = (y, s)" by (cases a, cases Fs)
    obtain y' s' snap where "filing_tick x now (y, s) = ((y', s'), snap)" by (metis prod.collapse)
    from filing_beneath [OF this] this that
    show "fl_node (fst (fst ((case a of (x, now) \<Rightarrow> filing_tick x now) Fs))) = node"
      and "all_beneath node (snd ((case a of (x, now) \<Rightarrow> filing_tick x now) Fs))"
      by (simp_all add: pair)
  qed
qed

interpretation contended: scenario "\<lambda>node C. ec_node C = node" "\<lambda>(exercised, now). exclusive_claim_tick exercised now"
  by unfold_locales (auto simp: claim_beneath)

interpretation drains: scenario "\<lambda>node Bd. db_node (fst Bd) = node" "\<lambda>(A, now). daily_tick A now"
proof unfold_locales
  show "db_node (fst (fst ((case a of (A, now) \<Rightarrow> daily_tick A now) Bd))) = node"
    and "all_beneath node (snd ((case a of (A, now) \<Rightarrow> daily_tick A now) Bd))"
    if "db_node (fst Bd) = node" for node Bd and a :: "others \<times> int"
  proof -
    obtain x now y s where pair: "a = (x, now)" "Bd = (y, s)" by (cases a, cases Bd)
    obtain y' s' snap where "daily_tick x now (y, s) = ((y', s'), snap)" by (metis prod.collapse)
    from backlog_beneath [OF this] this that
    show "db_node (fst (fst ((case a of (x, now) \<Rightarrow> daily_tick x now) Bd))) = node"
      and "all_beneath node (snd ((case a of (x, now) \<Rightarrow> daily_tick x now) Bd))"
      by (simp_all add: pair)
  qed
qed

section \<open>All seven\<close>

text \<open>All seven, each beneath the root under its name.\<close>

definition ip_within :: "string \<Rightarrow> 's in_world \<Rightarrow> bool" where
  "ip_within root = (\<lambda>(P, s, d).
     trip_within (root @ ''/round-trip'') (ip_round_trip P) \<and> latency_within (root @ ''/low-latency'') (ip_low_latency P)
     \<and> load_within (root @ ''/heavy-load'') (ip_heavy_load P) \<and> rt_node (ip_retention P) = root @ ''/retention''
     \<and> fl_node (ip_filing P) = root @ ''/filing'' \<and> ec_node (ip_exclusive_claim P) = root @ ''/exclusive-claim''
     \<and> db_node (ip_daily_backlog P) = root @ ''/daily-backlog'')"

definition keeps_to :: "string \<Rightarrow> string \<Rightarrow> bool \<Rightarrow> 's in_world \<times> snapshot \<Rightarrow> 's in_world \<times> snapshot \<Rightarrow> bool" where
  "keeps_to root name driven before after \<longleftrightarrow>
     ip_within root (fst after) \<and> ip_chosen (fst (fst after)) = ip_chosen (fst (fst before))
     \<and> ip_relayed (fst (fst after)) = ip_relayed (fst (fst before))
     \<and> adds_beneath (root @ ''/'' @ name) driven (snd before) (snd after)"

text \<open>Which scenario runs in the roll's own process.\<close>

definition runs_itself :: "string list \<Rightarrow> bool \<Rightarrow> string \<Rightarrow> bool" where
  "runs_itself chosen relayed name \<longleftrightarrow> scenario_drives chosen name \<and> (name = ''round-trip'' \<longrightarrow> \<not> relayed)"

abbreviation runs_in :: "'s in_world \<times> snapshot \<Rightarrow> string \<Rightarrow> bool" where
  "runs_in PS \<equiv> runs_itself (ip_chosen (fst (fst PS))) (ip_relayed (fst (fst PS)))"

lemma steps_keep:
  assumes "reads_recorded X" and "ip_within root (fst PS)"
  shows round_trip_keeps: "keeps_to root ''round-trip'' (runs_in PS ''round-trip'') PS (in_round_trip X W PS)"
    and low_latency_keeps: "keeps_to root ''low-latency'' (runs_in PS ''low-latency'') PS (in_low_latency X W PS)"
    and heavy_load_keeps: "keeps_to root ''heavy-load'' (runs_in PS ''heavy-load'') PS (in_heavy_load X W PS)"
    and retention_keeps: "keeps_to root ''retention'' (runs_in PS ''retention'') PS (in_retention X W simulated PS)"
    and filing_keeps: "keeps_to root ''filing'' (runs_in PS ''filing'') PS (in_filing X W PS)"
    and claim_keeps: "keeps_to root ''exclusive-claim'' (runs_in PS ''exclusive-claim'') PS (in_exclusive_claim X W PS)"
    and backlog_keeps: "keeps_to root ''daily-backlog'' (runs_in PS ''daily-backlog'') PS (in_daily_backlog X W PS)"
proof -
  obtain P s d snap where PS: "PS = ((P, s, d), snap)" by (metis surj_pair)
  note within = assms(2) [unfolded PS]
  note defs = PS keeps_to_def runs_itself_def adds_nothing ip_within_def
  show "keeps_to root ''round-trip'' (runs_in PS ''round-trip'') PS (in_round_trip X W PS)"
    using within trip.merges [OF assms(1), of "root @ ''/round-trip''" "ip_round_trip P" "(is_estate X, ir_now W ''round-trip'')" snap]
    by (auto simp: in_round_trip_def defs split: prod.splits)
  show "keeps_to root ''low-latency'' (runs_in PS ''low-latency'') PS (in_low_latency X W PS)"
    using within timed.merges [OF assms(1), of "root @ ''/low-latency''" "ip_low_latency P"
        "(is_millis X, es_codecs (is_estate X), ir_latency W, ir_now W ''low-latency'')" snap]
    by (auto simp: in_low_latency_def defs split: prod.splits)
  show "keeps_to root ''heavy-load'' (runs_in PS ''heavy-load'') PS (in_heavy_load X W PS)"
    using within loaded.merges [OF assms(1), of "root @ ''/heavy-load''" "ip_heavy_load P"
        "(is_display X, es_contracts (is_estate X), es_codecs (is_estate X), ir_load W, ir_now W ''heavy-load'')" snap]
    by (auto simp: in_heavy_load_def defs split: prod.splits)
  show "keeps_to root ''retention'' (runs_in PS ''retention'') PS (in_retention X W simulated PS)"
    using within swept.merges [OF assms(1), of "ip_retention P" "root @ ''/retention''" "(ir_now W ''retention'', simulated)" snap]
    by (auto simp: in_retention_def defs split: prod.splits)
  show "keeps_to root ''filing'' (runs_in PS ''filing'') PS (in_filing X W PS)"
    using within kept_whole.merges [OF assms(1), of "(ip_filing P, s)" "root @ ''/filing''"
        "(es_codecs (is_estate X), ir_now W ''filing'')" snap]
    by (auto simp: in_filing_def defs split: prod.splits)
  show "keeps_to root ''exclusive-claim'' (runs_in PS ''exclusive-claim'') PS (in_exclusive_claim X W PS)"
    using within contended.merges [OF assms(1), of "ip_exclusive_claim P" "root @ ''/exclusive-claim''"
        "(ir_exercised W, ir_now W ''exclusive-claim'')" snap]
    by (auto simp: in_exclusive_claim_def defs split: prod.splits)
  show "keeps_to root ''daily-backlog'' (runs_in PS ''daily-backlog'') PS (in_daily_backlog X W PS)"
    using within drains.merges [OF assms(1), of "(ip_daily_backlog P, d)" "root @ ''/daily-backlog''"
        "(ir_others W, ir_now W ''daily-backlog'')" snap]
    by (auto simp: in_daily_backlog_def defs split: prod.splits)
qed

text \<open>A round is the seven steps in turn.\<close>

definition keeps_all :: "string \<Rightarrow> 's in_world \<Rightarrow> 's in_world \<times> snapshot \<Rightarrow> bool" where
  "keeps_all root before after \<longleftrightarrow>
     ip_within root (fst after) \<and> ip_chosen (fst (fst after)) = ip_chosen (fst before)
     \<and> ip_relayed (fst (fst after)) = ip_relayed (fst before)
     \<and> (\<forall>r \<in> set (snd after). \<exists>name \<in> set SCENARIOS. runs_itself (ip_chosen (fst before)) (ip_relayed (fst before)) name
          \<and> beneath (root @ ''/'' @ name) (scope_of r))"

lemma keeps_step:
  assumes "keeps_all root PW before" and "keeps_to root name (runs_in before name) before after" and "name \<in> set SCENARIOS"
  shows "keeps_all root PW after"
  using assms unfolding keeps_all_def keeps_to_def adds_beneath_def by metis

lemma keeps_tick:
  assumes "reads_recorded X" and "ip_within root PW"
  shows "keeps_all root PW (in_process_tick X W simulated PW)"
proof -
  have start: "keeps_all root PW (PW, [])" using assms(2) by (simp add: keeps_all_def)
  have within: "ip_within root (fst PS)" if "keeps_all root PW PS" for PS using that by (simp add: keeps_all_def)
  note steps = steps_keep [OF assms(1) within]
  have names: "''round-trip'' \<in> set SCENARIOS" "''low-latency'' \<in> set SCENARIOS" "''heavy-load'' \<in> set SCENARIOS"
    "''retention'' \<in> set SCENARIOS" "''filing'' \<in> set SCENARIOS" "''exclusive-claim'' \<in> set SCENARIOS"
    "''daily-backlog'' \<in> set SCENARIOS" by (simp_all add: SCENARIOS_def)
  note 1 = keeps_step [OF start steps(1) [OF start] names(1)]
  note 2 = keeps_step [OF 1 steps(2) [OF 1] names(2)]
  note 3 = keeps_step [OF 2 steps(3) [OF 2] names(3)]
  note 4 = keeps_step [OF 3 steps(4) [OF 3] names(4)]
  note 5 = keeps_step [OF 4 steps(5) [OF 4] names(5)]
  note 6 = keeps_step [OF 5 steps(6) [OF 5] names(6)]
  note 7 = keeps_step [OF 6 steps(7) [OF 6] names(7)]
  show ?thesis unfolding in_process_tick_def by (rule 7)
qed

lemma ticks_keep:
  "reads_recorded X \<Longrightarrow> ip_within root PW \<Longrightarrow> ip_within root (in_process_ticks X Ws PW)
     \<and> ip_chosen (fst (in_process_ticks X Ws PW)) = ip_chosen (fst PW)
     \<and> ip_relayed (fst (in_process_ticks X Ws PW)) = ip_relayed (fst PW)"
proof (induction Ws arbitrary: PW)
  case (Cons Wt Ws)
  obtain W simulated where Wt: "Wt = (W, simulated)" by (cases Wt)
  from keeps_tick [OF Cons.prems, of W simulated] have "ip_within root (fst (in_process_tick X W simulated PW))"
    "ip_chosen (fst (fst (in_process_tick X W simulated PW))) = ip_chosen (fst PW)"
    "ip_relayed (fst (fst (in_process_tick X W simulated PW))) = ip_relayed (fst PW)" by (simp_all add: keeps_all_def)
  with Cons.IH [OF Cons.prems(1), of "fst (in_process_tick X W simulated PW)"] show ?case
    by (simp add: in_process_ticks_def Wt)
qed (simp add: in_process_ticks_def)

lemma new_within:
  assumes "in_process_new E root trip latency load cabinets pid claim_dir said backlog level chosen relayed = (P, d)"
  shows "ip_within root (P, s, d) \<and> ip_chosen P = chosen \<and> ip_relayed P = relayed"
  using assms by (auto simp: in_process_new_def Let_def ip_within_def trip_within_def latency_within_def load_within_def
      pairs_per_round_def schedule_rotating_def schedule_new_def ledger_new_def low_latency_per_round_def low_latency_at_def
      low_latency_new_def heavy_load_per_round_def heavy_load_with_bytes_def heavy_load_at_def heavy_load_new_def
      retention_at_def retention_new_def filing_at_def filing_new_def under_pressure_def exclusive_claim_new_def
      daily_new_def daily_shared_def split: prod.splits)

text \<open>A scope beneath a scenario's says whose it is.\<close>

lemma beneath_names:
  assumes "beneath (root @ ''/'' @ name) scope" and "CHR ''/'' \<notin> set name"
  shows "takeWhile (\<lambda>c. c \<noteq> CHR ''/'') (drop (length root + 1) scope) = name"
proof -
  from assms(2) have name: "\<forall>c \<in> set name. c \<noteq> CHR ''/''" by auto
  from assms(1) obtain rest where "scope = (root @ ''/'' @ name) @ rest" "rest = [] \<or> hd rest = CHR ''/''"
    by (auto simp: beneath_def prefix_def)
  with name show ?thesis by (cases rest) (auto simp: takeWhile_append2)
qed

text \<open>C8: no two scenarios of a roll ever publish into one scope. In any round of a roll, whatever its
  rounds before met, every record of the snapshot is beneath the subtree of exactly one scenario,
  and that one was chosen, and is not RoundTrip where the nodes run it.\<close>

theorem scenarios_never_collide:
  assumes "reads_recorded X"
    and "in_process_new (is_estate X) root trip latency load cabinets pid claim_dir said backlog level chosen relayed = (P, d)"
    and "in_process_tick X W simulated (in_process_ticks X Ws (P, s, d)) = (PW, snap)" and "r \<in> set snap"
  shows "\<exists>!name. name \<in> set SCENARIOS \<and> runs_itself chosen relayed name \<and> beneath (root @ ''/'' @ name) (scope_of r)"
proof -
  let ?PW = "in_process_ticks X Ws (P, s, d)"
  note new = new_within [OF assms(2), of s]
  note before = ticks_keep [OF assms(1) new [THEN conjunct1], of Ws]
  have "keeps_all root ?PW (PW, snap)" using keeps_tick [OF assms(1) before [THEN conjunct1], of W simulated] assms(3) by simp
  then obtain name where "name \<in> set SCENARIOS" "runs_itself chosen relayed name" "beneath (root @ ''/'' @ name) (scope_of r)"
    using assms(4) before new by (auto simp: keeps_all_def)
  moreover have "CHR ''/'' \<notin> set name" if "name \<in> set SCENARIOS" for name using that by (auto simp: SCENARIOS_def)
  ultimately show ?thesis using beneath_names by (metis (no_types, lifting))
qed

definition example_in_surroundings :: "(string, string) in_surroundings" where
  "example_in_surroundings =
     \<lparr>is_estate = example_estate, is_millis = decimal, is_display = \<lparr>ld_human = decimal, ld_transfer = \<lambda>n t. decimal n\<rparr>,
      is_counts = \<lambda>snap. concat (map (\<lambda>r. case r of RecordCount c \<Rightarrow> [c] | RecordHealth h \<Rightarrow> []) snap)\<rparr>"

definition example_in_round :: in_round where
  "example_in_round = \<lparr>ir_now = \<lambda>name. 0, ir_latency = \<lambda>p. 0, ir_load = \<lambda>p. 0,
     ir_exercised = \<lambda>C st. Held ''held'', ir_others = alone\<rparr>"

theorem scenarios_never_collide_witness:
  "\<exists>P d PW snap. in_process_new (is_estate example_in_surroundings) ''xmip:///c'' [] [] [] ([] :: unit cabinet list) 7 ''claim''
       None [] Calm [''daily-backlog''] True = (P, d)
     \<and> in_process_tick example_in_surroundings example_in_round 0 (in_process_ticks example_in_surroundings [] (P, (), d))
       = (PW, snap) \<and> snap \<noteq> []
     \<and> (\<forall>r \<in> set snap. \<exists>!name. name \<in> set SCENARIOS \<and> runs_itself [''daily-backlog''] True name
          \<and> beneath (''xmip:///c/'' @ name) (scope_of r))"
proof -
  let ?X = example_in_surroundings
  obtain P d where new: "in_process_new (is_estate ?X) ''xmip:///c'' [] [] [] ([] :: unit cabinet list) 7 ''claim''
       None [] Calm [''daily-backlog''] True = (P, d)" by (metis surj_pair)
  obtain PW snap where tick: "in_process_tick ?X example_in_round 0 (in_process_ticks ?X [] (P, (), d)) = (PW, snap)"
    by (metis surj_pair)
  have observe: "es_observe example_estate = plain_observe" by (simp add: example_estate_def)
  have reads: "reads_recorded ?X"
    using records_scopes_plain
    by (auto simp: reads_recorded_def example_in_surroundings_def observe split: recording.splits intro!: bexI)
  have chosen: "ip_chosen P = [''daily-backlog'']" using new_within [OF new, of "()"] by simp
  have "snap \<noteq> []"
    using tick by (auto simp: in_process_tick_def in_process_ticks_def in_round_trip_def in_low_latency_def in_heavy_load_def
      in_retention_def in_filing_def in_exclusive_claim_def in_daily_backlog_def chosen scenario_drives_def daily_tick_def
      in_merge_def merge_snapshots_def example_in_surroundings_def observe plain_observe_def recorded_def Let_def
      split: prod.splits)
  then show ?thesis using scenarios_never_collide [OF reads new tick] new tick by (metis append_Cons append_Nil)
qed

end
