(* ===== verification/Given.thy ===== *)
theory Given
  imports Stress
begin

text \<open>
  What the run gives each node it starts (\<open>src/served/given.rs\<close>): the cluster's file with every Storage
  node's name resolved to the address it serves at, and each node's roles, its data folder, its local
  endpoint, its listeners on loopback and the account that relays; the folder of each place the file
  designs; and a node's configuration delivered and its certificate issued. Reading and writing \<open>toml\<close>,
  the text of the bindings, and certificates are other crates', so the file is its table here; the ports no
  one holds are an argument, one for each time one is asked for.
\<close>

section \<open>Tables\<close>

datatype toml =
    Text string
  | Items "toml list"
  | Tab "(string \<times> toml) list"
  | Other string

type_synonym tab = "(string, toml) btree"

definition tab_of :: "toml option \<Rightarrow> tab" where
  "tab_of v = (case v of Some (Tab t) \<Rightarrow> t | _ \<Rightarrow> [])"

text \<open>\<open>table\<close>, and what is done to the table it answers: each key of the path made a table where it is
  none.\<close>

fun at_table :: "string list \<Rightarrow> (tab \<Rightarrow> tab) \<Rightarrow> tab \<Rightarrow> tab" where
  "at_table [] f t = f t"
| "at_table (key # path) f t = btree_insert key (Tab (at_table path f (tab_of (btree_get t key)))) t"

text \<open>The value at a path of tables.\<close>

fun value_at :: "string list \<Rightarrow> string \<Rightarrow> tab \<Rightarrow> toml option" where
  "value_at [] key t = btree_get t key"
| "value_at (k # path) key t = value_at path key (tab_of (btree_get t k))"

lemma value_at_same:
  "value_at path key (at_table path f t) = value_at [] key (f (foldl (\<lambda>t k. tab_of (btree_get t k)) t path))"
  by (induction path f t rule: at_table.induct) (simp_all add: store_simps tab_of_def)

lemma value_at_inserted [store_simps]:
  "value_at path key (at_table path (btree_insert key v) t) = Some v"
  by (simp add: value_at_same store_simps)

text \<open>What an update of one path leaves at another: they part at some key, or the update is further in.\<close>

fun parts :: "string list \<Rightarrow> string list \<Rightarrow> bool" where
  "parts (a # as) (b # bs) \<longleftrightarrow> a \<noteq> b \<or> parts as bs"
| "parts _ _ \<longleftrightarrow> False"

lemma tab_of_Tab [simp]: "tab_of (Some (Tab t)) = t"
  by (simp add: tab_of_def)

lemma value_at_parts: "parts (path @ [key]) path' \<Longrightarrow> value_at path key (at_table path' f t) = value_at path key t"
proof (induction path key t arbitrary: path' rule: value_at.induct)
  case (1 key t)
  then show ?case by (cases path') (auto simp: store_simps)
next
  case (2 k path key t)
  then show ?case by (cases path') (auto simp: store_simps)
qed

lemma value_at_other_key:
  "key \<noteq> key' \<Longrightarrow> value_at path key (at_table path (btree_insert key' v) t) = value_at path key t"
proof (induction path arbitrary: t)
  case (Cons k path)
  then show ?case by (simp add: store_simps)
qed (simp add: store_simps)

declare value_at.simps [simp del] at_table.simps [simp del]

section \<open>What a node is given\<close>

definition endpoint :: "string \<Rightarrow> string \<Rightarrow> string" where
  "endpoint cluster node = ''xmip-'' @ cluster @ ''-'' @ node"

type_synonym declared = "(string \<times> string list) list"

definition loopback :: "nat \<Rightarrow> string" where
  "loopback port = ''127.0.0.1:'' @ decimal port"

text \<open>\<open>free\<close>, one time after another: the ports there are, until one cannot be had.\<close>

fun serving_at :: "(nat \<Rightarrow> string + nat) \<Rightarrow> nat \<Rightarrow> declared \<Rightarrow> (string + (string \<times> string) list) \<times> nat" where
  "serving_at free n [] = (Inr [], n)"
| "serving_at free n ((name, roles) # rest) =
     (if \<not> list_ex (\<lambda>role. role = ''storage'') roles then serving_at free n rest
      else (case free n of
          Inl e \<Rightarrow> (Inl e, n)
        | Inr port \<Rightarrow>
            (case serving_at free (n + 1) rest of
               (Inl e, n) \<Rightarrow> (Inl e, n)
             | (Inr serving, n) \<Rightarrow> (Inr ((name, loopback port) # serving), n))))"

text \<open>\<open>str::rsplit_once\<close>, its first half, or the whole.\<close>

definition before_last :: "char \<Rightarrow> string \<Rightarrow> string" where
  "before_last c s =
     (if c \<in> set s then rev (drop 1 (dropWhile (\<lambda>x. x \<noteq> c) (rev s))) else s)"

definition resolved :: "(string \<times> string) list \<Rightarrow> string \<Rightarrow> string" where
  "resolved serving listed =
     (case find (\<lambda>(name, _). name = before_last (CHR '':'') listed) serving of
        Some (_, at) \<Rightarrow> at
      | None \<Rightarrow> listed)"

definition storage_resolved :: "(string \<times> string) list \<Rightarrow> tab \<Rightarrow> tab" where
  "storage_resolved serving storage =
     (case btree_get storage ''nodes'' of
        Some (Items nodes) \<Rightarrow> btree_insert ''nodes''
          (Items (map (\<lambda>listed. case listed of Text s \<Rightarrow> Text (resolved serving s) | _ \<Rightarrow> listed) nodes)) storage
      | _ \<Rightarrow> storage)"

definition node_given ::
    "string \<Rightarrow> string \<Rightarrow> (string \<times> string) list \<Rightarrow> nat \<Rightarrow> string \<times> string list \<Rightarrow> tab \<Rightarrow> tab" where
  "node_given cluster tester serving port = (\<lambda>(name, roles) t.
     let t = at_table [''nodes'', name] (btree_insert ''roles'' (Text (join '', '' roles))) t;
         t = at_table [''nodes'', name, ''service''] (btree_insert ''data'' (Text ''data'')) t;
         t = at_table [''nodes'', name, ''operate''] (btree_insert ''local'' (Text (endpoint cluster name))) t;
         t = at_table [''nodes'', name, ''operate''] (btree_insert ''listen'' (Text (loopback port))) t;
         t = at_table [''nodes'', name, ''operate''] (btree_insert ''relay'' (Items [Text tester])) t in
     (case find (\<lambda>(serving, _). serving = name) serving of
        Some (_, at) \<Rightarrow> at_table [''nodes'', name, ''storage''] (btree_insert ''listen'' (Text at)) t
      | None \<Rightarrow> t))"

fun nodes_given ::
    "string \<Rightarrow> string \<Rightarrow> (string \<times> string) list \<Rightarrow> (nat \<Rightarrow> string + nat) \<Rightarrow> nat \<Rightarrow> declared \<Rightarrow> tab \<Rightarrow> string + tab" where
  "nodes_given cluster tester serving free n [] t = Inr t"
| "nodes_given cluster tester serving free n (node # rest) t =
     (case free n of
        Inl e \<Rightarrow> Inl e
      | Inr port \<Rightarrow> nodes_given cluster tester serving free (n + 1) rest (node_given cluster tester serving port node t))"

definition cluster_text ::
    "string \<Rightarrow> declared \<Rightarrow> string + tab \<Rightarrow> string + string \<Rightarrow> (nat \<Rightarrow> string + nat) \<Rightarrow> string + tab" where
  "cluster_text cluster declared file tester free =
     (case file of
        Inl e \<Rightarrow> Inl (''the cluster's file: '' @ e)
      | Inr file \<Rightarrow>
          (case serving_at free 0 declared of
             (Inl e, _) \<Rightarrow> Inl e
           | (Inr serving, n) \<Rightarrow>
               (case tester of
                  Inl e \<Rightarrow> Inl e
                | Inr tester \<Rightarrow>
                    nodes_given cluster tester serving free n declared
                      (at_table [''storage''] (storage_resolved serving) file))))"

text \<open>\<open>placed\<close>: each place the file designs a folder of its own, one drops into a Receive Location's and
  reads a Send Port's. Where they are placed, and the name a placement is folded to, are
  \<open>configure::placed\<close>'s.\<close>

datatype placed_kind = PlacedReceive | PlacedSend

record designed =
  dg_placed :: placed_kind
  dg_folded :: string

record given_binding =
  gb_placed :: designed
  gb_folder :: string

definition under_folder :: "string \<Rightarrow> designed \<Rightarrow> string" where
  "under_folder area p =
     area @ ''/'' @ (case dg_placed p of PlacedReceive \<Rightarrow> ''drop'' | PlacedSend \<Rightarrow> ''out'') @ ''/'' @ dg_folded p"

definition given_placed ::
    "(declared \<Rightarrow> string + designed list) \<Rightarrow> declared \<Rightarrow> string \<Rightarrow> string + given_binding list" where
  "given_placed placements declared area =
     map_sum id (map (\<lambda>p. \<lparr>gb_placed = p, gb_folder = under_folder area p\<rparr>)) (placements declared)"

text \<open>\<open>configured\<close>: the folder of a node, its configuration delivered there and its certificate issued, in
  the order of the code, each that fails ending it; the name of the authority is read from its own
  certificate. What other crates do of it is the record \<open>G\<close>.\<close>

datatype given_act = MadeFolder string | Delivered string string | Issued string string

record given_api =
  gv_made :: "string \<Rightarrow> string option"
  gv_sliced :: "string \<Rightarrow> string \<Rightarrow> string \<Rightarrow> string + string"
  gv_certificate :: string
  gv_read :: "string \<Rightarrow> string + string"
  gv_common_name :: "string \<Rightarrow> string + string option"
  gv_authority :: "string \<Rightarrow> string option"
  gv_delivered :: "string \<Rightarrow> string \<Rightarrow> string option"
  gv_issued :: "string \<Rightarrow> string \<Rightarrow> string \<Rightarrow> string option"

definition authority_name :: "given_api \<Rightarrow> string \<Rightarrow> string + string" where
  "authority_name G place =
     (let path = place @ ''/'' @ gv_certificate G in
      case gv_read G path of
        Inl e \<Rightarrow> Inl (''no Essentials authority at '' @ path @ '': '' @ e @ ''; Start-XmipTest makes it'')
      | Inr pem \<Rightarrow>
          (case gv_common_name G pem of
             Inl e \<Rightarrow> Inl (path @ '': '' @ e)
           | Inr None \<Rightarrow> Inl (''the Essentials' authority at '' @ path @ '' names nothing'')
           | Inr (Some name) \<Rightarrow> Inr name))"

definition given_configured ::
    "given_api \<Rightarrow> string \<Rightarrow> string \<Rightarrow> string \<times> string \<Rightarrow> string \<Rightarrow> given_act list \<times> (string + string)" where
  "given_configured G authority cluster_file = (\<lambda>(cluster, node) area.
     (let folder = area @ ''/'' @ node; path = folder @ ''/'' @ node @ ''.xmip'' in
      case gv_made G folder of
        Some e \<Rightarrow> ([], Inl (folder @ '': '' @ e))
      | None \<Rightarrow>
      (case gv_sliced G cluster_file node cluster of
        Inl e \<Rightarrow> ([MadeFolder folder], Inl e)
      | Inr sliced \<Rightarrow>
      (case authority_name G authority of
        Inl e \<Rightarrow> ([MadeFolder folder], Inl e)
      | Inr name \<Rightarrow>
      (case gv_authority G name of
        Some e \<Rightarrow> ([MadeFolder folder], Inl (''the Essentials' authority: '' @ e))
      | None \<Rightarrow>
      (case gv_delivered G path sliced of
        Some e \<Rightarrow> ([MadeFolder folder], Inl e)
      | None \<Rightarrow>
      (case gv_issued G name node (folder @ ''/tls'') of
        Some e \<Rightarrow> ([MadeFolder folder, Delivered path sliced], Inl (node @ (CHR 0x27 # ''s certificate: '') @ e))
      | None \<Rightarrow> ([MadeFolder folder, Delivered path sliced, Issued node (folder @ ''/tls'')], Inr path))))))))"

text \<open>Every place a node is given is its own: no two placements share a folder where no two are folded
  alike, and what two nodes are configured with lies in folders of their own.\<close>

lemma under_folder_inj: "under_folder area p = under_folder area q \<longleftrightarrow> dg_placed p = dg_placed q \<and> dg_folded p = dg_folded q"
  by (cases "dg_placed p"; cases "dg_placed q") (simp_all add: under_folder_def)

lemma given_placed_apart:
  assumes "placements declared = Inr ps" "distinct (map (\<lambda>p. (dg_placed p, dg_folded p)) ps)"
  shows "\<exists>bs. given_placed placements declared area = Inr bs \<and> distinct (map gb_folder bs) \<and> map gb_placed bs = ps"
  using assms by (auto simp: given_placed_def o_def distinct_map inj_on_def under_folder_inj)

fun act_place :: "given_act \<Rightarrow> string" where
  "act_place (MadeFolder folder) = folder"
| "act_place (Delivered path sliced) = path"
| "act_place (Issued node folder) = folder"

lemma given_configured_beneath:
  assumes "given_configured G authority cluster_file (cluster, node) area = (acts, r)" "a \<in> set acts"
  shows "act_place a = area @ ''/'' @ node \<or> prefix (area @ ''/'' @ node @ ''/'') (act_place a)"
  using assms by (auto simp: given_configured_def Let_def split: option.splits sum.splits)

lemma given_configured_whole:
  assumes "given_configured G authority cluster_file (cluster, node) area = (acts, Inr path)"
  shows "\<exists>sliced name. gv_sliced G cluster_file node cluster = Inr sliced \<and> authority_name G authority = Inr name
    \<and> acts = [MadeFolder (area @ ''/'' @ node), Delivered path sliced, Issued node (area @ ''/'' @ node @ ''/tls'')]
    \<and> path = area @ ''/'' @ node @ ''/'' @ node @ ''.xmip''"
  using assms by (auto simp: given_configured_def Let_def split: option.splits sum.splits)

section \<open>Every node is given its own\<close>

definition given_own :: "string \<Rightarrow> string \<Rightarrow> (string \<times> string) list \<Rightarrow> tab \<Rightarrow> string \<times> string list \<Rightarrow> bool" where
  "given_own cluster tester serving t = (\<lambda>(name, roles).
     value_at [''nodes'', name] ''roles'' t = Some (Text (join '', '' roles))
     \<and> value_at [''nodes'', name, ''service''] ''data'' t = Some (Text ''data'')
     \<and> value_at [''nodes'', name, ''operate''] ''local'' t = Some (Text (endpoint cluster name))
     \<and> (\<exists>port. value_at [''nodes'', name, ''operate''] ''listen'' t = Some (Text (loopback port)))
     \<and> value_at [''nodes'', name, ''operate''] ''relay'' t = Some (Items [Text tester])
     \<and> (\<forall>at. find (\<lambda>(serving, _). serving = name) serving = Some (name, at) \<longrightarrow>
          value_at [''nodes'', name, ''storage''] ''listen'' t = Some (Text at)))"

lemmas given_values = value_at_parts value_at_other_key value_at_inserted

lemma node_given_own: "given_own cluster tester serving (node_given cluster tester serving port node t) node"
  by (cases node)
    (auto simp: given_own_def node_given_def Let_def given_values split: option.splits)

lemma node_given_others:
  assumes "hd path \<noteq> ''nodes'' \<or> (\<exists>other rest. path = ''nodes'' # other # rest \<and> other \<noteq> fst node)" "path \<noteq> []"
  shows "value_at path key (node_given cluster tester serving port node t) = value_at path key t"
proof -
  have "parts (path @ [key]) (''nodes'' # fst node # rest)" for rest
    using assms by (cases path) auto
  then show ?thesis
    by (auto simp: node_given_def Let_def value_at_parts case_prod_beta split: option.splits)
qed

lemma given_own_kept:
  "given_own cluster tester serving t (name, roles) \<Longrightarrow> fst node \<noteq> name \<Longrightarrow>
     given_own cluster tester serving (node_given cluster tester serving port node t) (name, roles)"
  by (simp add: given_own_def node_given_others)

lemma nodes_given_others:
  "nodes_given cluster tester serving free n declared t = Inr u \<Longrightarrow>
     hd path \<noteq> ''nodes'' \<Longrightarrow> path \<noteq> [] \<Longrightarrow> value_at path key u = value_at path key t"
  by (induction cluster tester serving free n declared t rule: nodes_given.induct)
    (auto simp: node_given_others split: sum.splits)

lemma nodes_given_kept:
  "nodes_given cluster tester serving free n declared t = Inr u \<Longrightarrow> name \<notin> fst ` set declared \<Longrightarrow>
     given_own cluster tester serving t (name, roles) \<Longrightarrow> given_own cluster tester serving u (name, roles)"
proof (induction cluster tester serving free n declared t rule: nodes_given.induct)
  case (2 cluster tester serving free n node rest t)
  then show ?case by (auto simp: given_own_kept split: sum.splits)
qed simp

lemma nodes_given_own:
  "nodes_given cluster tester serving free n declared t = Inr u \<Longrightarrow> distinct (map fst declared) \<Longrightarrow>
     node \<in> set declared \<Longrightarrow> given_own cluster tester serving u node"
proof (induction cluster tester serving free n declared t rule: nodes_given.induct)
  case (2 cluster tester serving free n first rest t)
  then obtain port where rest: "nodes_given cluster tester serving free (n + 1) rest
      (node_given cluster tester serving port first t) = Inr u" and free: "free n = Inr port"
    by (auto split: sum.splits)
  show ?case
  proof (cases "node = first")
    case True
    obtain name roles where node: "node = (name, roles)" by (cases node)
    have "name \<notin> fst ` set rest" using 2(3) True node by force
    from nodes_given_kept [OF rest this, of roles] node_given_own [of cluster tester serving port node t] True node
    show ?thesis by metis
  next
    case False
    with 2(1) [OF free rest] 2(3,4) show ?thesis by simp
  qed
qed simp

lemma serving_at_names:
  "serving_at free n declared = (Inr serving, m) \<Longrightarrow>
     map fst serving = map fst (filter (\<lambda>(_, roles). list_ex (\<lambda>role. role = ''storage'') roles) declared)"
  by (induction free n declared arbitrary: serving m rule: serving_at.induct)
    (auto split: if_splits sum.splits prod.splits)

lemma serving_found:
  assumes "serving_at free n declared = (Inr serving, m)" and "(name, roles) \<in> set declared"
    and "''storage'' \<in> set roles"
  shows "\<exists>at. find (\<lambda>(one, _). one = name) serving = Some (name, at)"
proof -
  have "name \<in> set (map fst (filter (\<lambda>(_, roles). list_ex (\<lambda>role. role = ''storage'') roles) declared))"
    using assms(2,3) by (force simp: list_ex_iff)
  then have "name \<in> fst ` set serving" unfolding serving_at_names [OF assms(1), symmetric] by simp
  then have "find (\<lambda>(one, _). one = name) serving \<noteq> None" by (auto simp: find_None_iff)
  then obtain found where found: "find (\<lambda>(one, _). one = name) serving = Some found" by blast
  then have "fst found = name" by (auto simp: find_Some_iff)
  with found show ?thesis by (cases found) auto
qed

text \<open>Where a Storage node is looked for is where it serves. In the file every node of a run is started
  from, each is given the roles it was declared with, its data folder, the endpoint its cluster and it
  are named by, a listener and the account that relays; and each entry of the Storage nodes that names
  one the run starts as a Storage node is the very address that node is told to listen on.\<close>

theorem storage_is_found_where_it_serves:
  assumes "cluster_text cluster declared (Inr file) (Inr tester) free = Inr u" and "distinct (map fst declared)"
    and "(name, roles) \<in> set declared"
  shows "value_at [''nodes'', name] ''roles'' u = Some (Text (join '', '' roles))
    \<and> value_at [''nodes'', name, ''service''] ''data'' u = Some (Text ''data'')
    \<and> value_at [''nodes'', name, ''operate''] ''local'' u = Some (Text (endpoint cluster name))
    \<and> (\<exists>port. value_at [''nodes'', name, ''operate''] ''listen'' u = Some (Text (loopback port)))
    \<and> value_at [''nodes'', name, ''operate''] ''relay'' u = Some (Items [Text tester])
    \<and> (\<forall>nodes i s. value_at [''storage''] ''nodes'' file = Some (Items nodes) \<and> i < length nodes \<and> nodes ! i = Text s
          \<and> before_last (CHR '':'') s = name \<and> ''storage'' \<in> set roles \<longrightarrow>
        (\<exists>nodes' at. value_at [''storage''] ''nodes'' u = Some (Items nodes') \<and> nodes' ! i = Text at
          \<and> value_at [''nodes'', name, ''storage''] ''listen'' u = Some (Text at)))"
proof -
  obtain serving n where serving: "serving_at free 0 declared = (Inr serving, n)"
    and given: "nodes_given cluster tester serving free n declared (at_table [''storage''] (storage_resolved serving) file) = Inr u"
    using assms(1) by (auto simp: cluster_text_def split: sum.splits prod.splits)
  have own: "given_own cluster tester serving u (name, roles)"
    using nodes_given_own [OF given assms(2,3)] .
  moreover have "\<exists>nodes' at. value_at [''storage''] ''nodes'' u = Some (Items nodes') \<and> nodes' ! i = Text at
      \<and> value_at [''nodes'', name, ''storage''] ''listen'' u = Some (Text at)"
    if nodes: "value_at [''storage''] ''nodes'' file = Some (Items nodes)" "i < length nodes" "nodes ! i = Text s"
      "before_last (CHR '':'') s = name" "''storage'' \<in> set roles" for nodes i s
  proof -
    obtain at where at: "find (\<lambda>(one, _). one = name) serving = Some (name, at)"
      using serving_found [OF serving assms(3) nodes(5)] by blast
    have "value_at [''storage''] ''nodes'' u = value_at [''storage''] ''nodes'' (at_table [''storage''] (storage_resolved serving) file)"
      using given by (rule nodes_given_others) simp_all
    also have "\<dots> = Some (Items (map (\<lambda>listed. case listed of Text s \<Rightarrow> Text (resolved serving s) | _ \<Rightarrow> listed) nodes))"
      using nodes(1) by (simp add: value_at_same storage_resolved_def value_at.simps store_simps)
    finally show ?thesis
      using own at nodes by (auto simp: given_own_def resolved_def)
  qed
  ultimately show ?thesis unfolding given_own_def by blast
qed

text \<open>Two nodes, one of them keeping Xmip Storage, and a file that lists it by its name and a port.\<close>

definition example_file :: tab where
  "example_file = [(''storage'', Tab [(''nodes'', Items [Text ''D:7000'', Text ''elsewhere:7000''])])]"

theorem storage_is_found_where_it_serves_witness:
  "\<exists>u. cluster_text ''C'' [(''D'', [''storage'']), (''P'', [''processing''])] (Inr example_file) (Inr ''me'')
       (\<lambda>n. Inr (5000 + n)) = Inr u
     \<and> (\<exists>nodes at. value_at [''storage''] ''nodes'' u = Some (Items nodes) \<and> nodes ! 0 = Text at
          \<and> value_at [''nodes'', ''D'', ''storage''] ''listen'' u = Some (Text at))"
proof -
  let ?declared = "[(''D'', [''storage'']), (''P'', [''processing''])]"
  obtain u where u: "cluster_text ''C'' ?declared (Inr example_file) (Inr ''me'') (\<lambda>n. Inr (5000 + n)) = Inr u"
    by (simp add: cluster_text_def)
  have listed: "value_at [''storage''] ''nodes'' example_file = Some (Items [Text ''D:7000'', Text ''elsewhere:7000''])"
    "before_last (CHR '':'') ''D:7000'' = ''D''"
    by code_simp+
  with storage_is_found_where_it_serves [OF u, of "''D''" "[''storage'']"] u show ?thesis by fastforce
qed

end
