(* ===== verification/Command_Lines.thy ===== *)
theory Command_Lines
  imports Orders
begin

text \<open>
  How the three programs of a run are told what to do: the flags the roll starts its cluster process
  with (\<open>src/cluster/spawned.rs\<close>) and how that process reads them (\<open>src/bin/cluster.rs\<close>), how a node
  reads the flags its cluster starts it with (\<open>src/bin/node.rs\<close>), and what the roll answers where it
  is only asked where it publishes (\<open>src/bin/roll.rs\<close>). A path is its text.
\<close>

section \<open>The flags of a cluster process\<close>

definition spawned_args ::
    "'cap capability_api \<Rightarrow> string \<Rightarrow> 'cap orders \<Rightarrow> string \<Rightarrow> string \<Rightarrow> string list" where
  "spawned_args K cluster O' shared path =
     [''--name'', cluster, ''--stress'', stress_name (or_stress O'), ''--nodes'', roster_text K (or_roster O'),
      ''--rounds'', ''0'']
     @ (case or_online O' of None \<Rightarrow> [] | Some online \<Rightarrow> [''--online'', join '','' online])
     @ (if or_scenarios O' \<noteq> [] then [''--scenarios'', join '','' (or_scenarios O')] else [])
     @ [''--shared'', shared, ''--snapshot'', path]"

section \<open>Reading flags\<close>

text \<open>The loop both programs read their flags by: pairs of a flag and its value, the first that is
  refused ending it.\<close>

fun read_flags :: "(string \<Rightarrow> string \<Rightarrow> 's \<Rightarrow> string + 's) \<Rightarrow> string list \<Rightarrow> 's \<Rightarrow> string + 's" where
  "read_flags take_one [] p = Inr p"
| "read_flags take_one [flag] p = Inl (flag @ '' needs a value'')"
| "read_flags take_one (flag # v # args) p =
     (case take_one flag v p of Inl e \<Rightarrow> Inl e | Inr p \<Rightarrow> read_flags take_one args p)"

text \<open>\<open>Option::ok_or\<close>.\<close>

definition ok_or :: "'a option \<Rightarrow> string \<Rightarrow> string + 'a" where
  "ok_or found e = (case found of None \<Rightarrow> Inl e | Some x \<Rightarrow> Inr x)"

definition and_then :: "string + 'a \<Rightarrow> ('a \<Rightarrow> string + 'b) \<Rightarrow> string + 'b" where
  "and_then r f = (case r of Inl e \<Rightarrow> Inl e | Inr x \<Rightarrow> f x)"

lemma and_then_simps [simp]: "and_then (Inr x) f = f x" "and_then (Inl e) f = Inl e"
  by (simp_all add: and_then_def)

lemma ok_or_simps [simp]: "ok_or (Some x) e = Inr x" "ok_or None e = Inl e"
  by (simp_all add: ok_or_def)

lemma and_then_Inr: "and_then r f = Inr y \<longleftrightarrow> (\<exists>x. r = Inr x \<and> f x = Inr y)"
  by (cases r) simp_all

lemma ok_or_Inr: "ok_or found e = Inr x \<longleftrightarrow> found = Some x"
  by (cases found) simp_all

lemma read_flags_append:
  "even (length args) \<Longrightarrow> read_flags f (args @ rest) p = and_then (read_flags f args p) (read_flags f rest)"
  by (induction f args p rule: read_flags.induct) (auto split: sum.splits)

section \<open>The cluster process's arguments\<close>

record 'cap cluster_arguments =
  ca_name :: string
  ca_shared :: string
  ca_nodes :: "'cap roster"
  ca_online :: "string list option"
  ca_stress :: stress
  ca_scenarios :: "string list"
  ca_rounds :: nat
  ca_snapshot :: string
  ca_interval_ms :: nat

text \<open>The local variables of its \<open>parse\<close>, while the flags are read.\<close>

record 'cap cluster_flags =
  cf_name :: "string option"
  cf_shared :: "string option"
  cf_nodes :: "'cap roster option"
  cf_online :: "string list option"
  cf_stress :: "stress option"
  cf_scenarios :: "string list"
  cf_rounds :: "nat option"
  cf_snapshot :: "string option"
  cf_interval_ms :: nat

definition cluster_flags_none :: "'cap cluster_flags" where
  "cluster_flags_none =
     \<lparr>cf_name = None, cf_shared = None, cf_nodes = None, cf_online = None, cf_stress = None, cf_scenarios = [],
      cf_rounds = None, cf_snapshot = None, cf_interval_ms = 250\<rparr>"

definition STRESS_NAMES :: "string list" where
  "STRESS_NAMES = [''calm'', ''realistic'', ''harsh'', ''brutal'']"

definition cluster_named :: "string \<Rightarrow> string + string" where
  "cluster_named v =
     (let named = trim v in
      if shaped named then Inr named
      else Inl (''REFUSED: a cluster's name is letters, digits and hyphens starting with a '' @ ''letter: not ''
        @ named))"

definition cluster_level :: "string \<Rightarrow> string + stress" where
  "cluster_level v =
     ok_or (stress_parse v)
       (''REFUSED: no stress level is called '' @ v @ ''; the levels are '' @ join '', '' STRESS_NAMES)"

definition cluster_number :: "string \<Rightarrow> string \<Rightarrow> string + nat" where
  "cluster_number flag v = ok_or (parse_unsigned 64 v) (''REFUSED: '' @ flag @ '' wants a whole number, not '' @ v)"

definition cluster_flag ::
    "'cap capability_api \<Rightarrow> string \<Rightarrow> string \<Rightarrow> 'cap cluster_flags \<Rightarrow> string + 'cap cluster_flags" where
  "cluster_flag K flag v p =
     (if flag = ''--name'' then and_then (cluster_named v) (\<lambda>x. Inr (p\<lparr>cf_name := Some x\<rparr>))
      else if flag = ''--shared'' then Inr (p\<lparr>cf_shared := Some v\<rparr>)
      else if flag = ''--nodes'' then and_then (roster_parse K v) (\<lambda>x. Inr (p\<lparr>cf_nodes := Some x\<rparr>))
      else if flag = ''--online'' then Inr (p\<lparr>cf_online := Some (switch_names v)\<rparr>)
      else if flag = ''--stress'' then and_then (cluster_level v) (\<lambda>x. Inr (p\<lparr>cf_stress := Some x\<rparr>))
      else if flag = ''--scenarios'' then and_then (scenario_chosen (Some v)) (\<lambda>x. Inr (p\<lparr>cf_scenarios := x\<rparr>))
      else if flag = ''--rounds'' then and_then (cluster_number flag v) (\<lambda>x. Inr (p\<lparr>cf_rounds := Some x\<rparr>))
      else if flag = ''--snapshot'' then Inr (p\<lparr>cf_snapshot := Some v\<rparr>)
      else if flag = ''--interval-ms'' then and_then (cluster_number flag v) (\<lambda>x. Inr (p\<lparr>cf_interval_ms := x\<rparr>))
      else Inl (''REFUSED: no flag is called '' @ flag @ ''; the flags are --name, --shared, ''
        @ ''--nodes, --online, --stress, --scenarios, --rounds, --snapshot and --interval-ms''))"

definition cluster_parse :: "'cap capability_api \<Rightarrow> string list \<Rightarrow> string + 'cap cluster_arguments" where
  "cluster_parse K args =
     and_then (read_flags (cluster_flag K) args cluster_flags_none) (\<lambda>p.
     and_then (ok_or (cf_name p) ''REFUSED: --name is required; a cluster is named, never invented'') (\<lambda>name.
     and_then (ok_or (cf_shared p) ''REFUSED: --shared is required; it is the store the nodes share'') (\<lambda>shared.
     and_then (ok_or (cf_nodes p) (''REFUSED: --nodes is required; --nodes <node>=receiving,<node>=processing,''
       @ ''<node>=sending names them and what each declares'')) (\<lambda>nodes.
     and_then (ok_or (cf_stress p)
       (''REFUSED: --stress is required; it is one of '' @ join '', '' STRESS_NAMES)) (\<lambda>stress.
     and_then (ok_or (cf_rounds p) ''REFUSED: --rounds is required; 0 rolls until stopped'') (\<lambda>rounds.
     and_then (ok_or (cf_snapshot p)
       ''REFUSED: --snapshot is required; it is where the cluster publishes'') (\<lambda>snap.
     Inr \<lparr>ca_name = name, ca_shared = shared, ca_nodes = nodes, ca_online = cf_online p, ca_stress = stress,
       ca_scenarios = cf_scenarios p, ca_rounds = rounds, ca_snapshot = snap,
       ca_interval_ms = cf_interval_ms p\<rparr>)))))))"

section \<open>A node's arguments\<close>

text \<open>Reading a capability and giving it its online switch are the \<open>node\<close> crate's.\<close>

record 'cap capability_text =
  ct_parse :: "string \<Rightarrow> string + 'cap"
  ct_with_online :: "'cap \<Rightarrow> bool \<Rightarrow> 'cap"
  ct_words :: "'cap \<Rightarrow> string"
  ct_is_online :: "'cap \<Rightarrow> bool"
  ct_word :: "'cap \<Rightarrow> string"

record 'cap node_arguments =
  na_name :: string
  na_shared :: string
  na_stress :: stress
  na_rounds :: nat
  na_snapshot :: string
  na_interval_ms :: nat
  na_beat_ms :: nat
  na_capability :: 'cap
  na_roster :: "'cap roster"
  na_scenarios :: "string list"

record 'cap node_flags =
  nf_name :: "string option"
  nf_shared :: "string option"
  nf_stress :: "stress option"
  nf_rounds :: "nat option"
  nf_snapshot :: "string option"
  nf_interval_ms :: nat
  nf_beat_ms :: nat
  nf_online :: bool
  nf_role :: 'cap
  nf_roster :: "'cap roster"
  nf_scenarios :: "string list"

definition node_flags_none :: "'cap capability_api \<Rightarrow> 'cap node_flags" where
  "node_flags_none K =
     \<lparr>nf_name = None, nf_shared = None, nf_stress = None, nf_rounds = None, nf_snapshot = None, nf_interval_ms = 250,
      nf_beat_ms = 100, nf_online = False, nf_role = cap_none K, nf_roster = [], nf_scenarios = []\<rparr>"

definition node_number :: "string \<Rightarrow> string \<Rightarrow> string + nat" where
  "node_number flag v = ok_or (parse_unsigned 64 v) (flag @ '' wants a number, not '' @ v)"

definition node_flag ::
    "'cap capability_api \<Rightarrow> 'cap capability_text \<Rightarrow> string \<Rightarrow> string \<Rightarrow> 'cap node_flags
       \<Rightarrow> string + 'cap node_flags" where
  "node_flag K X flag v p =
     (if flag = ''--name'' then Inr (p\<lparr>nf_name := Some v\<rparr>)
      else if flag = ''--shared'' then Inr (p\<lparr>nf_shared := Some v\<rparr>)
      else if flag = ''--stress''
      then and_then (ok_or (stress_parse v) (''unknown stress '' @ v)) (\<lambda>x. Inr (p\<lparr>nf_stress := Some x\<rparr>))
      else if flag = ''--rounds'' then and_then (node_number flag v) (\<lambda>x. Inr (p\<lparr>nf_rounds := Some x\<rparr>))
      else if flag = ''--snapshot'' then Inr (p\<lparr>nf_snapshot := Some v\<rparr>)
      else if flag = ''--interval-ms'' then and_then (node_number flag v) (\<lambda>x. Inr (p\<lparr>nf_interval_ms := x\<rparr>))
      else if flag = ''--beat-ms'' then and_then (node_number flag v) (\<lambda>x. Inr (p\<lparr>nf_beat_ms := max x 1\<rparr>))
      else if flag = ''--online''
      then and_then (ok_or (switch_parse v) (''--online wants true or false, not '' @ v))
        (\<lambda>x. Inr (p\<lparr>nf_online := x\<rparr>))
      else if flag = ''--role'' then and_then (ct_parse X v) (\<lambda>x. Inr (p\<lparr>nf_role := x\<rparr>))
      else if flag = ''--nodes'' then and_then (roster_parse K v) (\<lambda>x. Inr (p\<lparr>nf_roster := x\<rparr>))
      else if flag = ''--scenarios'' then and_then (scenario_chosen (Some v)) (\<lambda>x. Inr (p\<lparr>nf_scenarios := x\<rparr>))
      else Inl (''unknown flag '' @ flag))"

definition node_parse ::
    "'cap capability_api \<Rightarrow> 'cap capability_text \<Rightarrow> string list \<Rightarrow> string + 'cap node_arguments" where
  "node_parse K X args =
     and_then (read_flags (node_flag K X) args (node_flags_none K)) (\<lambda>p.
     and_then (ok_or (nf_name p) ''--name is required'') (\<lambda>name.
     and_then (ok_or (nf_shared p) ''--shared is required'') (\<lambda>shared.
     and_then (ok_or (nf_stress p) ''--stress is required'') (\<lambda>stress.
     and_then (ok_or (nf_rounds p) ''--rounds is required'') (\<lambda>rounds.
     and_then (ok_or (nf_snapshot p) ''--snapshot is required'') (\<lambda>snap.
     Inr \<lparr>na_name = name, na_shared = shared, na_stress = stress, na_rounds = rounds, na_snapshot = snap,
       na_interval_ms = nf_interval_ms p, na_beat_ms = nf_beat_ms p,
       na_capability = ct_with_online X (nf_role p) (nf_online p), na_roster = nf_roster p,
       na_scenarios = nf_scenarios p\<rparr>))))))"

section \<open>Where the roll publishes\<close>

text \<open>The answer to \<open>--publication\<close>; \<open>join_path\<close> is \<open>Path::join\<close>.\<close>

definition the_publication :: "(string \<Rightarrow> string \<Rightarrow> string) \<Rightarrow> string list \<Rightarrow> string + string" where
  "the_publication join_path told =
     (case told of
        [cluster, area] \<Rightarrow>
          (case publish_paths cluster of
             (snap, history, activity) \<Rightarrow>
               Inr (''snapshot='' @ join_path area snap @ [CHR 0x0A] @ ''history='' @ join_path area history
                 @ [CHR 0x0A] @ ''activity='' @ join_path area activity))
      | _ \<Rightarrow> Inl ''REFUSED: --publication takes a cluster and an area.'')"

section \<open>What is written reads back\<close>

lemma trim_Nil [simp]: "trim [] = []"
  by (rule trim_visible) simp

lemma stress_parse_name [simp]: "stress_parse (stress_name level) = Some level"
  by (cases level) (simp_all add: stress_parse_def Let_def trim_visible visible_def to_ascii_lowercase_def
    to_ascii_lower_def)

lemma shaped_visible:
  assumes "shaped name"
  shows "list_all visible name"
proof -
  have "visible c" if "is_alphabetic c \<or> is_digit c \<or> c = CHR ''-''" for c
    using that by (auto simp: is_alphabetic_def is_digit_def visible_def)
  then show ?thesis using assms by (auto simp: shaped_def list_all_iff)
qed

lemma cluster_named_shaped: "shaped name \<Longrightarrow> cluster_named name = Inr name"
  by (simp add: cluster_named_def Let_def trim_visible shaped_visible)

text \<open>A list that is handed on as one text, its entries between commas.\<close>

definition listable :: "string list \<Rightarrow> bool" where
  "listable names \<longleftrightarrow> list_all (\<lambda>name. name \<noteq> [] \<and> CHR '','' \<notin> set name \<and> trim name = name) names"

lemma listable_split: "listable names \<Longrightarrow> filter (\<lambda>name. name \<noteq> []) (map trim (split_on (CHR '','') (join '','' names))) = names"
  by (cases "names = []")
    (auto simp: listable_def list_all_iff split_on_join filter_id_conv intro!: map_idI)

lemma switch_names_join: "listable names \<Longrightarrow> switch_names (join '','' names) = names"
  by (simp add: switch_names_def listable_split)

lemma scenario_listable: "set names \<subseteq> set SCENARIOS \<Longrightarrow> listable names"
  by (auto simp: listable_def list_all_iff SCENARIOS_def intro!: trim_visible simp: visible_def)

lemma scenario_lower: "name \<in> set SCENARIOS \<Longrightarrow> to_ascii_lowercase name = name"
  by (auto simp: SCENARIOS_def to_ascii_lowercase_def to_ascii_lower_def)

lemma scenario_chosen_join:
  assumes "set names \<subseteq> set SCENARIOS"
  shows "scenario_chosen (Some (join '','' names)) = Inr names"
proof -
  have pieces: "split_on (CHR '','') (join '','' names) = names" if "names \<noteq> []"
    using that scenario_listable [OF assms] by (intro split_on_join) (auto simp: listable_def list_all_iff)
  have "scenario_names (Some (join '','' names)) = names"
  proof (cases "names = []")
    case True
    then show ?thesis by (simp add: scenario_names_def to_ascii_lowercase_def)
  next
    case False
    have "map (\<lambda>name. to_ascii_lowercase (trim name)) names = names"
      using scenario_listable [OF assms] assms scenario_lower
      by (intro map_idI) (auto simp: listable_def list_all_iff)
    then show ?thesis
      using False pieces scenario_listable [OF assms] by (auto simp: scenario_names_def listable_def list_all_iff filter_id_conv)
  qed
  with assms show ?thesis by (auto simp: scenario_chosen_def Let_def filter_id_conv filter_empty_conv)
qed

lemmas written_reads = scenario_chosen_join switch_names_join cluster_named_shaped roster_text_round_trip
  parse_unsigned_decimal read_flags_append stress_parse_name

text \<open>Each flag, as it is taken.\<close>

lemma cluster_flag_simps:
  "cluster_flag K ''--name'' v p = and_then (cluster_named v) (\<lambda>x. Inr (p\<lparr>cf_name := Some x\<rparr>))"
  "cluster_flag K ''--shared'' v p = Inr (p\<lparr>cf_shared := Some v\<rparr>)"
  "cluster_flag K ''--nodes'' v p = and_then (roster_parse K v) (\<lambda>x. Inr (p\<lparr>cf_nodes := Some x\<rparr>))"
  "cluster_flag K ''--online'' v p = Inr (p\<lparr>cf_online := Some (switch_names v)\<rparr>)"
  "cluster_flag K ''--stress'' v p = and_then (cluster_level v) (\<lambda>x. Inr (p\<lparr>cf_stress := Some x\<rparr>))"
  "cluster_flag K ''--scenarios'' v p = and_then (scenario_chosen (Some v)) (\<lambda>x. Inr (p\<lparr>cf_scenarios := x\<rparr>))"
  "cluster_flag K ''--rounds'' v p = and_then (cluster_number ''--rounds'' v) (\<lambda>x. Inr (p\<lparr>cf_rounds := Some x\<rparr>))"
  "cluster_flag K ''--snapshot'' v p = Inr (p\<lparr>cf_snapshot := Some v\<rparr>)"
  by (simp_all add: cluster_flag_def)

lemma node_flag_simps:
  "node_flag K X ''--name'' v p = Inr (p\<lparr>nf_name := Some v\<rparr>)"
  "node_flag K X ''--shared'' v p = Inr (p\<lparr>nf_shared := Some v\<rparr>)"
  "node_flag K X ''--stress'' v p =
     and_then (ok_or (stress_parse v) (''unknown stress '' @ v)) (\<lambda>x. Inr (p\<lparr>nf_stress := Some x\<rparr>))"
  "node_flag K X ''--rounds'' v p = and_then (node_number ''--rounds'' v) (\<lambda>x. Inr (p\<lparr>nf_rounds := Some x\<rparr>))"
  "node_flag K X ''--snapshot'' v p = Inr (p\<lparr>nf_snapshot := Some v\<rparr>)"
  "node_flag K X ''--interval-ms'' v p =
     and_then (node_number ''--interval-ms'' v) (\<lambda>x. Inr (p\<lparr>nf_interval_ms := x\<rparr>))"
  "node_flag K X ''--beat-ms'' v p =
     and_then (node_number ''--beat-ms'' v) (\<lambda>x. Inr (p\<lparr>nf_beat_ms := max x 1\<rparr>))"
  "node_flag K X ''--online'' v p = and_then (ok_or (switch_parse v) (''--online wants true or false, not '' @ v))
        (\<lambda>x. Inr (p\<lparr>nf_online := x\<rparr>))"
  "node_flag K X ''--role'' v p = and_then (ct_parse X v) (\<lambda>x. Inr (p\<lparr>nf_role := x\<rparr>))"
  "node_flag K X ''--nodes'' v p = and_then (roster_parse K v) (\<lambda>x. Inr (p\<lparr>nf_roster := x\<rparr>))"
  "node_flag K X ''--scenarios'' v p =
     and_then (scenario_chosen (Some v)) (\<lambda>x. Inr (p\<lparr>nf_scenarios := x\<rparr>))"
  by (simp_all add: node_flag_def)

lemma switch_parse_words: "switch_parse (if b then ''true'' else ''false'') = Some b"
  by (cases b) (simp_all add: switch_parse_def Let_def trim_visible visible_def to_ascii_lowercase_def to_ascii_lower_def)

lemma parse_spawned_args:
  assumes "shaped cluster" and "list_all (entry_documented K) (or_roster O')"
    and "set (or_scenarios O') \<subseteq> set SCENARIOS" and "case or_online O' of None \<Rightarrow> True | Some online \<Rightarrow> listable online"
  shows "cluster_parse K (spawned_args K cluster O' shared path) = Inr \<lparr>ca_name = cluster, ca_shared = shared,
    ca_nodes = or_roster O', ca_online = or_online O', ca_stress = or_stress O', ca_scenarios = or_scenarios O',
    ca_rounds = 0, ca_snapshot = path, ca_interval_ms = 250\<rparr>"
proof -
  have "decimal 0 = ''0''" by code_simp
  then have zero: "cluster_number flag ''0'' = Inr 0" for flag
    using parse_unsigned_decimal [of 0 64] by (simp add: cluster_number_def)
  have level: "cluster_level (stress_name l) = Inr l" for l by (simp add: cluster_level_def)
  show ?thesis
    using assms
    by (cases "or_online O'"; cases "or_scenarios O' = []")
      (simp_all add: cluster_parse_def spawned_args_def cluster_flags_none_def cluster_flag_simps level zero
        written_reads)
qed

text \<open>C10: What a roll starts its cluster process with, that process reads as it was meant: its name, the nodes
  and what each declared, the level, the scenarios, and rounds without an end.\<close>

theorem cluster_reads_what_the_roll_wrote:
  assumes "shaped cluster" and "list_all (entry_documented K) (or_roster O')"
    and "set (or_scenarios O') \<subseteq> set SCENARIOS" and "case or_online O' of None \<Rightarrow> True | Some online \<Rightarrow> listable online"
  shows "cluster_parse K (spawned_args K cluster O' shared path) = Inr \<lparr>ca_name = cluster, ca_shared = shared,
    ca_nodes = or_roster O', ca_online = or_online O', ca_stress = or_stress O', ca_scenarios = or_scenarios O',
    ca_rounds = 0, ca_snapshot = path, ca_interval_ms = 250\<rparr>"
  using assms by (rule parse_spawned_args)

theorem cluster_reads_what_the_roll_wrote_witness:
  "cluster_parse plain_capability
       (spawned_args plain_capability ''C-1'' (example_orders\<lparr>or_online := Some [''a'']\<rparr>) ''d'' ''c.xmip'')
     = Inr \<lparr>ca_name = ''C-1'', ca_shared = ''d'', ca_nodes = or_roster example_orders, ca_online = Some [''a''],
         ca_stress = or_stress example_orders, ca_scenarios = or_scenarios example_orders, ca_rounds = 0,
         ca_snapshot = ''c.xmip'', ca_interval_ms = 250\<rparr>"
proof -
  let ?O = "example_orders\<lparr>or_online := Some [''a'']\<rparr>"
  have "shaped ''C-1''" "list_all (entry_documented plain_capability) (or_roster ?O)"
    "set (or_scenarios ?O) \<subseteq> set SCENARIOS"
    "case or_online ?O of None \<Rightarrow> True | Some online \<Rightarrow> listable online"
    by code_simp+
  from cluster_reads_what_the_roll_wrote [OF this, of "''d''" "''c.xmip''"] show ?thesis by simp
qed

text \<open>A capability as the \<open>node\<close> crate writes and reads it.\<close>

definition capability_documented :: "'cap capability_text \<Rightarrow> 'cap \<Rightarrow> bool" where
  "capability_documented X cap \<longleftrightarrow>
     (case ct_parse X (ct_words X cap) of Inl _ \<Rightarrow> False | Inr role \<Rightarrow> ct_with_online X role (ct_is_online X cap) = cap)"

lemma node_number_decimal: "n < 2 ^ 64 \<Longrightarrow> node_number flag (decimal n) = Inr n"
  by (simp add: node_number_def written_reads)

lemma node_interval_width: "node_interval_ms level < 2 ^ 64"
  by (cases level) (simp_all add: node_interval_ms_def)

text \<open>C22: What a cluster starts a node with, that node reads as it was meant: its own name and capability, the
  whole roster, the level, the scenarios and the rounds; and the beat it is told, or a millisecond
  where it is told none.\<close>

theorem node_reads_what_its_cluster_wrote:
  assumes "capability_documented X cap" and "list_all (entry_documented K) (or_roster O')"
    and "set (or_scenarios O') \<subseteq> set SCENARIOS" and "or_rounds O' < 2 ^ 64" and "beat_ms < 2 ^ 64"
  shows "node_parse K X
      (node_args K (capability_flags (ct_words X) (ct_is_online X) cap) O' beat_ms shared name path)
    = Inr \<lparr>na_name = name, na_shared = shared, na_stress = or_stress O', na_rounds = or_rounds O', na_snapshot = path,
        na_interval_ms = node_interval_ms (or_stress O'), na_beat_ms = max beat_ms 1, na_capability = cap,
        na_roster = or_roster O', na_scenarios = or_scenarios O'\<rparr>"
proof -
  obtain role where "ct_parse X (ct_words X cap) = Inr role" "ct_with_online X role (ct_is_online X cap) = cap"
    using assms(1) by (auto simp: capability_documented_def split: sum.splits)
  then show ?thesis
    using assms node_interval_width
    by (cases "or_scenarios O' = []")
      (simp_all add: node_parse_def node_args_def capability_flags_def node_flags_none_def node_flag_simps
        node_number_decimal switch_parse_words written_reads)
qed

text \<open>Capabilities as \<open>plain_capability\<close> has them, one word and never online.\<close>

definition plain_capability_text :: "stage list capability_text" where
  "plain_capability_text =
     \<lparr>ct_parse = (\<lambda>word. case find (\<lambda>st. stage_word st = word) [Receive, Process, Send] of
         Some st \<Rightarrow> Inr [st] | None \<Rightarrow> Inl (word @ '' is no role'')),
      ct_with_online = (\<lambda>cap online. cap), ct_words = (\<lambda>cap. case cap of [] \<Rightarrow> [] | st # _ \<Rightarrow> stage_word st),
      ct_is_online = (\<lambda>cap. False), ct_word = (\<lambda>cap. ''offline'')\<rparr>"

theorem node_reads_what_its_cluster_wrote_witness:
  "node_parse plain_capability plain_capability_text
      (node_args plain_capability
        (capability_flags (ct_words plain_capability_text) (ct_is_online plain_capability_text) [Process])
        example_orders 100 ''d'' ''p'' ''d/p.xmip'')
    = Inr \<lparr>na_name = ''p'', na_shared = ''d'', na_stress = or_stress example_orders, na_rounds = or_rounds example_orders,
        na_snapshot = ''d/p.xmip'', na_interval_ms = node_interval_ms (or_stress example_orders),
        na_beat_ms = 100, na_capability = [Process], na_roster = or_roster example_orders,
        na_scenarios = or_scenarios example_orders\<rparr>"
proof -
  have "capability_documented plain_capability_text [Process]"
    "list_all (entry_documented plain_capability) (or_roster example_orders)"
    "set (or_scenarios example_orders) \<subseteq> set SCENARIOS"
    by code_simp+
  moreover have "or_rounds example_orders < 2 ^ 64" by (simp add: example_orders_def orders_of_def)
  ultimately show ?thesis
    using node_reads_what_its_cluster_wrote [of plain_capability_text "[Process]" plain_capability example_orders 100
        "''d''" "''p''" "''d/p.xmip''"] by simp
qed

text \<open>A flag without its value is refused, wherever it stands.\<close>

lemma accepted_flags_are_pairs:
  assumes "cluster_parse K args = Inr a"
  shows "even (length args)"
proof -
  have "even (length args)" if "read_flags f args p = Inr q" for f :: "string \<Rightarrow> string \<Rightarrow> 's \<Rightarrow> string + 's" and p q
    using that by (induction f args p rule: read_flags.induct) (auto split: sum.splits)
  with assms show ?thesis by (auto simp: cluster_parse_def and_then_Inr)
qed

end
