(* ===== verification/Served.thy ===== *)
theory Served
  imports Given Command_Lines
begin

text \<open>
  The nodes a run starts as \<open>xmip-service\<close> (\<open>src/served.rs\<close>): the Storage nodes first, the rest once those
  accept work, every one ended where any is refused, and stopped in the opposite order. What starting
  a node and waiting for it come to are the parameter \<open>Q\<close>; what the run does to its processes is
  the list of its acts, in order.
\<close>

section \<open>Acts\<close>

datatype serving_act =
    Starts string
  | Accepts string
  | Ends_Input string
  | Drained string
  | Killed string

record started =
  sd_name :: string
  sd_stores :: bool

record 'real serving_api =
  sv_roles :: "string + declared"
  sv_given :: "declared \<Rightarrow> string + string"
  sv_spawned :: "string \<Rightarrow> string + string list"
  sv_local :: "string \<Rightarrow> string + 'real"

definition holding :: "string list \<Rightarrow> string list \<Rightarrow> bool" where
  "holding roles any \<longleftrightarrow> list_ex (\<lambda>one. list_ex (\<lambda>word. word = one) roles) any"

definition served_stores :: "'real serving_api \<Rightarrow> string list \<Rightarrow> string + bool" where
  "served_stores Q names =
     (case sv_roles Q of
        Inl e \<Rightarrow> Inl e
      | Inr declared \<Rightarrow> Inr (list_ex (\<lambda>(name, roles). name \<in> set names \<and> holding roles [''storage'']) declared))"

text \<open>\<open>accepting\<close>, over the lines a node said within the bound.\<close>

fun accepting :: "string \<Rightarrow> string option \<Rightarrow> string list \<Rightarrow> string + unit" where
  "accepting scope heard [] =
     Inl (''never said it accepts work: '' @ (case heard of None \<Rightarrow> ''it said nothing'' | Some said \<Rightarrow> said))"
| "accepting scope heard (line # lines) =
     (if contains (scope @ '' accepts work'') line then Inr () else accepting scope (Some line) lines)"

section \<open>Starting\<close>

text \<open>Each node of a batch started: what each says is heard once every one of it is.\<close>

fun spawn_group ::
    "'real serving_api \<Rightarrow> string \<Rightarrow> declared \<Rightarrow> started list \<Rightarrow> (string + (string \<times> string list) list) \<times> started list \<times> serving_act list" where
  "spawn_group Q cluster [] started = (Inr [], started, [])"
| "spawn_group Q cluster ((name, roles) # batch) started =
     (case sv_spawned Q name of
        Inl problem \<Rightarrow>
          (Inl (''REFUSED: '' @ name @ '', as xmip-service: '' @ problem), started, map (\<lambda>one. Killed (sd_name one)) started)
      | Inr said \<Rightarrow>
          let one = \<lparr>sd_name = name, sd_stores = list_ex (\<lambda>role. role = ''storage'') roles\<rparr>;
              (waiting, started, acts) = spawn_group Q cluster batch (started @ [one]) in
          (case waiting of Inl e \<Rightarrow> Inl e | Inr waiting \<Rightarrow> Inr ((name, said) # waiting), started, Starts name # acts))"

fun await_group ::
    "string \<Rightarrow> (string \<times> string list) list \<Rightarrow> started list \<Rightarrow> (string + unit) \<times> serving_act list" where
  "await_group cluster [] started = (Inr (), [])"
| "await_group cluster ((name, said) # waiting) started =
     (case accepting (''xmip:///'' @ cluster @ ''/node/'' @ name) None said of
        Inl problem \<Rightarrow>
          (Inl (''REFUSED: '' @ name @ '', started as xmip-service, '' @ problem), map (\<lambda>one. Killed (sd_name one)) started)
      | Inr _ \<Rightarrow> (case await_group cluster waiting started of (r, acts) \<Rightarrow> (r, Accepts name # acts)))"

definition start_group ::
    "'real serving_api \<Rightarrow> string \<Rightarrow> declared \<Rightarrow> started list \<Rightarrow> (string + started list) \<times> serving_act list" where
  "start_group Q cluster batch started =
     (case spawn_group Q cluster batch started of
        (Inl e, started, acts) \<Rightarrow> (Inl e, acts)
      | (Inr waiting, started, acts) \<Rightarrow>
          (case await_group cluster waiting started of
             (Inl e, awaited) \<Rightarrow> (Inl e, acts @ awaited)
           | (Inr _, awaited) \<Rightarrow> (Inr started, acts @ awaited)))"

text \<open>The nodes read as real ones, the first that cannot be ending it.\<close>

fun read_local :: "'real serving_api \<Rightarrow> declared \<Rightarrow> string + 'real list" where
  "read_local Q [] = Inr []"
| "read_local Q ((name, _) # rest) =
     (case sv_local Q name of
        Inl e \<Rightarrow> Inl e
      | Inr real \<Rightarrow> (case read_local Q rest of Inl e \<Rightarrow> Inl e | Inr reals \<Rightarrow> Inr (real # reals)))"

definition served_start ::
    "'real serving_api \<Rightarrow> string \<Rightarrow> string list \<Rightarrow> (string + started list \<times> 'real list) \<times> serving_act list" where
  "served_start Q cluster names =
     (case sv_roles Q of
        Inl e \<Rightarrow> (Inl e, [])
      | Inr declared \<Rightarrow>
          let declared = filter (\<lambda>(name, _). name \<in> set names) declared in
          (case sv_given Q declared of
             Inl e \<Rightarrow> (Inl e, [])
           | Inr text \<Rightarrow>
               (case start_group Q cluster (filter (\<lambda>(_, roles). holding roles [''storage'']) declared) [] of
                  (Inl e, acts) \<Rightarrow> (Inl e, acts)
                | (Inr started, acts) \<Rightarrow>
                    (case start_group Q cluster (filter (\<lambda>(_, roles). \<not> holding roles [''storage'']) declared) started of
                       (Inl e, later) \<Rightarrow> (Inl e, acts @ later)
                     | (Inr started, later) \<Rightarrow>
                         (case read_local Q declared of
                            Inl e \<Rightarrow> (Inl e, acts @ later)
                          | Inr real \<Rightarrow> (Inr (started, real), acts @ later))))))"

section \<open>Stopping\<close>

text \<open>\<open>exited\<close>: asked over and over, what the \<open>k\<close>th \<open>try_wait\<close> answered (an error, still running, or
  over) and when it was asked. That it ends is the clock's doing.\<close>

partial_function (option) exited_from ::
    "(nat \<Rightarrow> string + bool) \<Rightarrow> (nat \<Rightarrow> nat) \<Rightarrow> nat \<Rightarrow> nat \<Rightarrow> bool option" where
  "exited_from tried clock deadline k =
     (case tried k of
        Inl e \<Rightarrow> Some False
      | Inr over \<Rightarrow>
          if over then Some True
          else if clock k < deadline then exited_from tried clock deadline (Suc k)
          else Some False)"

definition exited :: "(nat \<Rightarrow> string + bool) \<Rightarrow> (nat \<Rightarrow> nat) \<Rightarrow> nat \<Rightarrow> nat \<Rightarrow> bool option" where
  "exited tried clock now within = exited_from tried clock (now + within) 0"

text \<open>Where the clock comes to the deadline the loop ends, and it answers that the process exited exactly
  where some time it was asked it had, and every time before it was running and the deadline ahead.\<close>

lemma exited_from_ends:
  assumes "k \<le> n" "deadline \<le> clock n"
  shows "exited_from tried clock deadline k =
    Some (\<exists>i \<ge> k. tried i = Inr True \<and> (\<forall>j. k \<le> j \<and> j < i \<longrightarrow> tried j = Inr False \<and> clock j < deadline))"
  using assms
proof (induction "n - k" arbitrary: k rule: less_induct)
  case less
  show ?case
  proof (cases "tried k = Inr False \<and> clock k < deadline")
    case True
    with less.prems have "k < n" by (metis le_neq_implies_less not_le)
    then have "exited_from tried clock deadline (Suc k) =
        Some (\<exists>i \<ge> Suc k. tried i = Inr True \<and> (\<forall>j. Suc k \<le> j \<and> j < i \<longrightarrow> tried j = Inr False \<and> clock j < deadline))"
      using less.prems by (intro less.hyps) auto
    moreover have "(\<exists>i \<ge> Suc k. tried i = Inr True \<and> (\<forall>j. Suc k \<le> j \<and> j < i \<longrightarrow> tried j = Inr False \<and> clock j < deadline))
        \<longleftrightarrow> (\<exists>i \<ge> k. tried i = Inr True \<and> (\<forall>j. k \<le> j \<and> j < i \<longrightarrow> tried j = Inr False \<and> clock j < deadline))"
      using True by (metis Suc_leD Suc_leI le_neq_implies_less sum.inject(2))
    ultimately show ?thesis using True by (subst exited_from.simps) simp
  next
    case False
    then have "(\<exists>i \<ge> k. tried i = Inr True \<and> (\<forall>j. k \<le> j \<and> j < i \<longrightarrow> tried j = Inr False \<and> clock j < deadline))
        \<longleftrightarrow> tried k = Inr True"
      by (metis le_neq_implies_less order_refl not_less)
    then show ?thesis using False by (subst exited_from.simps) (cases "tried k"; auto)
  qed
qed

text \<open>A batch stopped: the input of every one ended, then each waited for, and killed where it did not
  drain.\<close>

definition stop_group :: "(string \<Rightarrow> bool) \<Rightarrow> started list \<Rightarrow> serving_act list" where
  "stop_group drains batch =
     map (\<lambda>one. Ends_Input (sd_name one)) batch
     @ map (\<lambda>one. if drains (sd_name one) then Drained (sd_name one) else Killed (sd_name one)) batch"

definition served_stop :: "(string \<Rightarrow> bool) \<Rightarrow> started list \<Rightarrow> serving_act list" where
  "served_stop drains started =
     stop_group drains (filter (\<lambda>one. \<not> sd_stores one) started) @ stop_group drains (filter sd_stores started)"

section \<open>Storage first, and last\<close>

lemma holding_storage: "holding roles [''storage''] \<longleftrightarrow> ''storage'' \<in> set roles"
  by (auto simp: holding_def list_ex_iff)

abbreviation acts_kill :: "started list \<Rightarrow> serving_act list" where
  "acts_kill started \<equiv> map (\<lambda>one. Killed (sd_name one)) started"

text \<open>What starting a batch does: its nodes in order, all of them or those before the one refused, and the
  ones that were started ended where one was.\<close>

lemma spawn_group_acts:
  assumes "spawn_group Q cluster batch started = (r, started', acts)"
  shows "(case r of
      Inr waiting \<Rightarrow> map sd_name started' = map sd_name started @ map fst batch
        \<and> map sd_stores started' = map sd_stores started @ map (\<lambda>node. ''storage'' \<in> set (snd node)) batch
        \<and> acts = map (\<lambda>node. Starts (fst node)) batch \<and> map fst waiting = map fst batch
    | Inl e \<Rightarrow> \<exists>k \<le> length batch. map sd_name started' = map sd_name started @ map fst (take k batch)
        \<and> acts = map (\<lambda>node. Starts (fst node)) (take k batch) @ acts_kill started')"
  using assms
proof (induction batch arbitrary: started r started' acts)
  case (Cons node batch)
  obtain name roles where node: "node = (name, roles)" by (cases node)
  show ?case
  proof (cases "sv_spawned Q name")
    case (Inl problem)
    with Cons.prems node show ?thesis by (auto intro!: exI [of _ 0])
  next
    case (Inr said)
    let ?one = "\<lparr>sd_name = name, sd_stores = list_ex (\<lambda>role. role = ''storage'') roles\<rparr>"
    obtain r1 started1 acts1 where rest: "spawn_group Q cluster batch (started @ [?one]) = (r1, started1, acts1)"
      by (metis surj_pair)
    from Cons.IH [OF rest] have IH: "case r1 of
        Inr waiting \<Rightarrow> map sd_name started1 = map sd_name (started @ [?one]) @ map fst batch
          \<and> map sd_stores started1 = map sd_stores (started @ [?one]) @ map (\<lambda>node. ''storage'' \<in> set (snd node)) batch
          \<and> acts1 = map (\<lambda>node. Starts (fst node)) batch \<and> map fst waiting = map fst batch
      | Inl e \<Rightarrow> \<exists>k \<le> length batch. map sd_name started1 = map sd_name (started @ [?one]) @ map fst (take k batch)
          \<and> acts1 = map (\<lambda>node. Starts (fst node)) (take k batch) @ acts_kill started1" .
    show ?thesis
    proof (cases r1)
      case (Inl e)
      with IH obtain k where "k \<le> length batch" "map sd_name started1 = map sd_name started @ name # map fst (take k batch)"
        "acts1 = map (\<lambda>node. Starts (fst node)) (take k batch) @ acts_kill started1" by auto
      with Cons.prems node Inr rest Inl show ?thesis by (auto intro!: exI [of _ "Suc k"])
    next
      case waiting: (Inr waiting)
      with Cons.prems node Inr rest IH show ?thesis by (auto simp: list_ex_iff)
    qed
  qed
qed simp

lemma await_group_acts:
  assumes "await_group cluster waiting started = (r, acts)"
  shows "\<exists>k \<le> length waiting. acts = map (\<lambda>w. Accepts (fst w)) (take k waiting)
      @ (case r of Inl e \<Rightarrow> acts_kill started | Inr _ \<Rightarrow> []) \<and> (r = Inr () \<longrightarrow> k = length waiting)"
  using assms
proof (induction waiting arbitrary: r acts)
  case (Cons w waiting)
  obtain name said where w: "w = (name, said)" by (cases w)
  show ?case
  proof (cases "accepting (''xmip:///'' @ cluster @ ''/node/'' @ name) None said")
    case (Inl problem)
    with Cons.prems w show ?thesis by (auto intro!: exI [of _ 0])
  next
    case (Inr u)
    obtain r1 acts1 where rest: "await_group cluster waiting started = (r1, acts1)" by (metis surj_pair)
    with Cons.prems w Inr have "r = r1" "acts = Accepts name # acts1" by simp_all
    moreover from Cons.IH [OF rest] obtain k where "k \<le> length waiting"
      "acts1 = map (\<lambda>w. Accepts (fst w)) (take k waiting) @ (case r1 of Inl e \<Rightarrow> acts_kill started | Inr _ \<Rightarrow> [])"
      "r1 = Inr () \<longrightarrow> k = length waiting" by blast
    ultimately show ?thesis using w by (intro exI [of _ "Suc k"]) auto
  qed
qed simp

definition names_started :: "serving_act list \<Rightarrow> string set" where
  "names_started acts = {name. Starts name \<in> set acts}"

definition names_killed :: "serving_act list \<Rightarrow> string set" where
  "names_killed acts = {name. Killed name \<in> set acts}"

lemma names_acts [simp]:
  "names_started (xs @ ys) = names_started xs \<union> names_started ys" "names_killed (xs @ ys) = names_killed xs \<union> names_killed ys"
  "names_started (map (\<lambda>node. Starts (f node)) ns) = f ` set ns" "names_killed (map (\<lambda>node. Starts (f node)) ns) = {}"
  "names_started (map (\<lambda>node. Accepts (f node)) ns) = {}" "names_killed (map (\<lambda>node. Accepts (f node)) ns) = {}"
  "names_started (acts_kill ones) = {}" "names_killed (acts_kill ones) = sd_name ` set ones"
  "names_started [] = {}" "names_killed [] = {}"
  by (auto simp: names_started_def names_killed_def)

lemma start_group_acts:
  assumes "start_group Q cluster batch started = (r, acts)"
  shows "(case r of
      Inr started' \<Rightarrow> map sd_name started' = map sd_name started @ map fst batch
        \<and> map sd_stores started' = map sd_stores started @ map (\<lambda>node. ''storage'' \<in> set (snd node)) batch
        \<and> acts = map (\<lambda>node. Starts (fst node)) batch @ map (\<lambda>node. Accepts (fst node)) batch
    | Inl e \<Rightarrow> names_started acts \<subseteq> fst ` set batch \<and> names_killed acts = sd_name ` set started \<union> names_started acts)"
proof -
  obtain r1 started1 acts1 where spawned: "spawn_group Q cluster batch started = (r1, started1, acts1)" by (metis surj_pair)
  note facts = spawn_group_acts [OF spawned]
  show ?thesis
  proof (cases r1)
    case (Inl e)
    with facts obtain k where k: "map sd_name started1 = map sd_name started @ map fst (take k batch)"
      "acts1 = map (\<lambda>node. Starts (fst node)) (take k batch) @ acts_kill started1" by auto
    have "sd_name ` set started1 = sd_name ` set started \<union> fst ` set (take k batch)"
      using arg_cong [OF k(1), of set] by simp
    moreover have "fst ` set (take k batch) \<subseteq> fst ` set batch" by (intro image_mono set_take_subset)
    ultimately show ?thesis using k(2) assms spawned Inl by (auto simp: start_group_def)
  next
    case (Inr waiting)
    with facts have all: "map sd_name started1 = map sd_name started @ map fst batch"
      "map sd_stores started1 = map sd_stores started @ map (\<lambda>node. ''storage'' \<in> set (snd node)) batch"
      "acts1 = map (\<lambda>node. Starts (fst node)) batch" "map fst waiting = map fst batch" by auto
    obtain r2 acts2 where awaited: "await_group cluster waiting started1 = (r2, acts2)" by (metis surj_pair)
    from await_group_acts [OF awaited] obtain k where k: "k \<le> length waiting"
      "acts2 = map (\<lambda>w. Accepts (fst w)) (take k waiting) @ (case r2 of Inl e \<Rightarrow> acts_kill started1 | Inr _ \<Rightarrow> [])"
      "r2 = Inr () \<longrightarrow> k = length waiting" by blast
    have "sd_name ` set started1 = sd_name ` set started \<union> fst ` set batch"
      using arg_cong [OF all(1), of set] by simp
    moreover have "map (\<lambda>w. Accepts (fst w)) waiting = map (\<lambda>node. Accepts (fst node)) batch"
      using arg_cong [OF all(4), of "map Accepts"] by (simp add: comp_def)
    ultimately show ?thesis
      using assms spawned Inr awaited all k by (cases r2) (auto simp: start_group_def)
  qed
qed

text \<open>The nodes of a run that keep Xmip Storage, and those that do not, as its cluster's file declares them.\<close>

definition storing :: "'real serving_api \<Rightarrow> string list \<Rightarrow> bool \<Rightarrow> declared" where
  "storing Q names keeps =
     (case sv_roles Q of Inl _ \<Rightarrow> []
      | Inr declared \<Rightarrow> filter (\<lambda>(name, roles). (''storage'' \<in> set roles) = keeps)
          (filter (\<lambda>(name, _). name \<in> set names) declared))"

lemma served_start_acts:
  assumes "served_start Q cluster names = (r, acts)"
  shows "acts = [] \<and> (\<exists>e. r = Inl e)
    \<or> (\<exists>e. r = Inl e \<and> start_group Q cluster (storing Q names True) [] = (Inl e, acts))
    \<or> (\<exists>started r' later. start_group Q cluster (storing Q names True) []
          = (Inr started, map (\<lambda>node. Starts (fst node)) (storing Q names True) @ map (\<lambda>node. Accepts (fst node)) (storing Q names True))
        \<and> start_group Q cluster (storing Q names False) started = (r', later)
        \<and> acts = map (\<lambda>node. Starts (fst node)) (storing Q names True)
            @ map (\<lambda>node. Accepts (fst node)) (storing Q names True) @ later
        \<and> (case r' of Inl e \<Rightarrow> r = Inl e
           | Inr started \<Rightarrow> (case r of Inl e \<Rightarrow> \<exists>name. sv_local Q name = Inl e | Inr (kept, _) \<Rightarrow> kept = started)))"
proof (cases "sv_roles Q")
  case (Inr declared)
  let ?D = "filter (\<lambda>(name, _). name \<in> set names) declared"
  have groups: "filter (\<lambda>(_, roles). holding roles [''storage'']) ?D = storing Q names True"
    "filter (\<lambda>(_, roles). \<not> holding roles [''storage'']) ?D = storing Q names False"
    by (simp_all add: storing_def Inr holding_storage case_prod_beta)
  have local: "read_local Q ds = Inl e \<Longrightarrow> \<exists>name. sv_local Q name = Inl e" for ds e
    by (induction ds) (auto split: sum.splits)
  show ?thesis
  proof (cases "sv_given Q ?D")
    case given: (Inr text')
    obtain r1 acts1 where first: "start_group Q cluster (storing Q names True) [] = (r1, acts1)" by (metis surj_pair)
    show ?thesis
    proof (cases r1)
      case (Inl e)
      with assms Inr given first show ?thesis by (simp add: served_start_def Let_def groups del: filter_filter)
    next
      case ok: (Inr started)
      obtain r2 later where second: "start_group Q cluster (storing Q names False) started = (r2, later)"
        by (metis surj_pair)
      have "acts1 = map (\<lambda>node. Starts (fst node)) (storing Q names True) @ map (\<lambda>node. Accepts (fst node)) (storing Q names True)"
        using start_group_acts [OF first] ok by simp
      moreover have "acts = acts1 @ later \<and> (case r2 of Inl e \<Rightarrow> r = Inl e
           | Inr started \<Rightarrow> (case r of Inl e \<Rightarrow> \<exists>name. sv_local Q name = Inl e | Inr (kept, _) \<Rightarrow> kept = started))"
        using assms Inr given first ok second local
        by (auto simp: served_start_def Let_def groups simp del: filter_filter split: sum.splits)
      ultimately show ?thesis using first ok second by auto
    qed
  qed (use assms Inr in \<open>auto simp: served_start_def Let_def\<close>)
qed (use assms in \<open>auto simp: served_start_def\<close>)

text \<open>C24: A start that is refused leaves nothing running: where every node can be read at its endpoint, each
  process a refused start started it also ended, and it ended no other.\<close>

theorem refused_start_leaves_none_running:
  assumes "served_start Q cluster names = (Inl e, acts)" and "\<And>name. \<exists>real. sv_local Q name = Inr real"
  shows "names_killed acts = names_started acts"
proof -
  have no_local: "sv_local Q name \<noteq> Inl e" for name using assms(2) [of name] by auto
  from served_start_acts [OF assms(1)] show ?thesis
  proof (elim disjE exE conjE)
    fix e' assume "start_group Q cluster (storing Q names True) [] = (Inl e', acts)"
    from start_group_acts [OF this] show ?thesis by simp
  next
    fix started r' later
    assume first: "start_group Q cluster (storing Q names True) []
          = (Inr started, map (\<lambda>node. Starts (fst node)) (storing Q names True) @ map (\<lambda>node. Accepts (fst node)) (storing Q names True))"
      and second: "start_group Q cluster (storing Q names False) started = (r', later)"
      and acts: "acts = map (\<lambda>node. Starts (fst node)) (storing Q names True)
            @ map (\<lambda>node. Accepts (fst node)) (storing Q names True) @ later"
      and refused: "case r' of Inl e' \<Rightarrow> Inl e = Inl e'
           | Inr started \<Rightarrow> (case Inl e of Inl e \<Rightarrow> \<exists>name. sv_local Q name = Inl e | Inr (kept, _) \<Rightarrow> kept = started)"
    have "map sd_name started = map fst (storing Q names True)" using start_group_acts [OF first] by simp
    from arg_cong [OF this, of set] have "sd_name ` set started = fst ` set (storing Q names True)" by simp
    moreover obtain e' where "r' = Inl e'" using refused no_local by (cases r') auto
    ultimately show ?thesis using start_group_acts [OF second] acts by simp
  qed simp
qed

text \<open>A node that keeps Xmip Storage and one that does not, which does not start where \<open>fails\<close>.\<close>

definition example_serving :: "bool \<Rightarrow> unit serving_api" where
  "example_serving fails =
     \<lparr>sv_roles = Inr [(''P'', [''processing'']), (''D'', [''storage''])], sv_given = (\<lambda>declared. Inr ''given''),
      sv_spawned = (\<lambda>name. if fails \<and> name = ''P'' then Inl ''no such service''
        else Inr [''starting'', ''xmip:///C/node/'' @ name @ '' accepts work'']),
      sv_local = (\<lambda>name. Inr ())\<rparr>"

theorem refused_start_leaves_none_running_witness:
  "\<exists>e acts. served_start (example_serving True) ''C'' [''P'', ''D''] = (Inl e, acts) \<and> names_started acts = {''D''}
     \<and> names_killed acts = names_started acts"
proof -
  have run: "served_start (example_serving True) ''C'' [''P'', ''D'']
      = (Inl ''REFUSED: P, as xmip-service: no such service'', [Starts ''D'', Accepts ''D'', Killed ''D''])"
    by code_simp
  moreover have "\<exists>real. sv_local (example_serving True) name = Inr real" for name by (simp add: example_serving_def)
  ultimately have "names_killed [Starts ''D'', Accepts ''D'', Killed ''D''] = names_started [Starts ''D'', Accepts ''D'', Killed ''D'']"
    using refused_start_leaves_none_running by blast
  with run show ?thesis by (auto simp: names_started_def)
qed

text \<open>
  A node that cannot be read at its endpoint refuses the start as well, and nothing that was started is
  ended then.
\<close>

lemma unread_node_leaves_all_running:
  "served_start (example_serving False\<lparr>sv_local := \<lambda>name. Inl ''no endpoint''\<rparr>) ''C'' [''P'', ''D'']
    = (Inl ''no endpoint'', [Starts ''D'', Accepts ''D'', Starts ''P'', Accepts ''P''])"
  by code_simp

lemma before_absent: "P @ L = us @ x # vs \<Longrightarrow> x \<notin> set P \<Longrightarrow> \<exists>us'. us = P @ us'"
proof -
  assume eq: "P @ L = us @ x # vs" and x: "x \<notin> set P"
  show "\<exists>us'. us = P @ us'"
  proof (cases "length us < length P")
    case True
    then have "x = P ! length us" using arg_cong [OF eq, of "\<lambda>xs. xs ! length us"] by (simp add: nth_append)
    with True x show ?thesis by simp
  next
    case False
    then have "P = take (length P) us" using eq by (auto simp: append_eq_append_conv_if)
    then show ?thesis by (metis append_take_drop_id)
  qed
qed

text \<open>C25: Xmip Storage is there for as long as any node may need it. However a start ends, no node that keeps
  none is started before every Storage node has said it accepts work; and a stop ends the input of no
  Storage node before every other has drained or been ended.\<close>

theorem storage_is_first_and_last:
  assumes "served_start Q cluster names = (r, acts)" and "sv_roles Q = Inr declared" and "distinct (map fst declared)"
  shows "(\<forall>us n vs. acts = us @ Starts n # vs \<and> n \<in> fst ` set (storing Q names False) \<longrightarrow>
        Accepts ` fst ` set (storing Q names True) \<subseteq> set us)
    \<and> (\<forall>drains started us n vs. served_stop drains started = us @ Ends_Input n # vs
          \<and> n \<notin> sd_name ` set (filter (\<lambda>one. \<not> sd_stores one) started) \<longrightarrow>
        (\<forall>one \<in> set started. \<not> sd_stores one \<longrightarrow> Drained (sd_name one) \<in> set us \<or> Killed (sd_name one) \<in> set us))"
proof (intro conjI allI impI)
  fix us n vs
  assume n: "acts = us @ Starts n # vs \<and> n \<in> fst ` set (storing Q names False)"
  have apart: "n \<notin> fst ` set (storing Q names True)"
    using n assms(2,3) by (auto simp: storing_def dest: eq_key_imp_eq_value)
  have "n \<in> names_started acts" using n by (simp add: names_started_def)
  with served_start_acts [OF assms(1)] apart start_group_acts [of Q cluster "storing Q names True" "[]" _ acts]
  obtain later where "acts = (map (\<lambda>node. Starts (fst node)) (storing Q names True)
      @ map (\<lambda>node. Accepts (fst node)) (storing Q names True)) @ later"
    by (auto simp: names_started_def)
  with n apart before_absent [of _ later us "Starts n" vs] obtain us' where
    "us = (map (\<lambda>node. Starts (fst node)) (storing Q names True)
      @ map (\<lambda>node. Accepts (fst node)) (storing Q names True)) @ us'" by fastforce
  then show "Accepts ` fst ` set (storing Q names True) \<subseteq> set us" by auto
next
  fix drains started us n vs
  assume n: "served_stop drains started = us @ Ends_Input n # vs
      \<and> n \<notin> sd_name ` set (filter (\<lambda>one. \<not> sd_stores one) started)"
  let ?rest = "filter (\<lambda>one. \<not> sd_stores one) started"
  have "Ends_Input n \<notin> set (stop_group drains ?rest)" using n by (auto simp: stop_group_def)
  with n before_absent [of "stop_group drains ?rest" "stop_group drains (filter sd_stores started)" us] obtain us'
    where "us = stop_group drains ?rest @ us'" by (auto simp: served_stop_def)
  then show "\<forall>one \<in> set started. \<not> sd_stores one \<longrightarrow> Drained (sd_name one) \<in> set us \<or> Killed (sd_name one) \<in> set us"
    by (auto simp: stop_group_def)
qed

theorem storage_is_first_and_last_witness:
  "\<exists>us vs. snd (served_start (example_serving False) ''C'' [''P'', ''D'']) = us @ Starts ''P'' # vs \<and> Accepts ''D'' \<in> set us"
proof -
  have run: "served_start (example_serving False) ''C'' [''P'', ''D''] =
      (Inr ([\<lparr>sd_name = ''D'', sd_stores = True\<rparr>, \<lparr>sd_name = ''P'', sd_stores = False\<rparr>], [(), ()]),
       [Starts ''D'', Accepts ''D''] @ Starts ''P'' # [Accepts ''P''])"
    by code_simp
  have roles: "sv_roles (example_serving False) = Inr [(''P'', [''processing'']), (''D'', [''storage''])]"
    by (simp add: example_serving_def)
  have "Accepts ` fst ` set (storing (example_serving False) [''P'', ''D''] True) \<subseteq> set [Starts ''D'', Accepts ''D'']"
    using storage_is_first_and_last [OF run roles] by (simp add: storing_def roles)
  moreover have "''D'' \<in> fst ` set (storing (example_serving False) [''P'', ''D''] True)"
    by (simp add: storing_def roles)
  ultimately have "Accepts ''D'' \<in> set [Starts ''D'', Accepts ''D'']" by blast
  with run show ?thesis by (intro exI [of _ "[Starts ''D'', Accepts ''D'']"] exI [of _ "[Accepts ''P'']"]) simp
qed

end
