(* ===== verification/Run_Nodes.thy ===== *)
theory Run_Nodes
  imports Real_Nodes Served Carried
begin

text \<open>
  The nodes of a run, sorted (\<open>src/bin/roll.rs\<close>): the real ones, those started as \<open>xmip-service\<close> and
  those left for the cluster process to spawn; and the Parties' far end the real ones are driven
  through (\<open>src/far_end.rs\<close>). What is asked of real nodes is \<open>Real_Nodes\<close>' parameter \<open>A\<close>, of nodes the
  run starts \<open>Served\<close>' parameter \<open>Q\<close>.
\<close>

section \<open>The far end of the real nodes\<close>

record placement =
  pl_node :: string
  pl_user :: string
  pl_secret :: string
  pl_receives :: bool

text \<open>Each Location placed over the real nodes, with a password of its own set on its node: the users, with
  their passwords, and the bindings, until a node is not one of the run's or does not take its
  secret. \<open>minted\<close> is the password minted for each in turn.\<close>

fun far_end_each ::
    "('i, 'r, 'cap) reach \<Rightarrow> ('r, 'cap) real_node list \<Rightarrow> (nat \<Rightarrow> string) \<Rightarrow> nat \<Rightarrow> placement list
       \<Rightarrow> string + ((string \<times> string) \<times> spot_side) list" where
  "far_end_each A real minted n [] = Inr []"
| "far_end_each A real minted n (p # ps) =
     and_then (ok_or (find (\<lambda>node. rn_name node = pl_node p) real)
       (''REFUSED: '' @ pl_node p @ '' is no real node of the run'')) (\<lambda>node.
     and_then (set_password A node (pl_secret p) (minted n)) (\<lambda>_.
     and_then (far_end_each A real minted (n + 1) ps) (\<lambda>rest.
     Inr (((pl_user p, minted n), if pl_receives p then DropSide (pl_user p) else ArrivalSide (pl_user p)) # rest))))"

definition FAR_END_REFUSED :: "string \<Rightarrow> string \<Rightarrow> string" where
  "FAR_END_REFUSED address e = ''REFUSED: the Parties' far end cannot be served at '' @ address @ '': '' @ e"

text \<open>\<open>placed\<close> is what is placed over the names of the real nodes, \<open>bound\<close> whether its port was given.\<close>

definition far_end_serve ::
    "('i, 'r, 'cap) reach \<Rightarrow> (string list \<Rightarrow> string + placement list) \<Rightarrow> (nat \<Rightarrow> string) \<Rightarrow> string \<Rightarrow> string + unit
       \<Rightarrow> ('r, 'cap) real_node list \<Rightarrow> string + ((string \<times> string) \<times> spot_side) list option" where
  "far_end_serve A placed minted address bound real =
     and_then (placed (map rn_name real)) (\<lambda>placements.
       if placements = [] then Inr None
       else and_then (far_end_each A real minted 0 placements) (\<lambda>bindings.
         (case bound of Inl e \<Rightarrow> Inl (FAR_END_REFUSED address e) | Inr _ \<Rightarrow> Inr (Some bindings))))"

section \<open>The nodes the run starts\<close>

text \<open>\<open>RealNode::local\<close>; opening the remote of an endpoint is the parameter \<open>opens\<close>.\<close>

definition real_local ::
    "(string \<Rightarrow> string + 'r) \<Rightarrow> string \<Rightarrow> 'cap roster \<Rightarrow> 'cap capability_api \<Rightarrow> string \<Rightarrow> string + ('r, 'cap) real_node" where
  "real_local opens cluster R K name =
     and_then (opens (endpoint cluster name)) (\<lambda>remote.
       Inr \<lparr>rn_name = name, rn_address = ''the local endpoint '' @ endpoint cluster name,
         rn_capability = roster_capability K R name, rn_remote = remote\<rparr>)"

definition roll_serve ::
    "('r, 'cap) real_node serving_api \<Rightarrow> string \<Rightarrow> string option \<Rightarrow> 'cap roster
       \<Rightarrow> (string + started list option \<times> ('r, 'cap) real_node list \<times> 'cap roster) \<times> serving_act list" where
  "roll_serve Q cluster service simulated =
     (case service of
        None \<Rightarrow> (Inr (None, [], simulated), [])
      | Some _ \<Rightarrow>
          let names = roster_names simulated in
          if names = [] then (Inr (None, [], simulated), [])
          else (case served_stores Q names of
              Inl e \<Rightarrow> (Inl e, [])
            | Inr stores \<Rightarrow>
                if \<not> stores then (Inr (None, [], simulated), [])
                else (case served_start Q cluster names of
                    (Inl e, acts) \<Rightarrow> (Inl e, acts)
                  | (Inr (started, real), acts) \<Rightarrow> (Inr (Some started, real, roster_without names simulated), acts))))"

section \<open>The nodes of a run\<close>

record ('r, 'cap) run_nodes =
  nd_real :: "('r, 'cap) real_node list"
  nd_names :: "string list"
  nd_roster :: "'cap roster"
  nd_simulated :: "'cap roster"
  nd_served :: "started list option"
  nd_driven :: "spot_side list option"
  nd_far_end :: bool

text \<open>\<open>served_spots\<close> are the bindings of the nodes the run starts, \<open>watched\<close> whether their folders could be
  watched.\<close>

definition roll_nodes ::
    "('i, 'r, 'cap) reach \<Rightarrow> (('r, 'cap) real_node list \<Rightarrow> string + ((string \<times> string) \<times> spot_side) list option)
       \<Rightarrow> ('cap roster \<Rightarrow> ('r, 'cap) real_node serving_api) \<Rightarrow> spot_side list \<Rightarrow> string + unit \<Rightarrow> string \<Rightarrow> string list
       \<Rightarrow> string option \<Rightarrow> string option \<Rightarrow> string + 'cap roster \<Rightarrow> (string + ('r, 'cap) run_nodes) \<times> serving_act list" where
  "roll_nodes A far Q served_spots watched cluster typed certificate service all =
     (case and_then all (nodes_sorted A cluster typed certificate) of
        Inl e \<Rightarrow> (Inl e, [])
      | Inr S \<Rightarrow>
          if sn_real S \<noteq> []
          then (and_then (far (sn_real S)) (\<lambda>served. and_then (if served = None then Inr () else watched) (\<lambda>_.
                  Inr \<lparr>nd_real = sn_real S, nd_names = sn_names S, nd_roster = sn_roster S, nd_simulated = sn_simulated S,
                    nd_served = None, nd_driven = map_option (map snd) served, nd_far_end = (served \<noteq> None)\<rparr>)), [])
          else (case roll_serve (Q (sn_roster S)) cluster service (sn_simulated S) of
              (Inl e, acts) \<Rightarrow> (Inl e, acts)
            | (Inr (served, started, simulated), acts) \<Rightarrow>
                (and_then (if served = None then Inr () else watched) (\<lambda>_.
                  Inr \<lparr>nd_real = sn_real S @ started, nd_names = sn_names S @ map rn_name started, nd_roster = sn_roster S,
                    nd_simulated = simulated, nd_served = served,
                    nd_driven = map_option (\<lambda>_. served_spots) served, nd_far_end = False\<rparr>), acts)))"

section \<open>Every node is run exactly one way\<close>

text \<open>The nodes the run starts are read under their own names.\<close>

definition reads_by_name :: "('r, 'cap) real_node serving_api \<Rightarrow> bool" where
  "reads_by_name Q \<longleftrightarrow> (\<forall>name n. sv_local Q name = Inr n \<longrightarrow> rn_name n = name)"

lemma read_local_names:
  "reads_by_name Q \<Longrightarrow> read_local Q ds = Inr real \<Longrightarrow> map rn_name real = map fst ds"
  by (induction ds arbitrary: real) (auto simp: reads_by_name_def split: sum.splits)

lemma started_names:
  assumes "reads_by_name Q" and "served_start Q cluster names = (Inr (started, real), acts)"
    and "sv_roles Q = Inr declared"
  shows "set (map rn_name real) = fst ` set declared \<inter> set names"
proof -
  have "read_local Q (filter (\<lambda>(name, _). name \<in> set names) declared) = Inr real"
    using assms(2,3) by (auto simp: served_start_def Let_def split: sum.splits prod.splits)
  from arg_cong [OF read_local_names [OF assms(1) this], of set] show ?thesis by force
qed

lemma without_itself: "roster_without (roster_names R) R = []"
  by (auto simp: roster_without_def roster_names_def list_ex_iff filter_empty_conv)

lemma sorted_simulated_names:
  assumes "nodes_sorted A cluster typed certificate R = Inr S"
  shows "sn_names S = map rn_name (sn_real S)"
    and "set (roster_names (sn_simulated S)) =
        {name \<in> set (roster_names R). \<not> list_ex (\<lambda>one. eq_ignore_ascii_case one name) (sn_names S)}"
  using assms sorted_parts [OF assms] by blast+

text \<open>What serving the simulated nodes leaves of them: all, where none is served; none otherwise, and then
  each of them is one of those started.\<close>

lemma serve_splits:
  assumes "roll_serve Q cluster service R = (Inr (served, real, simulated), acts)" and "reads_by_name Q"
    and "case sv_roles Q of Inl _ \<Rightarrow> True | Inr declared \<Rightarrow> set (roster_names R) \<subseteq> fst ` set declared"
  shows "(served = None \<and> real = [] \<and> simulated = R)
    \<or> (served \<noteq> None \<and> simulated = [] \<and> set (map rn_name real) = set (roster_names R))"
proof (cases "served = None")
  case True
  then show ?thesis
    using assms(1) by (auto simp: roll_serve_def Let_def split: option.splits if_splits sum.splits prod.splits)
next
  case False
  with assms(1) obtain started declared where started: "served_start Q cluster (roster_names R) = (Inr (started, real), acts)"
      "served = Some started" "simulated = roster_without (roster_names R) R" and roles: "sv_roles Q = Inr declared"
    by (auto simp: roll_serve_def Let_def served_stores_def split: option.splits if_splits sum.splits prod.splits)
  with started_names [OF assms(2) started(1) roles] assms(3) show ?thesis by (auto simp: without_itself)
qed

text \<open>C26: Every node of a run runs in exactly one way. Where the run goes on, each node its cluster's file
  declares is either left for the cluster process to spawn or is one of those the run reads as real,
  in any case of its name, never both and never neither; the nodes read as real are named as they are
  read; where the run starts nodes itself it leaves none to spawn, and none of its nodes is on a
  machine of its own; and it drives nodes exactly where it started them or serves them a far end.\<close>

theorem every_node_runs_one_way:
  assumes "roll_nodes A far Q spots watched cluster typed certificate service (Inr R) = (Inr N, acts)"
    and "\<And>R. reads_by_name (Q R)"
    and "\<And>R'. case sv_roles (Q R') of Inl _ \<Rightarrow> True | Inr declared \<Rightarrow> set (roster_names R) \<subseteq> fst ` set declared"
  shows "(\<forall>name \<in> set (roster_names R).
        (name \<in> set (roster_names (nd_simulated N))) \<noteq> list_ex (\<lambda>one. eq_ignore_ascii_case one name) (nd_names N))
    \<and> nd_names N = map rn_name (nd_real N)
    \<and> (nd_served N \<noteq> None \<longrightarrow> nd_simulated N = [] \<and> (\<exists>S. nodes_sorted A cluster typed certificate R = Inr S \<and> sn_real S = []))
    \<and> (nd_driven N \<noteq> None \<longleftrightarrow> nd_served N \<noteq> None \<or> nd_far_end N)"
proof -
  obtain S where S: "nodes_sorted A cluster typed certificate R = Inr S"
    using assms(1) by (auto simp: roll_nodes_def and_then_def split: sum.splits)
  note sorted = sorted_simulated_names [OF S]
  show ?thesis
  proof (cases "sn_real S = []")
    case False
    with assms(1) S have "and_then (far (sn_real S)) (\<lambda>served. and_then (if served = None then Inr () else watched) (\<lambda>_.
        Inr \<lparr>nd_real = sn_real S, nd_names = sn_names S, nd_roster = sn_roster S, nd_simulated = sn_simulated S,
          nd_served = None, nd_driven = map_option (map snd) served, nd_far_end = (served \<noteq> None)\<rparr>)) = Inr N"
      by (simp add: roll_nodes_def)
    with S sorted show ?thesis by (auto simp: and_then_Inr)
  next
    case True
    obtain r acts' where serve: "roll_serve (Q (sn_roster S)) cluster service (sn_simulated S) = (r, acts')" by (metis surj_pair)
    with assms(1) S True obtain served started simulated where r: "r = Inr (served, started, simulated)"
      and N: "N = \<lparr>nd_real = started, nd_names = map rn_name started, nd_roster = sn_roster S,
        nd_simulated = simulated, nd_served = served, nd_driven = map_option (\<lambda>_. spots) served, nd_far_end = False\<rparr>"
      using sorted(1) by (auto simp: roll_nodes_def and_then_Inr split: sum.splits)
    have names: "set (roster_names (sn_simulated S)) = set (roster_names R)" using sorted True by simp
    then have declared: "case sv_roles (Q (sn_roster S)) of Inl _ \<Rightarrow> True
        | Inr declared \<Rightarrow> set (roster_names (sn_simulated S)) \<subseteq> fst ` set declared"
      using assms(3) [of "sn_roster S"] by (simp split: sum.splits)
    have self: "list_ex (\<lambda>one. eq_ignore_ascii_case one name) (map rn_name started)" if "name \<in> set (map rn_name started)" for name
      using that by (simp add: list_ex_iff) (metis eq_ignore_ascii_case_refl imageE)
    from serve_splits [OF serve [unfolded r] assms(2) declared] show ?thesis
    proof (elim disjE conjE)
      assume "served = None" "started = []" "simulated = sn_simulated S"
      with N names S True show ?thesis by simp
    next
      assume "served \<noteq> None" "simulated = []" "set (map rn_name started) = set (roster_names (sn_simulated S))"
      with N names S True self show ?thesis by (auto simp: roster_names_def)
    qed
  qed
qed

text \<open>A run of two nodes, one keeping Xmip Storage, started by the run where a service is given.\<close>

definition example_run_serving :: "stage list roster \<Rightarrow> (unit, stage list) real_node serving_api" where
  "example_run_serving R =
     \<lparr>sv_roles = Inr [(''P'', [''processing'']), (''D'', [''storage''])], sv_given = (\<lambda>declared. Inr ''given''),
      sv_spawned = (\<lambda>name. Inr [''xmip:///C/node/'' @ name @ '' accepts work'']),
      sv_local = real_local (\<lambda>at. Inr ()) ''C'' R plain_capability\<rparr>"

lemma example_reads_by_name: "reads_by_name (example_run_serving R)"
  by (auto simp: reads_by_name_def example_run_serving_def real_local_def)

theorem every_node_runs_one_way_witness:
  "\<exists>N acts. roll_nodes example_reach (\<lambda>real. Inr None) example_run_serving [] (Inr ()) ''C'' [] None (Some ''xmip-service'')
       (Inr [(''P'', [Process]), (''D'', [])]) = (Inr N, acts)
     \<and> nd_simulated N = [] \<and> nd_names N = map rn_name (nd_real N)
     \<and> list_ex (\<lambda>one. eq_ignore_ascii_case one ''D'') (nd_names N)"
proof -
  let ?R = "[(''P'', [Process]), (''D'', [])]"
  let ?run = "roll_nodes example_reach (\<lambda>real. Inr None) example_run_serving [] (Inr ()) ''C'' [] None (Some ''xmip-service'')
       (Inr ?R)"
  have "case fst ?run of Inl _ \<Rightarrow> False | Inr N \<Rightarrow> nd_simulated N = []" by code_simp
  then obtain N acts where run: "?run = (Inr N, acts)" and none: "nd_simulated N = []"
    by (cases "?run") (auto split: sum.splits)
  have declared: "case sv_roles (example_run_serving R') of Inl _ \<Rightarrow> True
      | Inr declared \<Rightarrow> set (roster_names ?R) \<subseteq> fst ` set declared" for R'
    by (simp add: example_run_serving_def roster_names_def)
  from every_node_runs_one_way [OF run example_reads_by_name declared] run none show ?thesis
    by (auto simp: roster_names_def)
qed

end
