(* ===== verification/Boards.thy ===== *)
theory Boards
  imports Real_Nodes Parties
begin

text \<open>
  What a roll says of its run: what it was started with (\<open>src/run.rs\<close>), the board it draws
  (\<open>src/board.rs\<close>), the rollup its history is drawn from (\<open>src/curve.rs\<close>), the files it publishes
  (\<open>src/publication.rs\<close>) and whether its RoundTrip is its nodes' (\<open>src/bin/roll.rs\<close>). Reading a snapshot
  and writing the files' text are the observe crate's. A text is padded by its bytes, which are its
  characters where it is ASCII.
\<close>

section \<open>What a run was started with\<close>

definition to_ascii_upper :: "char \<Rightarrow> char" where
  "to_ascii_upper c =
     (if 97 \<le> (of_char c :: nat) \<and> (of_char c :: nat) \<le> 122 then char_of ((of_char c :: nat) - 32) else c)"

definition test_name :: "string \<Rightarrow> string" where
  "test_name scenario =
     concat (map (\<lambda>word. case word of [] \<Rightarrow> [] | first # rest \<Rightarrow> to_ascii_upper first # rest) (split_on (CHR ''-'') scenario))"

record run_record =
  ru_cluster :: string
  ru_tests :: "string list"
  ru_nodes :: "string list"
  ru_roles :: "string list"
  ru_online :: "string list"
  ru_stress :: string
  ru_hidden :: bool
  ru_real :: "string list"

definition run_scenarios :: "string list \<Rightarrow> string list" where
  "run_scenarios chosen = (if chosen = [] then SCENARIOS else chosen)"

text \<open>\<open>online\<close> is the crate's \<open>Capability::is_online\<close>.\<close>

definition run_started ::
    "'cap capability_api \<Rightarrow> ('cap \<Rightarrow> bool) \<Rightarrow> bool \<Rightarrow> string \<Rightarrow> string list \<Rightarrow> 'cap roster \<Rightarrow> stress \<Rightarrow> string list \<Rightarrow> run_record" where
  "run_started K online hidden cluster chosen R level real =
     (let names = roster_names R in
      \<lparr>ru_cluster = cluster, ru_tests = map test_name (run_scenarios chosen), ru_nodes = names,
       ru_roles = map (\<lambda>name. cap_entry K (roster_capability K R name) name) names,
       ru_online = filter (\<lambda>name. online (roster_capability K R name)) names, ru_stress = stress_name level,
       ru_hidden = hidden, ru_real = real\<rparr>)"

definition found_line :: "('r, 'cap) real_node list \<Rightarrow> string option" where
  "found_line real =
     (if real = [] then None
      else Some (''  real, each read where it answers '' @ em_dash @ '' on a machine of its own, or started here as ''
        @ ''xmip-service: '' @ join '', '' (map (\<lambda>node. rn_name node @ '' at '' @ rn_address node) real)
        @ ''; the rest simulated''))"

definition announced :: "node_api \<Rightarrow> 'cap capability_api \<Rightarrow> string \<Rightarrow> stress \<Rightarrow> 'cap roster \<Rightarrow> spread \<Rightarrow> string list" where
  "announced N K cluster level R S =
     [''roll at '' @ stress_name level @ '' as cluster '' @ cluster @ '': '' @ roster_describe N K R]
     @ (if \<not> roster_is_empty R then [''  roster: '' @ roster_text K R] else [])
     @ [''  parties, by the transports each sends in and is delivered to over: ''
        @ join '', '' (map (\<lambda>(place, one). pc_name one @ '' ('' @ decimal (length (spread_sends S place)) @ '' in, ''
            @ decimal (length (spread_receives S place)) @ '' out)'') (List.enumerate 0 (sp_parties S)))]"

section \<open>The board\<close>

definition health_word :: "health \<Rightarrow> string" where
  "health_word h = (case h of Fine \<Rightarrow> ''FINE'' | Paused \<Rightarrow> ''PAUSED'' | Working \<Rightarrow> ''WORKING'' | Stressed \<Rightarrow> ''STRESSED''
     | Exhausted \<Rightarrow> ''EXHAUSTED'' | Holding \<Rightarrow> ''HOLDING'' | Done \<Rightarrow> ''DONE'')"

definition board_pairs :: "observe_api \<Rightarrow> string \<Rightarrow> snapshot \<Rightarrow> health_record list" where
  "board_pairs O' node snap =
     sort_key hr_scope (filter (\<lambda>r. \<not> prefix (node @ ''/node/'') (hr_scope r) \<or> hr_health r \<noteq> Fine)
       (health_under O' snap node))"

definition pad_right :: "nat \<Rightarrow> string \<Rightarrow> string" where
  "pad_right w s = s @ replicate (w - length s) (CHR '' '')"

definition pad_left :: "nat \<Rightarrow> string \<Rightarrow> string" where
  "pad_left w s = replicate (w - length s) (CHR '' '') @ s"

definition board_line :: "string \<Rightarrow> health_record \<Rightarrow> string" where
  "board_line node r =
     (let leaf = (if prefix (node @ ''/'') (hr_scope r) then drop (length node + 1) (hr_scope r) else hr_scope r) in
      ''  '' @ pad_right 44 leaf @ '' '' @ pad_right 7 (health_word (hr_health r)) @ '' sev ''
        @ pad_left 3 (decimal (hr_severity r)) @ ''   '' @ hr_evidence r)"

definition board_redraw :: "observe_api \<Rightarrow> string \<Rightarrow> nat \<Rightarrow> snapshot \<Rightarrow> string list" where
  "board_redraw O' node round snap =
     [[CHR 0x1B] @ ''[2J'' @ [CHR 0x1B] @ ''[HXmip Essentials '' @ em_dash @ '' rolling every scenario   (round ''
        @ decimal round @ '')'', replicate 86 (CHR ''-'')]
     @ map (board_line node) (board_pairs O' node snap)
     @ [replicate 86 (CHR ''-''),
        ''  rollup at '' @ node @ '': '' @ health_word (case worst_under O' snap node of Some h \<Rightarrow> h | None \<Rightarrow> Fine),
        [], ''  ctrl-c to stop'']"

definition board_trouble :: "observe_api \<Rightarrow> string \<Rightarrow> snapshot \<Rightarrow> string" where
  "board_trouble O' node snap =
     (case find (\<lambda>r. hr_health r \<noteq> Fine) (board_pairs O' node snap) of
        None \<Rightarrow> []
      | Some r \<Rightarrow> ''  '' @ em_dash @ '' worst '' @ hr_scope r @ '': '' @ hr_evidence r)"

definition board_summarize :: "observe_api \<Rightarrow> string \<Rightarrow> nat \<Rightarrow> snapshot \<Rightarrow> string" where
  "board_summarize O' node round snap =
     ''round '' @ pad_left 4 (decimal round) @ '': ''
     @ (case worst_under O' snap node of None \<Rightarrow> ''NONE'' | Some h \<Rightarrow> health_word h)
     @ ''  ('' @ decimal (length (board_pairs O' node snap)) @ '' leaves)'' @ board_trouble O' node snap"

section \<open>The history and the files\<close>

text \<open>\<open>kinds\<close> is \<open>Counted::ALL\<close> and \<open>measured\<close> is \<open>Snapshot::measure\<close>; a history is the snapshots recorded
  in it.\<close>

definition curve_rollup ::
    "counted list \<Rightarrow> (snapshot \<Rightarrow> string \<Rightarrow> counted \<Rightarrow> count_record option) \<Rightarrow> string \<Rightarrow> snapshot \<Rightarrow> snapshot" where
  "curve_rollup kinds measured node snap = map RecordCount (List.map_filter (measured snap node) kinds)"

definition record_round ::
    "counted list \<Rightarrow> (snapshot \<Rightarrow> string \<Rightarrow> counted \<Rightarrow> count_record option) \<Rightarrow> string \<Rightarrow> snapshot \<Rightarrow> snapshot list \<Rightarrow> snapshot list" where
  "record_round kinds measured node snap history = history @ [snap, curve_rollup kinds measured node snap]"

record publishing =
  pg_snapshot :: string
  pg_history :: string
  pg_activity :: string

definition publishing_of :: "(string \<Rightarrow> string \<Rightarrow> string) \<Rightarrow> string \<Rightarrow> string \<Rightarrow> publishing" where
  "publishing_of join_path cluster area =
     (case publish_paths cluster of (snap, history, activity) \<Rightarrow>
        \<lparr>pg_snapshot = join_path area snap, pg_history = join_path area history, pg_activity = join_path area activity\<rparr>)"

text \<open>One file written over the last, or its failure audited; \<open>written\<close> is what became of the write.\<close>

definition publish_write ::
    "(string \<Rightarrow> string option) \<Rightarrow> string \<Rightarrow> bytes \<Rightarrow> string \<Rightarrow> (string, bytes) btree \<times> string list
       \<Rightarrow> (string, bytes) btree \<times> string list" where
  "publish_write written path contents what = (\<lambda>(files, audited).
     case written path of
       None \<Rightarrow> (btree_insert path contents files, audited)
     | Some e \<Rightarrow> (files, audited @ [''could not write the '' @ what @ '' to '' @ path @ '': '' @ e]))"

definition publish_round ::
    "(string \<Rightarrow> string option) \<Rightarrow> publishing \<Rightarrow> bytes \<Rightarrow> bytes \<Rightarrow> bytes \<Rightarrow> (string, bytes) btree \<times> string list
       \<Rightarrow> (string, bytes) btree \<times> string list" where
  "publish_round written P snap_text history_text activity_text FA =
     publish_write written (pg_activity P) activity_text ''activity''
       (publish_write written (pg_history P) history_text ''history''
         (publish_write written (pg_snapshot P) snap_text ''snapshot'' FA))"

section \<open>Whose RoundTrip it is\<close>

definition roll_relayed :: "node_api \<Rightarrow> 'cap capability_api \<Rightarrow> string list \<Rightarrow> 'cap roster \<Rightarrow> string + bool" where
  "roll_relayed N K chosen R =
     (if \<not> scenario_drives chosen ROUND_TRIP \<or> \<not> serves_any_stage K R then Inr False
      else (case refusal N K R of None \<Rightarrow> Inr True | Some e \<Rightarrow> Inl e))"

section \<open>What the board hides\<close>

lemma test_names_of_scenarios:
  "map test_name SCENARIOS = [''RoundTrip'', ''LowLatency'', ''HeavyLoad'', ''Retention'', ''Filing'', ''ExclusiveClaim'',
     ''DailyBacklog'']"
  by code_simp

lemma test_name_inj: "inj_on test_name (set SCENARIOS)"
  unfolding inj_on_def using test_names_of_scenarios by (auto simp: SCENARIOS_def)

text \<open>The board hides nothing that is not fine. What it shows is every record beneath the node, but a record
  of a node's own that is fine, in the order of their scopes; so its summary names trouble exactly
  where some record is not fine, and names the first of them in that order.\<close>

theorem board_hides_only_the_fine:
  "set (board_pairs O' node snap) = {r \<in> set (health_under O' snap node).
      \<not> (prefix (node @ ''/node/'') (hr_scope r) \<and> hr_health r = Fine)}
   \<and> sorted (map hr_scope (board_pairs O' node snap))
   \<and> (board_trouble O' node snap = [] \<longleftrightarrow> list_all (\<lambda>r. hr_health r = Fine) (health_under O' snap node))"
proof -
  have "board_trouble O' node snap = [] \<longleftrightarrow> (\<forall>r \<in> set (board_pairs O' node snap). hr_health r = Fine)"
    by (auto simp: board_trouble_def em_dash_def find_None_iff split: option.splits)
      (auto simp: find_Some_iff)
  also have "\<dots> \<longleftrightarrow> list_all (\<lambda>r. hr_health r = Fine) (health_under O' snap node)"
    by (auto simp: board_pairs_def list_all_iff)
  finally show ?thesis by (auto simp: board_pairs_def)
qed

text \<open>
  The summary says worst of the first record that is not fine in the order of the scopes, whatever the
  others are: a record that is done can stand behind one that is only working.
\<close>

lemma worst_is_the_first_by_scope:
  "board_trouble \<lparr>health_records = recorded, health_under = \<lambda>snap at. recorded snap, worst_under = \<lambda>snap at. Some Done,
       counted_at = \<lambda>st. Counted_Messages\<rparr> ''x''
     [RecordHealth \<lparr>hr_scope = ''x/b'', hr_health = Done, hr_severity = 90, hr_evidence = ''lost'', hr_observed = 0\<rparr>,
      RecordHealth \<lparr>hr_scope = ''x/a'', hr_health = Working, hr_severity = 20, hr_evidence = ''starting'', hr_observed = 0\<rparr>]
   = ''  '' @ em_dash @ '' worst x/a: starting''"
  by code_simp

end
