(* ===== verification/Cluster_Program.thy ===== *)
theory Cluster_Program
  imports Command_Lines Cluster
begin

text \<open>
  The cluster process (\<open>src/bin/cluster.rs\<close>): what it refuses at its door, the rounds it rolls and how
  it leaves. What a round meets, the instants of its tick, whether it was told to stop and what came
  of writing its file, is the argument of the round; the file it publishes is the view and the
  handoffs written to it last. The pauses between rounds, the declaration of the process and the
  records of its start and stop are not modelled.
\<close>

section \<open>Rounds\<close>

record cluster_round =
  ro_stop :: bool
  ro_times :: tick_times
  ro_error :: "string option"

record cluster_run =
  cn_cluster :: cluster
  cn_round :: nat
  cn_file :: "(snapshot \<times> hop list) option"
  cn_failures :: "string list"

definition cluster_run_init :: "cluster \<Rightarrow> cluster_run" where
  "cluster_run_init C = \<lparr>cn_cluster = C, cn_round = 0, cn_file = None, cn_failures = []\<rparr>"

text \<open>One round of the loop, where it was not told to stop: the view is published where it changed, and
  a write that failed is audited.\<close>

definition cluster_run_round :: "machine \<Rightarrow> watching \<Rightarrow> string \<Rightarrow> cluster_round \<Rightarrow> cluster_run \<Rightarrow> cluster_run" where
  "cluster_run_round M B path W S =
     (let C = cluster_tick M B (ro_times W) (cn_cluster S);
          S = S\<lparr>cn_round := cn_round S + 1, cn_cluster := C\<rparr> in
      if \<not> cu_changed C then S
      else (case ro_error W of
          None \<Rightarrow> S\<lparr>cn_file := Some (cu_view C, cluster_hops C)\<rparr>
        | Some e \<Rightarrow> S\<lparr>cn_failures := cn_failures S @ [''cluster '' @ wt_root B @ '': could not publish to '' @ path
            @ '': '' @ e]\<rparr>))"

text \<open>The loop over the rounds it meets: \<open>None\<close> while it still rolls when they run out.\<close>

fun cluster_loop :: "machine \<Rightarrow> watching \<Rightarrow> string \<Rightarrow> nat \<Rightarrow> cluster_round list \<Rightarrow> cluster_run \<Rightarrow> cluster_run option" where
  "cluster_loop M B path rounds Ws S =
     (if rounds \<noteq> 0 \<and> rounds \<le> cn_round S then Some S
      else (case Ws of
          [] \<Rightarrow> None
        | W # Ws \<Rightarrow> if ro_stop W then Some S else cluster_loop M B path rounds Ws (cluster_run_round M B path W S)))"

declare cluster_loop.simps [simp del]

section \<open>The program\<close>

datatype cluster_outcome =
    Cluster_Refused string
  | Cluster_Unstarted string
  | Cluster_Left cluster_run

text \<open>Where it is, and what it finds: the root and the name of its cluster, the executable of a node, and
  the instants at which it starts its nodes, looks at them as they leave and kills what remains.\<close>

record cluster_place =
  cp_name :: "string option"
  cp_binary :: "string + string"
  cp_started :: nat
  cp_looks :: "nat list"
  cp_killed :: nat

text \<open>What a refusal is audited as: \<open>Inl\<close>, in the words that follow the program's name.\<close>

definition cluster_orders ::
    "node_api \<Rightarrow> 'cap capability_api \<Rightarrow> cluster_place \<Rightarrow> string list \<Rightarrow> string + 'cap cluster_arguments \<times> 'cap orders" where
  "cluster_orders N K P args =
     and_then (cluster_parse K args) (\<lambda>a.
       if cp_name P \<noteq> Some (ca_name a)
       then Inl (''REFUSED: the scope root is XMIP_ESSENTIALS_CLUSTER and it says ''
         @ (case cp_name P of None \<Rightarrow> ''nothing'' | Some name \<Rightarrow> name) @ '', not '' @ ca_name a
         @ ''; a cluster is started by a roll, which sets it.'')
       else
         let O' = (orders_of (ca_stress a) (ca_nodes a) 0)\<lparr>or_scenarios := ca_scenarios a, or_online := ca_online a,
               or_cluster := ca_name a\<rparr> in
         (case orders_refusal N K O' of Some refused \<Rightarrow> Inl refused | None \<Rightarrow> Inr (a, O')))"

definition cluster_main ::
    "node_api \<Rightarrow> 'cap capability_api \<Rightarrow> machine \<Rightarrow> watching \<Rightarrow> cluster_place \<Rightarrow> string list \<Rightarrow> cluster_round list
       \<Rightarrow> cluster_outcome option" where
  "cluster_main N K M B P args Ws =
     (case cluster_orders N K P args of
        Inl refused \<Rightarrow> Some (Cluster_Refused refused)
      | Inr (a, O') \<Rightarrow>
          (case cp_binary P of
             Inl e \<Rightarrow> Some (Cluster_Refused (''REFUSED: '' @ e))
           | Inr binary \<Rightarrow>
               (case cluster_judged M (cp_started P) O' (ca_shared a @ ''/snapshots'') of
                  Inl e \<Rightarrow> Some (Cluster_Unstarted (''cluster '' @ wt_root B @ '': no nodes: '' @ e))
                | Inr C \<Rightarrow>
                    map_option (\<lambda>S. Cluster_Left (S\<lparr>cn_cluster := cluster_stop M (cp_looks P) (cp_killed P) (cn_cluster S)\<rparr>))
                      (cluster_loop M B (ca_snapshot a) (ca_rounds a) Ws (cluster_run_init C)))))"

section \<open>What is published is current\<close>

lemma read_hops: "\<not> mb_fresh (member_read M t m) \<Longrightarrow> mb_hops (member_read M t m) = mb_hops m"
  by (auto simp: member_read_def member_listen_def Let_def split: option.splits if_splits)

lemma reads_hops: "\<not> mb_fresh (fold (member_read M) ts m) \<Longrightarrow> mb_hops (fold (member_read M) ts m) = mb_hops m"
proof (induction ts arbitrary: m)
  case (Cons t ts)
  from Cons.prems reads_unfresh [of M ts "member_read M t m"] have "\<not> mb_fresh (member_read M t m)" by simp
  with Cons read_hops show ?case by simp
qed simp

lemma judge_hops: "mb_hops (judge_process M V t m) = mb_hops m"
  by (auto simp: judge_process_def Let_def member_kill_def member_restarted_def member_listen_def member_reap_def
      split: option.splits sum.splits)

lemma tick_member_hops:
  "\<not> mb_fresh (tick_member M V ts t m) \<Longrightarrow> mb_hops (tick_member M V ts t m) = mb_hops m"
  using reads_hops [of M ts "m\<lparr>mb_fresh := False\<rparr>"] by (simp add: tick_member_def judge_keeps judge_hops)

lemma unchanged_tick:
  assumes "\<not> cu_changed (cluster_tick M B T C)"
  shows "cu_view (cluster_tick M B T C) = cu_view C" "cluster_hops (cluster_tick M B T C) = cluster_hops C"
proof -
  show "cu_view (cluster_tick M B T C) = cu_view C" using assms by (auto simp: cluster_tick_def Let_def)
  from tick_members obtain k where nodes: "cu_nodes (cluster_tick M B T C) =
      map (tick_member M (wt_liveness B) (take k (tt_polls T)) (tt_judged T)) (cu_nodes C)" by blast
  moreover have "\<not> list_ex mb_fresh (cu_nodes (cluster_tick M B T C))"
    using assms by (auto simp: cluster_tick_def Let_def)
  ultimately show "cluster_hops (cluster_tick M B T C) = cluster_hops C"
    using tick_member_hops by (auto simp: cluster_hops_def list_ex_iff intro!: arg_cong [where f = concat])
qed

definition file_current :: "cluster_run \<Rightarrow> bool" where
  "file_current S \<longleftrightarrow> cn_file S = Some (cu_view (cn_cluster S), cluster_hops (cn_cluster S))"

lemma round_cluster: "cn_cluster (cluster_run_round M B path W S) = cluster_tick M B (ro_times W) (cn_cluster S)"
  by (simp add: cluster_run_round_def Let_def split: option.splits)

lemma round_file_current:
  assumes "ro_error W = None" and "file_current S \<or> cu_changed (cn_cluster (cluster_run_round M B path W S))"
  shows "file_current (cluster_run_round M B path W S)"
  using assms unchanged_tick [of M B "ro_times W" "cn_cluster S"]
  by (auto simp: file_current_def cluster_run_round_def Let_def)

lemma rounds_cluster:
  "cn_cluster (fold (cluster_run_round M B path) Ws S) = cluster_ticks M B (map ro_times Ws) (cn_cluster S)"
  by (induction Ws arbitrary: S) (simp_all add: cluster_ticks_def round_cluster)

lemma rounds_file_current:
  "file_current S \<Longrightarrow> list_all (\<lambda>W. ro_error W = None) Ws \<Longrightarrow> file_current (fold (cluster_run_round M B path) Ws S)"
  by (induction Ws arbitrary: S) (simp_all add: round_file_current)

lemma first_tick_changes:
  assumes "cu_said C = []" and "cu_nodes C \<noteq> []"
  shows "cu_changed (cluster_tick M B T C)"
proof -
  have "length (cu_nodes (cluster_tick M B T C)) = length (cu_nodes C)" using tick_members [of M B T C] by auto
  moreover have "says B now ms = [] \<longleftrightarrow> ms = []" for now ms by (simp add: says_def)
  ultimately show ?thesis using assms by (auto simp: cluster_tick_def Let_def)
qed

lemma rounds_published:
  assumes "cluster_judged M t O' snapshots = Inr C" and "orders_names O' \<noteq> []" and "Ws \<noteq> []"
    and "list_all (\<lambda>W. ro_error W = None) Ws"
    and "S = fold (cluster_run_round M B path) Ws (cluster_run_init C)"
  shows "\<exists>at. cn_file S = Some (assemble B at (cu_nodes (cn_cluster S)), cluster_hops (cn_cluster S))"
proof -
  obtain W Ws' where Ws: "Ws = W # Ws'" using assms(3) by (cases Ws) auto
  note start = judged_start [OF assms(1,2)]
  have "cu_changed (cn_cluster (cluster_run_round M B path W (cluster_run_init C)))"
    unfolding round_cluster using first_tick_changes [OF start] by (simp add: cluster_run_init_def)
  then have "file_current S"
    using assms(4) unfolding assms(5) Ws by (auto intro!: rounds_file_current round_file_current)
  moreover have "cn_cluster S = cluster_ticks M B (map ro_times Ws) C"
    by (simp add: assms(5) rounds_cluster cluster_run_init_def)
  moreover have "view_current B (cluster_ticks M B (map ro_times Ws) C)"
    using ticks_view_current [OF start] assms(3) by simp
  ultimately show ?thesis by (auto simp: file_current_def view_current_def)
qed

text \<open>What the cluster's file holds is the view as it is: where every write was kept, after every round the
  file is the view assembled from what every node published and every process's record, and the
  handoffs of every node, though a round that changed nothing wrote nothing.\<close>

theorem published_file_is_current:
  assumes "cluster_judged M t O' snapshots = Inr C" and "orders_names O' \<noteq> []" and "Ws \<noteq> []"
    and "list_all (\<lambda>W. ro_error W = None) Ws"
    and "S = fold (cluster_run_round M B path) Ws (cluster_run_init C)"
  shows "\<exists>at. cn_file S = Some (assemble B at (cu_nodes (cn_cluster S)), cluster_hops (cn_cluster S))"
  using assms by (rule rounds_published)

text \<open>A round in which nothing has to be said.\<close>

definition plain_round :: cluster_round where
  "plain_round = \<lparr>ro_stop = False, ro_times = example_times, ro_error = None\<rparr>"

theorem published_file_is_current_witness:
  "\<exists>C S at. cluster_judged example_machine 0 example_orders ''d'' = Inr C
     \<and> S = fold (cluster_run_round example_machine example_watching ''c'') [plain_round, plain_round] (cluster_run_init C)
     \<and> cn_file S = Some (assemble example_watching at (cu_nodes (cn_cluster S)), cluster_hops (cn_cluster S))"
proof -
  obtain C where C: "cluster_judged example_machine 0 example_orders ''d'' = Inr C" using example_cluster by blast
  have "orders_names example_orders \<noteq> []" by code_simp
  from published_file_is_current [OF C this, of "[plain_round, plain_round]" _ example_watching "''c''"] C
  show ?thesis by (auto simp: plain_round_def)
qed

lemma round_leaves_file:
  "\<not> cu_changed (cn_cluster (cluster_run_round M B path W S)) \<or> ro_error W \<noteq> None \<Longrightarrow>
     cn_file (cluster_run_round M B path W S) = cn_file S"
  unfolding round_cluster by (auto simp: cluster_run_round_def Let_def)

text \<open>
  A write that failed is not made again until the view changes: the audit says the round's failure, and
  where the rounds after it change nothing the file stays as it was, for as long as they do.
\<close>

lemma failed_write_is_not_repeated:
  assumes "ro_error W = Some e"
    and "\<And>k. k < length Ws \<Longrightarrow> \<not> cu_changed (cn_cluster (fold (cluster_run_round M B path) (take (Suc k) Ws)
      (cluster_run_round M B path W S)))"
  shows "cn_file (fold (cluster_run_round M B path) Ws (cluster_run_round M B path W S)) = cn_file S"
  using assms(2)
proof (induction Ws rule: rev_induct)
  case Nil
  show ?case using assms(1) by (simp add: round_leaves_file)
next
  case (snoc V Ws)
  let ?S = "fold (cluster_run_round M B path) Ws (cluster_run_round M B path W S)"
  have "cn_file ?S = cn_file S"
  proof (rule snoc.IH)
    fix k assume "k < length Ws"
    with snoc.prems [of k] show "\<not> cu_changed (cn_cluster (fold (cluster_run_round M B path) (take (Suc k) Ws)
      (cluster_run_round M B path W S)))" by simp
  qed
  moreover have "\<not> cu_changed (cn_cluster (cluster_run_round M B path V ?S))"
    using snoc.prems [of "length Ws"] by simp
  ultimately show ?case by (simp add: round_leaves_file)
qed

section \<open>However it ends, its nodes end with it\<close>

lemma stop_leaves_none: "list_all (\<lambda>m. \<not> mb_alive m) (cu_nodes (cluster_stop M looks t C))"
  by (auto simp: cluster_stop_def list_all_iff member_kill_def mb_alive_def split: option.splits)

lemma loop_rounds:
  "cluster_loop M B path rounds Ws S = Some S' \<Longrightarrow>
     \<exists>k \<le> length Ws. S' = fold (cluster_run_round M B path) (take k Ws) S
       \<and> list_all (\<lambda>W. \<not> ro_stop W) (take k Ws)
       \<and> (rounds \<noteq> 0 \<and> rounds \<le> cn_round S' \<or> k < length Ws \<and> ro_stop (Ws ! k))"
proof (induction Ws arbitrary: S)
  case Nil
  then show ?case by (subst (asm) cluster_loop.simps) (auto split: if_splits)
next
  case (Cons W Ws)
  show ?case
  proof (cases "rounds \<noteq> 0 \<and> rounds \<le> cn_round S \<or> ro_stop W")
    case True
    then show ?thesis
      using Cons.prems by (intro exI [of _ 0]) (auto simp: cluster_loop.simps [of _ _ _ _ "W # Ws"] split: if_splits)
  next
    case False
    with Cons.prems have "cluster_loop M B path rounds Ws (cluster_run_round M B path W S) = Some S'"
      by (subst (asm) cluster_loop.simps) (auto split: if_splits)
    from Cons.IH [OF this] obtain k where "k \<le> length Ws"
      "S' = fold (cluster_run_round M B path) (take k Ws) (cluster_run_round M B path W S)"
      "list_all (\<lambda>W. \<not> ro_stop W) (take k Ws)"
      "rounds \<noteq> 0 \<and> rounds \<le> cn_round S' \<or> k < length Ws \<and> ro_stop (Ws ! k)" by blast
    with False show ?thesis by (intro exI [of _ "Suc k"]) auto
  qed
qed

lemma loop_ends:
  assumes "list_ex ro_stop Ws \<or> rounds \<noteq> 0 \<and> rounds \<le> cn_round S + length Ws"
  shows "cluster_loop M B path rounds Ws S \<noteq> None"
  using assms
proof (induction Ws arbitrary: S)
  case Nil
  then show ?case by (subst cluster_loop.simps) auto
next
  case (Cons W Ws)
  have "cn_round (cluster_run_round M B path W S) = cn_round S + 1"
    by (simp add: cluster_run_round_def Let_def split: option.splits)
  then have "list_ex ro_stop Ws \<or> rounds \<noteq> 0 \<and> rounds \<le> cn_round (cluster_run_round M B path W S) + length Ws"
    if "\<not> ro_stop W" using that Cons.prems by auto
  with Cons.IH show ?case by (subst cluster_loop.simps) auto
qed

definition outcome_nodes :: "cluster_outcome \<Rightarrow> member list" where
  "outcome_nodes out =
     (case out of Cluster_Refused _ \<Rightarrow> [] | Cluster_Unstarted _ \<Rightarrow> [] | Cluster_Left S \<Rightarrow> cu_nodes (cn_cluster S))"


definition example_place :: cluster_place where
  "example_place =
     \<lparr>cp_name = Some ''C-1'', cp_binary = Inr ''node'', cp_started = 0, cp_looks = [1, 2], cp_killed = 3\<rparr>"


text \<open>
  The rounds it is given are counted whether they published or not: a cluster whose view never changes
  leaves after them with its file never written.
\<close>

lemma rounds_are_counted_unpublished:
  "cn_round (fold (cluster_run_round M B path) Ws S) = cn_round S + length Ws"
proof (induction Ws arbitrary: S)
  case (Cons W Ws)
  have "cn_round (cluster_run_round M B path W S) = cn_round S + 1"
    by (simp add: cluster_run_round_def Let_def split: option.splits)
  with Cons show ?case by simp
qed simp

end
