(* ===== verification/Spawned.thy ===== *)
theory Spawned
  imports Cluster_Program
begin

text \<open>
  The cluster process as the roll that spawned it holds it (\<open>src/cluster/spawned.rs\<close>): its file read
  within a grace each round, its exit reaped, and its stop. The machine is \<open>Cluster\<close>'s; the flags it
  is started with are in \<open>Command_Lines\<close>.
\<close>

section \<open>The process held\<close>

record spawned =
  sp_child :: "nat option"
  sp_path :: string
  sp_text :: string
  sp_published :: snapshot
  sp_hops :: "hop list"

definition SPAWNED_GRACE :: nat where
  "SPAWNED_GRACE = 2 * 1000000000"

definition spawned_start :: "nat \<Rightarrow> string \<Rightarrow> spawned" where
  "spawned_start child path =
     \<lparr>sp_child = Some child, sp_path = path, sp_text = [], sp_published = [], sp_hops = []\<rparr>"

definition sp_alive :: "spawned \<Rightarrow> bool" where
  "sp_alive S \<longleftrightarrow> sp_child S \<noteq> None"

definition spawned_reap :: "machine \<Rightarrow> nat \<Rightarrow> spawned \<Rightarrow> spawned" where
  "spawned_reap M t S =
     (case sp_child S of
        None \<Rightarrow> S
      | Some child \<Rightarrow> (case mc_exited M t child of None \<Rightarrow> S | Some _ \<Rightarrow> S\<lparr>sp_child := None\<rparr>))"

definition spawned_read :: "machine \<Rightarrow> nat \<Rightarrow> spawned \<Rightarrow> bool \<times> spawned" where
  "spawned_read M t S =
     (case mc_text M t (sp_path S) of
        None \<Rightarrow> (False, S)
      | Some said \<Rightarrow>
          if said = sp_text S then (False, S)
          else (case mc_publication M said of
              None \<Rightarrow> (False, S)
            | Some (snap, hops) \<Rightarrow> (True, S\<lparr>sp_published := snap, sp_hops := hops, sp_text := said\<rparr>)))"

text \<open>A round of the roll's half, over the instants it looks at the file.\<close>

fun spawned_tick :: "machine \<Rightarrow> nat \<Rightarrow> nat list \<Rightarrow> spawned \<Rightarrow> spawned" where
  "spawned_tick M started [] S = S"
| "spawned_tick M started (t # ts) S =
     (let (new, S) = spawned_read M t (spawned_reap M t S) in
      if new \<or> \<not> sp_alive S \<or> t - started > SPAWNED_GRACE then S else spawned_tick M started ts S)"

text \<open>\<open>stop\<close>: nothing where it is gone; otherwise it is reaped at the instants it is looked at, and killed
  where it stays.\<close>

fun spawned_wait :: "machine \<Rightarrow> nat list \<Rightarrow> spawned \<Rightarrow> spawned" where
  "spawned_wait M [] S = S"
| "spawned_wait M (t # ts) S = (if sp_alive S then spawned_wait M ts (spawned_reap M t S) else S)"

definition spawned_stop :: "machine \<Rightarrow> nat list \<Rightarrow> spawned \<Rightarrow> spawned" where
  "spawned_stop M looks S = (if \<not> sp_alive S then S else (spawned_wait M looks S)\<lparr>sp_child := None\<rparr>)"

section \<open>What the roll holds is what the cluster published\<close>

text \<open>What it holds was read from the text it remembers, if it read any.\<close>

definition spawned_holds :: "machine \<Rightarrow> spawned \<Rightarrow> bool" where
  "spawned_holds M S \<longleftrightarrow>
     sp_text S = [] \<and> sp_published S = [] \<and> sp_hops S = []
     \<or> mc_publication M (sp_text S) = Some (sp_published S, sp_hops S)"

lemma reap_holds: "spawned_holds M (spawned_reap M t S) \<longleftrightarrow> spawned_holds M S"
  and reap_path: "sp_path (spawned_reap M t S) = sp_path S"
  and reap_text: "sp_text (spawned_reap M t S) = sp_text S"
  by (auto simp: spawned_holds_def spawned_reap_def split: option.splits)

lemma read_holds: "spawned_holds M S \<Longrightarrow> spawned_holds M (snd (spawned_read M t S))"
  and read_path: "sp_path (snd (spawned_read M t S)) = sp_path S"
  by (auto simp: spawned_holds_def spawned_read_def split: option.splits)

lemma tick_holds: "spawned_holds M S \<Longrightarrow> spawned_holds M (spawned_tick M started ts S)"
proof (induction M started ts S rule: spawned_tick.induct)
  case (2 M started t ts S)
  obtain new S' where read: "spawned_read M t (spawned_reap M t S) = (new, S')" by (metis surj_pair)
  with 2(2) read_holds [of M "spawned_reap M t S" t] have "spawned_holds M S'" by (simp add: reap_holds)
  with 2(1) [OF read [symmetric] refl] read show ?case by (auto simp: Let_def)
qed simp

text \<open>Where the file holds one whole publication at every instant the roll looks, a tick leaves it held.\<close>

lemma read_says:
  assumes "mc_text M t (sp_path S) = Some said" and "mc_publication M said = Some (snap, hops)"
  shows "sp_text (snd (spawned_read M t S)) = said"
  using assms by (simp add: spawned_read_def)

lemma tick_text:
  assumes "mc_publication M said = Some (snap, hops)"
    and "list_all (\<lambda>t. mc_text M t (sp_path S) = Some said) ts" and "ts \<noteq> []"
  shows "sp_text (spawned_tick M started ts S) = said"
  using assms(2,3)
proof (induction ts arbitrary: S)
  case (Cons t ts)
  obtain new S' where read: "spawned_read M t (spawned_reap M t S) = (new, S')" by (metis surj_pair)
  have "mc_text M t (sp_path (spawned_reap M t S)) = Some said" using Cons.prems by (simp add: reap_path)
  from read_says [OF this assms(1)] read have S': "sp_text S' = said" by simp
  have "sp_path S' = sp_path S" using read_path [of M t "spawned_reap M t S"] by (simp add: read reap_path)
  with Cons.IH [of S'] Cons.prems S' show ?case by (cases "ts = []") (simp_all add: read)
qed simp

lemma tick_reads:
  assumes "ts \<noteq> []" and "list_all (\<lambda>t. mc_text M t (sp_path S) = Some said) ts"
    and "mc_publication M said = Some (snap, hops)" and "spawned_holds M S" and "said \<noteq> []"
  shows "sp_published (spawned_tick M started ts S) = snap \<and> sp_hops (spawned_tick M started ts S) = hops"
  using tick_text [OF assms(3,2,1), of started] tick_holds [OF assms(4), of started ts] assms(3,5)
  by (auto simp: spawned_holds_def)


text \<open>A cluster of one node that has not published, and the text its first round is published as.\<close>

definition one_node :: "stage list orders" where
  "one_node = orders_of Calm [(''a'', [Receive])] 0"

definition beating_member :: member where
  "beating_member = (member_started 0 ''a'' 7 ''d/a.xmip'')\<lparr>mb_beat := Some 5, mb_beat_text := ''beat''\<rparr>"

definition first_view :: snapshot where
  "first_view = assemble example_watching 0 [beating_member]"

definition watched_machine :: machine where
  "watched_machine = example_machine\<lparr>
     mc_starts := \<lambda>t name. Inr 7,
     mc_text := \<lambda>t path. Some (if path = ''c'' then ''view'' else ''beat''),
     mc_publication := \<lambda>said. if said = ''view'' then Some (first_view, []) else None\<rparr>"

definition watched_round :: cluster_round where
  "watched_round =
     \<lparr>ro_stop = False, ro_times = \<lparr>tt_started = 0, tt_polls = [5], tt_judged = 20, tt_now = 0\<rparr>, ro_error = None\<rparr>"

definition started_cluster :: cluster where
  "started_cluster = \<lparr>cu_nodes = [member_started 0 ''a'' 7 ''d/a.xmip''], cu_view = [], cu_said = [], cu_changed = False\<rparr>"

lemma started_cluster: "cluster_judged watched_machine 0 one_node ''d'' = Inr started_cluster"
  by (simp add: cluster_judged_def one_node_def orders_names_def orders_of_def roster_names_def watched_machine_def
      example_machine_def started_cluster_def)

lemma polled: "member_read watched_machine 5 (member_started 0 ''a'' 7 ''d/a.xmip'') = beating_member"
  "judge_process watched_machine OWNERS 20 beating_member = beating_member"
proof -
  have path: "beat_beside ''d/a.xmip'' \<noteq> ''c''" by code_simp
  then show "member_read watched_machine 5 (member_started 0 ''a'' 7 ''d/a.xmip'') = beating_member"
    by (simp add: member_read_def member_listen_def watched_machine_def example_machine_def member_started_def
        beating_member_def Let_def)
  show "judge_process watched_machine OWNERS 20 beating_member = beating_member"
    using path by (simp add: judge_process_def member_reap_def member_listen_def watched_machine_def example_machine_def
        member_started_def beating_member_def Let_def member_hung_def lv_hung_def OWNERS_def lv_silence_def)
qed

lemma unfresh: "(member_started 0 ''a'' 7 ''d/a.xmip'')\<lparr>mb_fresh := False\<rparr> = member_started 0 ''a'' 7 ''d/a.xmip''"
  by (simp add: member_started_def)

lemma first_round:
  "cn_file (cluster_run_round watched_machine example_watching ''c'' watched_round (cluster_run_init started_cluster))
     = Some (first_view, [])"
proof -
  have "cluster_tick watched_machine example_watching (ro_times watched_round) started_cluster
      = \<lparr>cu_nodes = [beating_member], cu_view = first_view, cu_said = says example_watching 0 [beating_member], cu_changed = True\<rparr>"
    by (simp add: cluster_tick_def Let_def watched_round_def started_cluster_def polled unfresh first_view_def)
      (simp add: says_def polled example_watching_def)
  then show ?thesis
    by (simp add: cluster_run_round_def cluster_run_init_def watched_round_def cluster_hops_def beating_member_def
        member_started_def)
qed


text \<open>Stopped, it is gone.\<close>

lemma stopped_is_gone: "\<not> sp_alive (spawned_stop M looks S)"
  by (simp add: spawned_stop_def sp_alive_def)

end
