(* ===== verification/Node_Program.thy ===== *)
theory Node_Program
  imports Command_Lines Relay Cluster
begin

text \<open>
  A node's process (\<open>src/bin/node.rs\<close>): what it declares and records of itself, the relays its roles
  serve, and the rounds it runs, each published before the beat that says it is done. The relays are
  \<open>Relay\<close>'s; the two tests over the shared directory, its Events and its Subscriptions are steps over
  the world they keep, the parameter \<open>Z\<close>. What the hub and the Subscriptions add to the snapshot is
  not modelled.
\<close>

section \<open>What a node says of itself\<close>

definition own_record :: "string \<Rightarrow> string \<Rightarrow> int \<Rightarrow> health_record" where
  "own_record scope why now =
     \<lparr>hr_scope = scope, hr_health = Fine, hr_severity = 0, hr_evidence = why, hr_observed = now\<rparr>"

text \<open>\<open>scope_of\<close> is \<open>observe::capability::scope\<close> and \<open>evidence_of\<close> the crate's \<open>Capability::evidence\<close>.\<close>

definition record_capability ::
    "'cap capability_text \<Rightarrow> (string \<Rightarrow> string) \<Rightarrow> ('cap \<Rightarrow> string) \<Rightarrow> int \<Rightarrow> string \<Rightarrow> 'cap node_arguments \<Rightarrow> snapshot" where
  "record_capability X scope_of evidence_of now node a =
     [RecordHealth (own_record (node @ ''/switch'') (ct_word X (na_capability a) @ ''; the estate's tests run offline'') now),
      RecordHealth (own_record (scope_of node) (evidence_of (na_capability a)) now)]"

definition node_says :: "'cap capability_text \<Rightarrow> 'cap node_arguments \<Rightarrow> (string \<times> string) list" where
  "node_says X a =
     [(''node'', na_name a), (''shared'', na_shared a), (''stress'', stress_name (na_stress a)),
      (''rounds'', decimal (na_rounds a)), (''snapshot'', na_snapshot a), (''interval_ms'', decimal (na_interval_ms a)),
      (''role'', ct_words X (na_capability a)), (''online'', if ct_is_online X (na_capability a) then ''true'' else ''false'')]"

section \<open>What it runs\<close>

text \<open>The roster as the node holds it: its own capability the last word on itself.\<close>

definition node_roster :: "'cap node_arguments \<Rightarrow> 'cap roster" where
  "node_roster a = roster_declared (na_name a) (na_capability a) (na_roster a)"

text \<open>Whether its Subscriptions start at all, and what starting them came to, the failure audited.\<close>

definition node_subscribing ::
    "node_api \<Rightarrow> 'cap capability_api \<Rightarrow> string + unit \<Rightarrow> 'cap node_arguments \<Rightarrow> bool \<times> string list" where
  "node_subscribing N K started a =
     (if \<not> scenario_drives (na_scenarios a) ROUND_TRIP \<or> \<not> cap_can K (na_capability a) Process
        \<or> refusal N K (node_roster a) \<noteq> None
      then (False, [])
      else (case started of Inr _ \<Rightarrow> (True, []) | Inl problem \<Rightarrow> (False, [problem])))"

text \<open>\<open>stages\<close> is the crate's \<open>Capability::stages\<close>.\<close>

definition node_relays ::
    "('id, 'facts, 'cap, 'sub, 'picked) surroundings \<Rightarrow> ('cap \<Rightarrow> stage list) \<Rightarrow> adapter list \<Rightarrow> string \<Rightarrow> bool
       \<Rightarrow> 'cap node_arguments \<Rightarrow> 'cap relay list" where
  "node_relays X stages all_ts node subscribing a =
     (if \<not> scenario_drives (na_scenarios a) ROUND_TRIP then []
      else List.map_filter (\<lambda>st. map_option (\<lambda>R. relay_subscribing subscribing (relay_at X (na_stress a) R))
          (relay_new X (na_name a) node st (node_roster a) all_ts)) (stages (na_capability a)))"

section \<open>Its rounds\<close>

datatype node_act =
    Publishes "snapshot \<times> hop list"
  | Publish_Fails string
  | Beats_Round

text \<open>The steps of a round that are other components': the shared claim and backlog where they are driven,
  the orders taken, the Events raised over the round's snapshot, the standing of the Subscriptions.\<close>

record 'w node_steps =
  ns_claim :: "('w \<Rightarrow> snapshot \<times> 'w) option"
  ns_backlog :: "('w \<Rightarrow> snapshot \<times> 'w) option"
  ns_orders :: "'w \<Rightarrow> 'w"
  ns_eventing :: "snapshot \<Rightarrow> 'w \<Rightarrow> 'w"
  ns_subscribing :: "('w \<Rightarrow> 'w) option"

record ('cap, 'sub, 'w) node_run =
  nr_relays :: "'cap relay list"
  nr_shared :: "'sub shared_world"
  nr_world :: 'w
  nr_round :: nat
  nr_acts :: "node_act list"

record node_round =
  rd_stop :: bool
  rd_now :: int
  rd_error :: "string option"

text \<open>The relays ticked one after another, each merged into the round's snapshot.\<close>

fun relays_tick ::
    "('id, 'facts, 'cap, 'sub, 'picked) surroundings \<Rightarrow> (snapshot \<Rightarrow> snapshot \<Rightarrow> snapshot) \<Rightarrow> int
       \<Rightarrow> 'cap relay list \<times> 'sub shared_world \<Rightarrow> snapshot \<Rightarrow> ('cap relay list \<times> 'sub shared_world) \<times> snapshot" where
  "relays_tick X merged now ([], W) snap = (([], W), snap)"
| "relays_tick X merged now (R # Rs, W) snap =
     (let ((R, W), ticked) = relay_tick X now (R, W);
          ((Rs, W), snap) = relays_tick X merged now (Rs, W) (merged snap ticked) in
      ((R # Rs, W), snap))"

definition optional_tick ::
    "(snapshot \<Rightarrow> snapshot \<Rightarrow> snapshot) \<Rightarrow> ('w \<Rightarrow> snapshot \<times> 'w) option \<Rightarrow> snapshot \<times> 'w \<Rightarrow> snapshot \<times> 'w" where
  "optional_tick merged tick = (\<lambda>(snap, w).
     case tick of None \<Rightarrow> (snap, w) | Some tick \<Rightarrow> (case tick w of (ticked, w) \<Rightarrow> (merged snap ticked, w)))"

definition node_run_round ::
    "('id, 'facts, 'cap, 'sub, 'picked) surroundings \<Rightarrow> (snapshot \<Rightarrow> snapshot \<Rightarrow> snapshot) \<Rightarrow> 'w node_steps
       \<Rightarrow> (int \<Rightarrow> snapshot) \<Rightarrow> string \<Rightarrow> string \<Rightarrow> node_round \<Rightarrow> ('cap, 'sub, 'w) node_run \<Rightarrow> ('cap, 'sub, 'w) node_run" where
  "node_run_round X merged Z own name path W S =
     (let ((Rs, shared), snap) = relays_tick X merged (rd_now W) (nr_relays S, nr_shared S) [];
          (snap, w) = optional_tick merged (ns_claim Z) (snap, nr_world S);
          (snap, w) = optional_tick merged (ns_backlog Z) (snap, w);
          snap = snap @ own (rd_now W);
          w = ns_eventing Z snap (ns_orders Z w);
          w = (case ns_subscribing Z of None \<Rightarrow> w | Some standing \<Rightarrow> standing w);
          hops = concat (map (\<lambda>R. map snd (rl_hops R)) Rs) in
      S\<lparr>nr_relays := Rs, nr_shared := shared, nr_world := w, nr_round := nr_round S + 1,
        nr_acts := nr_acts S @
          [(case rd_error W of None \<Rightarrow> Publishes (snap, hops)
            | Some e \<Rightarrow> Publish_Fails (''node '' @ name @ '': could not publish to '' @ path @ '': '' @ e)),
           Beats_Round]\<rparr>)"

text \<open>The loop over the rounds it meets: \<open>None\<close> while it still runs when they are out.\<close>

fun node_loop ::
    "(node_round \<Rightarrow> ('cap, 'sub, 'w) node_run \<Rightarrow> ('cap, 'sub, 'w) node_run) \<Rightarrow> nat \<Rightarrow> node_round list
       \<Rightarrow> ('cap, 'sub, 'w) node_run \<Rightarrow> ('cap, 'sub, 'w) node_run option" where
  "node_loop a_round rounds Ws S =
     (if rounds \<noteq> 0 \<and> rounds \<le> nr_round S then Some S
      else (case Ws of
          [] \<Rightarrow> None
        | W # Ws \<Rightarrow> if rd_stop W then Some S else node_loop a_round rounds Ws (a_round W S)))"

declare node_loop.simps [simp del]

section \<open>The program\<close>

text \<open>What a node's record of its start says.\<close>

definition node_started :: "'cap capability_text \<Rightarrow> string \<Rightarrow> 'cap node_arguments \<Rightarrow> (string \<times> string) list" where
  "node_started X node a =
     [(''node'', node), (''role'', ct_words X (na_capability a)), (''online'', ct_word X (na_capability a)),
      (''stress'', stress_name (na_stress a)), (''scenarios'', join '','' (na_scenarios a)),
      (''rounds'', decimal (na_rounds a)), (''shared'', na_shared a), (''snapshot'', na_snapshot a)]"

datatype ('cap, 'sub, 'w) node_outcome =
    Node_Refused string
  | Node_Left "('cap, 'sub, 'w) node_run"

text \<open>A node of no cluster is refused; \<open>cluster\<close> is the name of the one it is of.\<close>

definition refused_without_cluster :: "string option \<Rightarrow> string option" where
  "refused_without_cluster cluster =
     (case cluster of
        Some _ \<Rightarrow> None
      | None \<Rightarrow> Some (''REFUSED: a node is of a cluster, and none is named; the cluster ''
          @ ''that spawns it sets XMIP_ESSENTIALS_CLUSTER.''))"

text \<open>\<open>started\<close> is what starting its Subscriptions came to, \<open>Z\<close> the steps of the scenarios it drives and \<open>own\<close>
  what it records of itself, each from its arguments and its scope.\<close>

definition node_main ::
    "('id, 'facts, 'cap, 'sub, 'picked) surroundings \<Rightarrow> 'cap capability_text \<Rightarrow> ('cap \<Rightarrow> stage list) \<Rightarrow> adapter list
       \<Rightarrow> (snapshot \<Rightarrow> snapshot \<Rightarrow> snapshot) \<Rightarrow> (string \<Rightarrow> 'cap node_arguments \<Rightarrow> bool \<Rightarrow> 'w node_steps)
       \<Rightarrow> (string \<Rightarrow> 'cap node_arguments \<Rightarrow> int \<Rightarrow> snapshot) \<Rightarrow> (string \<Rightarrow> string + unit) \<Rightarrow> string option \<Rightarrow> 'sub shared_world \<Rightarrow> 'w
       \<Rightarrow> string list \<Rightarrow> node_round list \<Rightarrow> ('cap, 'sub, 'w) node_outcome option" where
  "node_main X T stages all_ts merged Z own started cluster shared w args Ws =
     (let K = su_capability X in
      case node_parse K T args of
        Inl problem \<Rightarrow> Some (Node_Refused (''node: '' @ problem))
      | Inr a \<Rightarrow>
          (case refused_without_cluster cluster of
             Some problem \<Rightarrow> Some (Node_Refused (''node: '' @ problem))
           | None \<Rightarrow>
               let node = ''xmip:///'' @ (case cluster of None \<Rightarrow> [] | Some name \<Rightarrow> name) @ ''/node/'' @ na_name a;
                   subscribing = fst (node_subscribing (es_node (su_estate X)) K (started node) a);
                   S = \<lparr>nr_relays = node_relays X stages all_ts node subscribing a, nr_shared = shared, nr_world = w,
                        nr_round = 0, nr_acts = []\<rparr> in
               map_option Node_Left
                 (node_loop (node_run_round X merged (Z node a subscribing) (own node a) (na_name a) (na_snapshot a))
                   (na_rounds a) Ws S)))"

text \<open>What it refuses it refuses before it has run a round, and of a node of a cluster the flags alone decide.\<close>

lemma node_main_refuses:
  "node_main X T stages all_ts merged Z own started (Some name) shared w args Ws = Some (Node_Refused e) \<longleftrightarrow>
     (\<exists>problem. node_parse (su_capability X) T args = Inl problem \<and> e = ''node: '' @ problem)"
  by (auto simp: node_main_def Let_def refused_without_cluster_def split: sum.splits)

section \<open>A beat says no round that was not published\<close>

definition publications :: "node_act list \<Rightarrow> (snapshot \<times> hop list) list" where
  "publications acts = concat (map (\<lambda>a. case a of Publishes p \<Rightarrow> [p] | _ \<Rightarrow> []) acts)"

definition beats_in :: "node_act list \<Rightarrow> nat" where
  "beats_in acts = length (filter (\<lambda>a. a = Beats_Round) acts)"

lemma publications_append [simp]: "publications (xs @ ys) = publications xs @ publications ys"
  by (simp add: publications_def)

lemma beats_append [simp]: "beats_in (xs @ ys) = beats_in xs + beats_in ys"
  by (simp add: beats_in_def)

lemma act_simps [simp]:
  "publications [] = []" "publications (Publishes p # as) = p # publications as"
  "publications (Publish_Fails e # as) = publications as" "publications (Beats_Round # as) = publications as"
  "beats_in [] = 0" "beats_in (Publishes p # as) = beats_in as" "beats_in (Publish_Fails e # as) = beats_in as"
  "beats_in (Beats_Round # as) = Suc (beats_in as)"
  by (simp_all add: publications_def beats_in_def)

text \<open>A node's acts, of rounds whose every write was kept: a publication and then its beat.\<close>

fun rounds_of :: "(snapshot \<times> hop list) list \<Rightarrow> node_act list" where
  "rounds_of [] = []"
| "rounds_of (p # ps) = Publishes p # Beats_Round # rounds_of ps"

lemma rounds_of_append: "rounds_of (ps @ qs) = rounds_of ps @ rounds_of qs"
  by (induction ps) simp_all

lemma publications_rounds_of: "publications (rounds_of ps) = ps"
  by (induction ps) simp_all

lemma rounds_of_prefix:
  "prefix acts (rounds_of ps) \<Longrightarrow>
     beats_in acts \<le> length (publications acts) \<and> length (publications acts) \<le> length ps
     \<and> publications acts = take (length (publications acts)) ps"
proof (induction ps arbitrary: acts)
  case (Cons p ps)
  show ?case
  proof (cases acts)
    case 1: (Cons a as)
    then have a: "a = Publishes p" "prefix as (Beats_Round # rounds_of ps)" using Cons.prems by auto
    show ?thesis
    proof (cases as)
      case 2: (Cons b bs)
      then have "b = Beats_Round" "prefix bs (rounds_of ps)" using a by auto
      with Cons.IH [of bs] a 1 2 show ?thesis by simp
    qed (simp add: 1 a)
  qed simp
qed simp

lemma round_acts:
  "rd_error W = None \<Longrightarrow> \<exists>p. nr_acts (node_run_round X merged Z own name path W S) = nr_acts S @ rounds_of [p]"
  by (simp add: node_run_round_def Let_def case_prod_beta)

lemma loop_acts:
  assumes "node_loop (node_run_round X merged Z own name path) rounds Ws S = Some S'"
    and "list_all (\<lambda>W. rd_error W = None) Ws" and "nr_acts S = rounds_of ps"
  shows "\<exists>qs. nr_acts S' = rounds_of (ps @ qs)"
  using assms
proof (induction Ws arbitrary: S ps)
  case Nil
  then show ?case by (subst (asm) node_loop.simps) (auto split: if_splits intro!: exI [of _ "[]"])
next
  case (Cons W Ws)
  show ?case
  proof (cases "rounds \<noteq> 0 \<and> rounds \<le> nr_round S \<or> rd_stop W")
    case True
    with Cons.prems show ?thesis
      by (subst (asm) node_loop.simps) (auto split: if_splits intro!: exI [of _ "[]"])
  next
    case False
    let ?S = "node_run_round X merged Z own name path W S"
    from False Cons.prems have rest: "node_loop (node_run_round X merged Z own name path) rounds Ws ?S = Some S'"
      by (subst (asm) node_loop.simps) (auto split: if_splits)
    have "rd_error W = None" using Cons.prems(2) by simp
    from round_acts [OF this] obtain p where "nr_acts ?S = nr_acts S @ rounds_of [p]" by blast
    then have "nr_acts ?S = rounds_of (ps @ [p])" using Cons.prems(3) by (simp add: rounds_of_append)
    from Cons.IH [OF rest _ this] Cons.prems(2) show ?thesis by auto
  qed
qed

section \<open>What the cluster has read is at least the round it counts\<close>

text \<open>
  What a machine shows of a node whose acts by the instant \<open>t\<close> are \<open>done t\<close>: its file is the publication it
  made last, which reads back as it was, and its beat says no more rounds than it had beaten for.
\<close>

definition shows_node :: "machine \<Rightarrow> (snapshot \<times> hop list \<Rightarrow> string) \<Rightarrow> string \<Rightarrow> node_act list \<Rightarrow> (nat \<Rightarrow> node_act list) \<Rightarrow> bool" where
  "shows_node M written path acts acted \<longleftrightarrow>
     (\<forall>t. prefix (acted t) acts) \<and> (\<forall>s t. s \<le> t \<longrightarrow> prefix (acted s) (acted t))
     \<and> (\<forall>p \<in> set (publications acts). mc_publication M (written p) = Some p)
     \<and> (\<forall>t. mc_text M t path =
          (if publications (acted t) = [] then None else Some (written (last (publications (acted t))))))
     \<and> (\<forall>t said rounds. mc_text M t (beat_beside path) = Some said \<and> mc_beat_rounds M said = Some rounds \<longrightarrow>
          rounds \<le> beats_in (acted t))"

text \<open>What holds of the node in the cluster by the instant \<open>t\<close>, where it was never restarted: the rounds it is
  known by are published, and what was read of it is a publication no older than the round it was
  read at.\<close>

definition read_through :: "(snapshot \<times> hop list) list \<Rightarrow> (nat \<Rightarrow> node_act list) \<Rightarrow> nat \<Rightarrow> member \<Rightarrow> bool" where
  "read_through ps acted t m \<longleftrightarrow> mb_restarts m = 0 \<longrightarrow>
     mb_rounds m \<le> length (publications (acted t))
     \<and> (\<forall>r. mb_read_at m = Some r \<longrightarrow>
          (\<exists>j. 0 < j \<and> r \<le> j \<and> j \<le> length ps \<and> (mb_published m, mb_hops m) = ps ! (j - 1)))"

lemma read_through_later:
  assumes "read_through ps acted s m" and "prefix (acted s) (acted t)"
  shows "read_through ps acted t m"
proof -
  have "length (publications (acted s)) \<le> length (publications (acted t))" using assms(2) by (auto simp: prefix_def)
  with assms(1) show ?thesis by (auto simp: read_through_def)
qed

lemma listen_rounds:
  assumes "shows_node M written path (rounds_of ps) acted" and "mb_path m = path" and "read_through ps acted t m"
  shows "read_through ps acted t (member_listen M t m)"
proof -
  have "beats_in (acted t) \<le> length (publications (acted t))"
    using assms(1) rounds_of_prefix [of "acted t" ps] by (auto simp: shows_node_def)
  then have said: "rounds \<le> length (publications (acted t))"
    if "mc_text M t (beat_beside path) = Some said" "mc_beat_rounds M said = Some rounds" for said rounds
    using assms(1) that unfolding shows_node_def by (meson le_trans)
  have "mb_hops (member_listen M t m) = mb_hops m"
    by (simp add: member_listen_def Let_def split: option.splits)
  moreover have "mb_rounds (member_listen M t m) \<le> length (publications (acted t)) \<or> mb_rounds (member_listen M t m) = mb_rounds m"
    using said assms(2) by (auto simp: member_listen_def Let_def split: option.splits)
  ultimately show ?thesis using assms(3) by (auto simp: read_through_def listen_keeps)
qed

lemma read_rounds:
  assumes "shows_node M written path (rounds_of ps) acted" and "mb_path m = path" and "read_through ps acted t m"
  shows "read_through ps acted t (member_read M t m)"
proof -
  note heard = listen_rounds [OF assms]
  let ?ms = "publications (acted t)"
  have acted: "prefix (acted t) (rounds_of ps)" using assms(1) by (simp add: shows_node_def)
  note pubs = rounds_of_prefix [OF acted]
  show ?thesis
  proof (cases "mb_rounds (member_listen M t m) = 0 \<or> mb_read_at (member_listen M t m) = Some (mb_rounds (member_listen M t m))
      \<or> ?ms = []")
    case True
    moreover have "mc_text M t path = None" if "?ms = []" using assms(1) that by (simp add: shows_node_def)
    ultimately have "member_read M t m = member_listen M t m"
      using assms(2) by (auto simp: member_read_def Let_def listen_keeps)
    with heard show ?thesis by simp
  next
    case False
    have last: "last ?ms = ps ! (length ?ms - 1)" "length ?ms \<le> length ps" "last ?ms \<in> set ps"
      using pubs False by (metis last_conv_nth nth_take diff_less length_greater_0_conv zero_less_one,
        simp, metis in_set_takeD last_in_set)
    then have "mc_publication M (written (last ?ms)) = Some (last ?ms)"
      using assms(1) by (simp add: shows_node_def publications_rounds_of)
    moreover have "mc_text M t path = Some (written (last ?ms))" using assms(1) False by (simp add: shows_node_def)
    ultimately have "member_read M t m = (member_listen M t m)\<lparr>mb_published := fst (last ?ms), mb_hops := snd (last ?ms),
        mb_read_at := Some (mb_rounds (member_listen M t m)), mb_parses := mb_parses (member_listen M t m) + 1, mb_fresh := True\<rparr>"
      using False assms(2) by (simp add: member_read_def Let_def listen_keeps split: prod.splits)
    then show ?thesis
      using heard last False by (auto simp: read_through_def intro!: exI [of _ "length ?ms"])
  qed
qed

lemma reads_through:
  assumes "shows_node M written path (rounds_of ps) acted"
  shows "mb_path m = path \<Longrightarrow> read_through ps acted s m \<Longrightarrow> sorted (s # ts) \<Longrightarrow>
    read_through ps acted (last (s # ts)) (fold (member_read M) ts m)"
proof (induction ts arbitrary: s m)
  case (Cons t ts)
  have "prefix (acted s) (acted t)" using assms Cons.prems(3) by (simp add: shows_node_def)
  with Cons.prems(2) have "read_through ps acted t m" by (rule read_through_later)
  from Cons.IH [of "member_read M t m" t] read_rounds [OF assms Cons.prems(1) this] Cons.prems show ?case
    by (simp add: read_keeps)
qed simp

lemma judge_through:
  assumes "shows_node M written path (rounds_of ps) acted" and "mb_path m = path" and "read_through ps acted t m"
  shows "read_through ps acted t (judge_process M V t m)"
proof -
  have "read_through ps acted t (member_reap M t m)"
    using assms(3) by (auto simp: read_through_def member_reap_def split: option.splits)
  then have "read_through ps acted t (member_listen M t (member_reap M t m))"
    using listen_rounds [OF assms(1)] assms(2) by (simp add: reap_keeps)
  then show ?thesis
    by (auto simp: judge_process_def Let_def read_through_def member_kill_def member_restarted_def
        split: option.splits sum.splits)
qed

lemma sorted_last:
  assumes "sorted (s # polls @ [t])"
  shows "sorted (s # polls)" and "last (s # polls) \<le> (t::nat)"
proof -
  from assms have "sorted ((s # polls) @ [t])" by simp
  then show "sorted (s # polls)" and "last (s # polls) \<le> t" unfolding sorted_append by simp_all
qed

lemma tick_through:
  assumes "shows_node M written path (rounds_of ps) acted" and "mb_path m = path" and "read_through ps acted s m"
    and "sorted (s # polls @ [t])"
  shows "read_through ps acted t (tick_member M V polls t m)"
proof -
  let ?m = "fold (member_read M) polls (m\<lparr>mb_fresh := False\<rparr>)"
  have "read_through ps acted s (m\<lparr>mb_fresh := False\<rparr>)" using assms(3) by (simp add: read_through_def)
  moreover note in_order = sorted_last [OF assms(4)]
  ultimately have "read_through ps acted (last (s # polls)) ?m"
    using assms(2) by (intro reads_through [OF assms(1)]) simp_all
  moreover have "prefix (acted (last (s # polls))) (acted t)"
    using assms(1) in_order(2) unfolding shows_node_def by blast
  ultimately have "read_through ps acted t ?m" by (rule read_through_later)
  moreover have "mb_path ?m = path" using assms(2) by (simp add: reads_keep)
  ultimately show ?thesis unfolding tick_member_def by (intro judge_through [OF assms(1)])
qed

lemma ticks_through:
  assumes "shows_node M written path (rounds_of ps) acted"
  shows "mb_path m = path \<Longrightarrow> read_through ps acted s m \<Longrightarrow> sorted (s # concat (map (\<lambda>(polls, t). polls @ [t]) Ts)) \<Longrightarrow>
    \<exists>t. read_through ps acted t (fold (\<lambda>(polls, t). tick_member M V polls t) Ts m)"
proof (induction Ts arbitrary: s m)
  case (Cons T Ts)
  obtain polls t where T: "T = (polls, t)" by (cases T)
  define later where "later = concat (map (\<lambda>(polls, t). polls @ [t]) Ts)"
  have "sorted ((s # polls @ [t]) @ later)" using Cons.prems(3) by (simp add: T later_def)
  then have "sorted (s # polls @ [t])" "sorted (t # concat (map (\<lambda>(polls, t). polls @ [t]) Ts))"
    unfolding sorted_append by (simp_all add: later_def)
  with tick_through [OF assms Cons.prems(1,2), of polls t V] Cons.IH [of "tick_member M V polls t m" t] Cons.prems(1)
  show ?case by (simp add: tick_member_keeps T)
qed auto


definition plain_steps :: "unit node_steps" where
  "plain_steps = \<lparr>ns_claim = None, ns_backlog = None, ns_orders = id, ns_eventing = \<lambda>snap w. w, ns_subscribing = None\<rparr>"

definition example_run :: "(stage list, unit, unit) node_run" where
  "example_run = \<lparr>nr_relays = [], nr_shared = example_world, nr_world = (), nr_round = 0, nr_acts = []\<rparr>"

definition example_acts :: "node_act list" where
  "example_acts = rounds_of [([RecordHealth (own_record ''n'' ''up'' 0)], [])]"

definition example_node_machine :: machine where
  "example_node_machine = example_machine\<lparr>mc_text := \<lambda>t path. Some ''x'', mc_beat_rounds := \<lambda>said. Some 1,
     mc_publication := \<lambda>said. Some ([RecordHealth (own_record ''n'' ''up'' 0)], [])\<rparr>"


end
