(* ===== verification/Roll.thy ===== *)
theory Roll
  imports In_Process Run_Nodes Boards Spawned Node_Program Topology Drop_Box
begin

text \<open>
  The roll (\<open>src/bin/roll.rs\<close>): where it is, the cluster process it spawns, its rounds and how it leaves.
  A round is the scenarios of \<open>In_Process\<close>, what the cluster process and the real nodes published,
  the topology drawn of both, the files carried and dropped, the history and the files published. What
  a round meets, the instants, how its writes went and whether its time is up, is its argument; the
  texts of the files are the observe crate's. The headroom it prints, the console and the declaration
  of the process are not modelled.
\<close>

section \<open>Where it is\<close>

definition the_cluster_name :: "environment \<Rightarrow> string option" where
  "the_cluster_name env =
     (case map_option trim (env ''XMIP_ESSENTIALS_CLUSTER'') of
        Some name \<Rightarrow> if name = [] then None else Some name
      | None \<Rightarrow> None)"

definition the_cluster_root :: "environment \<Rightarrow> string" where
  "the_cluster_root env = ''xmip:///'' @ (case the_cluster_name env of None \<Rightarrow> [] | Some name \<Rightarrow> name)"

definition this_cluster :: "environment \<Rightarrow> string \<Rightarrow> string + string \<times> string \<times> string" where
  "this_cluster env temp =
     (case the_cluster_name env of
        None \<Rightarrow> Inl (''REFUSED: a roll is a cluster and the owner names it; set XMIP_ESSENTIALS_CLUSTER ''
          @ ''(Start-XmipTest -Cluster <name>). A test spawns nodes, never a cluster.'')
      | Some cluster \<Rightarrow> Inr (cluster, the_cluster_root env, temp @ ''/essentials/'' @ cluster))"

text \<open>The names the environment gives a roll as paths: none where it is unset or empty.\<close>

definition environment_set :: "environment \<Rightarrow> string \<Rightarrow> string option" where
  "environment_set env name = (case env name of Some v \<Rightarrow> if v = [] then None else Some v | None \<Rightarrow> None)"

definition environment_service :: "environment \<Rightarrow> string option" where
  "environment_service env = environment_set env ''XMIP_ESSENTIALS_SERVICE''"

definition environment_certificate :: "environment \<Rightarrow> string option" where
  "environment_certificate env = environment_set env ''XMIP_ESSENTIALS_CERTIFICATE''"

definition image_directory :: "environment \<Rightarrow> string option" where
  "image_directory env = environment_set env ''XMIP_ESSENTIALS_IMAGES''"

definition publish_area :: "environment \<Rightarrow> string \<Rightarrow> string" where
  "publish_area env temp = (case environment_set env ''XMIP_ESSENTIALS_AREA'' of None \<Rightarrow> temp | Some area \<Rightarrow> area)"

definition environment_hidden :: "environment \<Rightarrow> bool" where
  "environment_hidden env \<longleftrightarrow> (case env ''XMIP_ESSENTIALS_HIDDEN'' of None \<Rightarrow> False | Some said \<Rightarrow> trim said = ''true'')"

text \<open>The cluster's file: \<open>read\<close> is its text, or why it cannot be read.\<close>

definition cluster_file :: "environment \<Rightarrow> (string \<Rightarrow> string + string) \<Rightarrow> string + string \<times> string" where
  "cluster_file env read =
     (case environment_set env ''XMIP_TEST_CLUSTER'' of
        None \<Rightarrow> Inl (''REFUSED: a roll spawns the nodes of a cluster's cluster.xmip; XMIP_TEST_CLUSTER names none.'')
      | Some file \<Rightarrow>
          (case read file of
             Inl e \<Rightarrow> Inl (''REFUSED: the cluster file '' @ file @ '': '' @ e)
           | Inr text \<Rightarrow> Inr (file, text)))"

section \<open>The cluster process\<close>

text \<open>\<open>binary\<close> is the executable found, \<open>child\<close> what starting it came to; a failure is audited.\<close>

definition spawn_cluster :: "string + string \<Rightarrow> (string \<Rightarrow> string + nat) \<Rightarrow> 'cap orders \<Rightarrow> string \<Rightarrow> spawned option \<times> string list" where
  "spawn_cluster binary child O' path =
     (if roster_is_empty (or_roster O') then (None, [])
      else (case and_then binary child of
          Inr process \<Rightarrow> (Some (spawned_start process path), [])
        | Inl e \<Rightarrow> (None, [''no cluster: '' @ e])))"

text \<open>What a run is said to have started with.\<close>

definition roll_says :: "run_record \<Rightarrow> parties \<Rightarrow> nat option \<Rightarrow> string \<Rightarrow> (string \<times> string) list" where
  "roll_says run ps limit path =
     [(''cluster'', ru_cluster run), (''stress'', ru_stress run), (''tests'', join '','' (ru_tests run)),
      (''nodes'', join '','' (ru_roles run)), (''online'', join '','' (ru_online run)), (''real'', join '','' (ru_real run)),
      (''parties'', join '','' (party_names ps)),
      (''rounds'', case limit of None \<Rightarrow> ''until stopped'' | Some n \<Rightarrow> decimal n), (''snapshot'', path)]"

section \<open>A round\<close>

text \<open>What is around a roll as it runs. \<open>rp_rate_since\<close> is \<open>Topology::rate_since\<close>; \<open>rp_kinds\<close> and
  \<open>rp_measured\<close> are \<open>Boards\<close>'.\<close>

record ('id, 'facts, 'f, 'i, 'r, 'cap) roll_place =
  rp_in :: "('id, 'facts) in_surroundings"
  rp_machine :: machine
  rp_reach :: "('i, 'r, 'cap) reach"
  rp_real :: "('r, 'cap) real_node list"
  rp_root :: string
  rp_draw :: "'f draw_api"
  rp_rate_since :: "'f topology \<Rightarrow> 'f topology \<Rightarrow> 'f topology"
  rp_capability :: "'cap capability_api"
  rp_roster :: "'cap roster"
  rp_relayed :: bool
  rp_spread :: spread
  rp_kinds :: "counted list"
  rp_measured :: "snapshot \<Rightarrow> string \<Rightarrow> counted \<Rightarrow> count_record option"
  rp_far_ends :: far_ends
  rp_shows :: "nat \<Rightarrow> string"
  rp_publishing :: publishing
  rp_snapshot_text :: "snapshot \<Rightarrow> 'f topology option \<Rightarrow> bytes"
  rp_history_text :: "snapshot list \<Rightarrow> bytes"
  rp_activity_text :: "item list \<Rightarrow> bytes"

record ('s, 'f) roll =
  rr_round :: nat
  rr_world :: "'s in_world"
  rr_spawned :: "spawned option"
  rr_carried :: "carried_run option"
  rr_dropping :: "dropping option"
  rr_drop_box :: drop_box
  rr_drawn :: "'f topology option"
  rr_history :: "snapshot list"
  rr_files :: "(string, bytes) btree"
  rr_failures :: "string list"

text \<open>What a round meets: \<open>rm_told\<close> is what arrived since the round before.\<close>

record roll_round =
  rm_in :: in_round
  rm_simulated :: nat
  rm_started :: nat
  rm_looks :: "nat list"
  rm_now :: int
  rm_told :: "arrivals \<Rightarrow> arrivals"
  rm_refuses :: "string \<Rightarrow> string \<Rightarrow> string option"
  rm_at :: nat
  rm_judged :: nat
  rm_written :: "string \<Rightarrow> string option"
  rm_expired :: bool

definition roll_drawn ::
    "('id, 'facts, 'f, 'i, 'r, 'cap) roll_place \<Rightarrow> int \<Rightarrow> snapshot \<Rightarrow> spawned option \<Rightarrow> 'f topology option \<Rightarrow> 'f topology option" where
  "roll_drawn P now snap spawned before =
     (if spawned = None \<and> rp_real P = [] then None
      else
        let hops = (case spawned of None \<Rightarrow> [] | Some S \<Rightarrow> sp_hops S);
            handed = (rp_relayed P \<and> spawned \<noteq> None);
            E = is_estate (rp_in P);
            drawn = cluster_topology (es_node E) (es_observe E) (rp_draw P) (rp_capability P) (rp_root P) snap (rp_roster P)
              handed hops (rp_spread P) now in
        Some (case before of None \<Rightarrow> drawn | Some T \<Rightarrow> rp_rate_since P drawn T))"

text \<open>The scenarios and what the cluster process and the real nodes published.\<close>

definition roll_gather ::
    "('id, 'facts, 'f, 'i, 'r, 'cap) roll_place \<Rightarrow> roll_round \<Rightarrow> ('s, 'f) roll \<Rightarrow> ('s, 'f) roll \<times> snapshot" where
  "roll_gather P W S =
     (let (world, snap) = in_process_tick (rp_in P) (rm_in W) (rm_simulated W) (rr_world S);
          spawned = map_option (spawned_tick (rp_machine P) (rm_started W) (rm_looks W)) (rr_spawned S);
          snap = (case spawned of None \<Rightarrow> snap | Some C \<Rightarrow> in_merge (rp_in P) snap (sp_published C)) in
      (S\<lparr>rr_world := world, rr_spawned := spawned\<rparr>,
       all_published_into (rp_reach P) (es_observe (is_estate (rp_in P))) (is_counts (rp_in P)) (rp_root P) (rm_now W)
         (rp_real P) snap))"

definition roll_carry ::
    "('id, 'facts, 'f, 'i, 'r, 'cap) roll_place \<Rightarrow> roll_round \<Rightarrow> ('s, 'f) roll \<times> snapshot \<Rightarrow> ('s, 'f) roll \<times> snapshot" where
  "roll_carry P W = (\<lambda>(S, snap).
     case rr_carried S of
       None \<Rightarrow> (S, snap)
     | Some C \<Rightarrow>
         (case carried_round (rp_shows P) (rm_refuses W) (rp_root P) (rm_at W) (rm_judged W) (rm_now W)
             (C\<lparr>cd_arrived := rm_told W (cd_arrived C)\<rparr>) of
           (C, record) \<Rightarrow> (S\<lparr>rr_carried := Some C\<rparr>, snap @ [RecordHealth record])))"

definition roll_drop ::
    "('id, 'facts, 'f, 'i, 'r, 'cap) roll_place \<Rightarrow> roll_round \<Rightarrow> ('s, 'f) roll \<times> snapshot \<Rightarrow> ('s, 'f) roll \<times> snapshot" where
  "roll_drop P W = (\<lambda>(S, snap).
     case rr_dropping S of
       None \<Rightarrow> (S, snap)
     | Some D \<Rightarrow>
         (case dropping_round (rp_far_ends P) (rp_root P) (es_parties (is_estate (rp_in P))) (rm_at W) (rm_now W)
             (D, rr_drop_box S) of
           ((D, records), B) \<Rightarrow> (S\<lparr>rr_dropping := Some D, rr_drop_box := B\<rparr>, snap @ records)))"

definition roll_publish ::
    "('id, 'facts, 'f, 'i, 'r, 'cap) roll_place \<Rightarrow> roll_round \<Rightarrow> ('s, 'f) roll \<times> snapshot \<Rightarrow> ('s, 'f) roll" where
  "roll_publish P W = (\<lambda>(S, snap).
     let history = record_round (rp_kinds P) (rp_measured P) (rp_root P) snap (rr_history S);
         (files, failures) = publish_round (rm_written W) (rp_publishing P) (rp_snapshot_text P snap (rr_drawn S))
           (rp_history_text P history) (rp_activity_text P (lg_activity (sc_ledger (ip_round_trip (fst (rr_world S))))))
           (rr_files S, rr_failures S) in
     S\<lparr>rr_history := history, rr_files := files, rr_failures := failures\<rparr>)"

text \<open>A round, and the snapshot it published.\<close>

definition roll_round_snapshot ::
    "('id, 'facts, 'f, 'i, 'r, 'cap) roll_place \<Rightarrow> roll_round \<Rightarrow> ('s, 'f) roll \<Rightarrow> ('s, 'f) roll \<times> snapshot" where
  "roll_round_snapshot P W S =
     (let (S, snap) = roll_gather P W (S\<lparr>rr_round := rr_round S + 1\<rparr>);
          S = S\<lparr>rr_drawn := roll_drawn P (rm_now W) snap (rr_spawned S) (rr_drawn S)\<rparr> in
      roll_drop P W (roll_carry P W (S, snap)))"

definition roll_run_round ::
    "('id, 'facts, 'f, 'i, 'r, 'cap) roll_place \<Rightarrow> roll_round \<Rightarrow> ('s, 'f) roll \<Rightarrow> ('s, 'f) roll" where
  "roll_run_round P W S = roll_publish P W (roll_round_snapshot P W S)"

text \<open>The loop over the rounds it meets, one at least: \<open>None\<close> while it still rolls when they are out.\<close>

fun roll_loop ::
    "('id, 'facts, 'f, 'i, 'r, 'cap) roll_place \<Rightarrow> nat option \<Rightarrow> roll_round list \<Rightarrow> ('s, 'f) roll \<Rightarrow> ('s, 'f) roll option" where
  "roll_loop P limit [] S = None"
| "roll_loop P limit (W # Ws) S =
     (let S = roll_run_round P W S in
      if (case limit of None \<Rightarrow> False | Some n \<Rightarrow> n \<le> rr_round S) \<or> rm_expired W then Some S
      else roll_loop P limit Ws S)"

section \<open>Leaving\<close>

datatype leaving =
    Stops_Cluster
  | Settles
  | Serving serving_act
  | Removes_Directory string
  | Removes_File string
  | Clears_Images
  | Says_Stop "(string \<times> string) list"

definition roll_leave ::
    "string \<Rightarrow> (string \<Rightarrow> bool) \<Rightarrow> started list option \<Rightarrow> string \<times> string \<Rightarrow> ('s, 'f) roll \<Rightarrow> leaving list" where
  "roll_leave cluster drains served = (\<lambda>(base, path) S.
     (if rr_spawned S \<noteq> None then [Stops_Cluster] else [])
     @ (if rr_carried S \<noteq> None then [Settles] else [])
     @ (case served of None \<Rightarrow> [] | Some started \<Rightarrow> map Serving (served_stop drains started))
     @ [Removes_Directory base, Removes_File path, Clears_Images,
        Says_Stop [(''cluster'', cluster), (''rounds'', decimal (rr_round S)),
          (''drop-box'', case rr_dropping S of None \<Rightarrow> [] | Some D \<Rightarrow> dropping_words D),
          (''carried'', case rr_carried S of None \<Rightarrow> [] | Some C \<Rightarrow> carried_words C)]])"

text \<open>Every image gone but those a process still runs.\<close>

definition image_clear :: "string option \<Rightarrow> (string \<Rightarrow> bool) \<Rightarrow> dir \<Rightarrow> dir" where
  "image_clear images running d = (case images of None \<Rightarrow> d | Some _ \<Rightarrow> filter (\<lambda>(name, _). running name) d)"

section \<open>The program\<close>

datatype ('s, 'f) roll_outcome =
    Roll_Answers string
  | Roll_Refused string
  | Roll_Left "('s, 'f) roll" "leaving list"

text \<open>What it refuses, in order: its cluster, the scenarios, its nodes, and a stage of the path no node serves.\<close>

definition roll_told ::
    "node_api \<Rightarrow> 'cap capability_api \<Rightarrow> environment \<Rightarrow> string \<Rightarrow> (string \<Rightarrow> string \<Rightarrow> string + ('r, 'cap) run_nodes)
       \<Rightarrow> string + (string \<times> string \<times> string) \<times> string list \<times> ('r, 'cap) run_nodes \<times> bool" where
  "roll_told N K env temp nodes =
     and_then (this_cluster env temp) (\<lambda>(cluster, root, base).
     and_then (environment_scenarios env) (\<lambda>chosen.
     and_then (nodes cluster base) (\<lambda>D.
     and_then (roll_relayed N K chosen (nd_simulated D)) (\<lambda>relayed.
     Inr ((cluster, root, base), chosen, D, relayed)))))"

text \<open>\<open>begins\<close> is the place and the state it starts in, from its nodes, whether they relay and the cluster
  process; \<open>drains\<close> which of the nodes it started drain in time.\<close>

definition roll_main ::
    "node_api \<Rightarrow> 'cap capability_api \<Rightarrow> (string \<Rightarrow> string \<Rightarrow> string) \<Rightarrow> environment \<Rightarrow> string
       \<Rightarrow> (string \<Rightarrow> string \<Rightarrow> string + ('r, 'cap) run_nodes) \<Rightarrow> string + string \<Rightarrow> ('cap orders \<Rightarrow> string \<Rightarrow> string + nat)
       \<Rightarrow> (('r, 'cap) run_nodes \<Rightarrow> bool \<Rightarrow> spawned option \<Rightarrow> ('id, 'facts, 'f, 'i, 'r, 'cap) roll_place \<times> ('s, 'f) roll)
       \<Rightarrow> (string \<Rightarrow> bool) \<Rightarrow> string list \<Rightarrow> roll_round list \<Rightarrow> ('s, 'f) roll_outcome option" where
  "roll_main N K join_path env temp nodes binary child begins drains args Ws =
     (case args of
        ''--publication'' # told \<Rightarrow>
          Some (case the_publication join_path told of Inl e \<Rightarrow> Roll_Refused e | Inr text \<Rightarrow> Roll_Answers text)
      | _ \<Rightarrow>
          (case roll_told N K env temp nodes of
             Inl e \<Rightarrow> Some (Roll_Refused e)
           | Inr ((cluster, root, base), chosen, D, relayed) \<Rightarrow>
               let limit = (case args of [] \<Rightarrow> None | said # _ \<Rightarrow> parse_unsigned 64 said);
                   path = join_path (publish_area env temp) (cluster @ ''-cluster.xmip'');
                   O' = (orders_of (stress_from_env (env ''XMIP_ESSENTIALS_STRESS'')) (nd_simulated D) 0)\<lparr>or_scenarios := chosen\<rparr>;
                   spawned = fst (spawn_cluster binary (child O') O' path);
                   (P, S) = begins D relayed spawned in
               map_option (\<lambda>S. Roll_Left S (roll_leave cluster drains (nd_served D) (base, path) S)) (roll_loop P limit Ws S)))"

text \<open>Asked where it publishes, it starts nothing; told to roll, it has refused by the time it spawns.\<close>

lemma asked_it_starts_nothing:
  "\<exists>answer. roll_main N K join_path env temp nodes binary child begins drains (''--publication'' # told) Ws = Some answer
     \<and> (\<forall>S acts. answer \<noteq> Roll_Left S acts)"
  by (auto simp: roll_main_def split: sum.splits)

section \<open>RoundTrip is run in one place\<close>

text \<open>The nodes a roll's roster was started as: each of the roster, with what it declared, and the scenarios
  chosen.\<close>

definition started_as :: "string list \<Rightarrow> 'cap roster \<Rightarrow> 'cap node_arguments list \<Rightarrow> bool" where
  "started_as chosen R as \<longleftrightarrow>
     set (map (\<lambda>a. (na_name a, na_capability a)) as) = set R \<and> (\<forall>a \<in> set as. na_roster a = R \<and> na_scenarios a = chosen)"

lemma declared_itself:
  assumes "distinct (map to_ascii_lowercase (roster_names R))" and "(name, cap) \<in> set R"
  shows "roster_declared name cap R = R"
  using assms
proof (induction R)
  case (Cons entry R)
  obtain one old where entry: "entry = (one, old)" by (cases entry)
  show ?case
  proof (cases "eq_ignore_ascii_case one name")
    case True
    with Cons.prems entry have "(name, cap) = (one, old)"
      by (force simp: eq_ignore_ascii_case_def roster_names_def)
    with entry show ?thesis by simp
  next
    case False
    with Cons entry show ?thesis by (auto simp: eq_ignore_ascii_case_def roster_names_def)
  qed
qed simp

lemma in_map_filter: "y \<in> set (List.map_filter f xs) \<longleftrightarrow> (\<exists>x \<in> set xs. f x = Some y)"
  by (force simp: List.map_filter_def)

lemma at_stage: "rl_stage (relay_subscribing b (relay_at X level R)) = rl_stage R"
  by (simp add: relay_subscribing_def relay_at_def relay_bounded_def relay_with_faults_def Let_def case_prod_beta)

text \<open>What a node of an accepted roster relays: each stage of its own, where the roster is not refused.\<close>

lemma relays_of_node:
  assumes "started_as chosen R as" and "a \<in> set as" and "distinct (map to_ascii_lowercase (roster_names R))"
    and "\<forall>st. st \<in> set (stages (na_capability a)) \<longleftrightarrow> cap_can (su_capability X) (na_capability a) st"
    and "scenario_drives chosen ROUND_TRIP" and "refusal (es_node (su_estate X)) (su_capability X) R = None"
  shows "rl_stage ` set (node_relays X stages ts node b a) = set (stages (na_capability a))"
proof -
  have a: "(na_name a, na_capability a) \<in> set R" "na_roster a = R" "na_scenarios a = chosen"
    using assms(1,2) by (auto simp: started_as_def)
  have R: "node_roster a = R" using declared_itself [OF assms(3) a(1)] a(2) by (simp add: node_roster_def)
  let ?new = "\<lambda>st. relay_new X (na_name a) node st R ts"
  let ?made = "\<lambda>st. map_option (\<lambda>Q. relay_subscribing b (relay_at X (na_stress a) Q)) (?new st)"
  have made: "\<exists>Q. ?made st = Some Q \<and> rl_stage Q = st" if "st \<in> set (stages (na_capability a))" for st
  proof -
    have "na_name a \<in> set (roster_with (su_capability X) R st)" using that a(1) assms(4) by (auto simp: set_roster_with)
    then obtain Q where "?new st = Some Q" using assms(6) by (simp add: relay_new_def Let_def)
    moreover from relay_new_fields [OF this] have "rl_stage Q = st" by simp
    ultimately show ?thesis by (simp add: at_stage)
  qed
  have "node_relays X stages ts node b a = List.map_filter ?made (stages (na_capability a))"
    using a(3) assms(5) by (simp add: node_relays_def R)
  then have "set (node_relays X stages ts node b a) = {Q. \<exists>st \<in> set (stages (na_capability a)). ?made st = Some Q}"
    by (simp only: set_eq_iff mem_Collect_eq in_map_filter) simp
  moreover have each: "rl_stage ` {Q. \<exists>st \<in> S. f st = Some Q} = S"
    if "\<And>st. st \<in> S \<Longrightarrow> \<exists>Q. f st = Some Q \<and> rl_stage Q = st" for S :: "stage set" and f
    using that by (force simp: image_iff)
  moreover from each [of "set (stages (na_capability a))" ?made, OF made]
    have "rl_stage ` {Q. \<exists>st \<in> set (stages (na_capability a)). ?made st = Some Q} = set (stages (na_capability a))" .
  ultimately show ?thesis by (simp only:)
qed

text \<open>C6: RoundTrip is run in exactly one place. A roll that was not refused runs it in its own process exactly
  where none of the nodes it starts relays anything; and where it does not, every stage of the path is
  relayed by one of them.\<close>

theorem round_trip_runs_once:
  assumes "message_path (es_node (su_estate X))" and "roll_relayed (es_node (su_estate X)) (su_capability X) chosen R = Inr relayed"
    and "scenario_drives chosen ROUND_TRIP" and "started_as chosen R as" and "distinct (map to_ascii_lowercase (roster_names R))"
    and "\<forall>cap st. st \<in> set (stages cap) \<longleftrightarrow> cap_can (su_capability X) cap st"
    and "\<forall>cap. cap_declares_no_stage (su_capability X) cap \<longleftrightarrow> stages cap = []"
  shows "(runs_itself chosen relayed ROUND_TRIP \<longleftrightarrow> (\<forall>a \<in> set as. node_relays X stages ts (node a) (b a) a = []))
    \<and> (relayed \<longrightarrow> (\<forall>st. \<exists>a \<in> set as. \<exists>Q \<in> set (node_relays X stages ts (node a) (b a) a). rl_stage Q = st))"
proof (cases "serves_any_stage (su_capability X) R")
  case True
  with assms(2,3) have relayed: "relayed" "refusal (es_node (su_estate X)) (su_capability X) R = None"
    by (auto simp: roll_relayed_def split: option.splits)
  have all: "\<exists>a \<in> set as. \<exists>Q \<in> set (node_relays X stages ts (node a) (b a) a). rl_stage Q = st" for st
  proof -
    have "roster_with (su_capability X) R st \<noteq> []"
      using relayed(2) True assms(1) by (cases st) (auto simp: refusal_None covers_the_path_def message_path_def)
    then obtain name cap where "(name, cap) \<in> set R" "cap_can (su_capability X) cap st"
      by (auto simp: roster_with_def filter_empty_conv)
    moreover from this assms(4) have "(name, cap) \<in> (\<lambda>a. (na_name a, na_capability a)) ` set as"
      by (simp add: started_as_def)
    ultimately obtain a where a: "a \<in> set as" "cap_can (su_capability X) (na_capability a) st" by auto
    from relays_of_node [OF assms(4) a(1) assms(5) _ assms(3) relayed(2), of stages ts "node a" "b a"] assms(6) a
    have "st \<in> rl_stage ` set (node_relays X stages ts (node a) (b a) a)" by simp
    with a(1) show ?thesis by blast
  qed
  moreover have "\<not> runs_itself chosen relayed ROUND_TRIP" using relayed by (simp add: runs_itself_def ROUND_TRIP_def)
  ultimately show ?thesis by fastforce
next
  case False
  with assms(2) have "\<not> relayed" by (simp add: roll_relayed_def)
  have "node_relays X stages ts (node a) (b a) a = []" if "a \<in> set as" for a
  proof -
    have "(na_name a, na_capability a) \<in> set R" using that assms(4) by (auto simp: started_as_def)
    with False assms(7) have "stages (na_capability a) = []" by (auto simp: serves_any_stage_def list_ex_iff)
    then show ?thesis by (simp add: node_relays_def)
  qed
  moreover have "runs_itself chosen relayed ROUND_TRIP" using assms(3) \<open>\<not> relayed\<close> by (simp add: runs_itself_def)
  ultimately show ?thesis using \<open>\<not> relayed\<close> by simp
qed

definition example_started :: "stage list node_arguments list" where
  "example_started = map (\<lambda>(name, cap). \<lparr>na_name = name, na_shared = ''s'', na_stress = Calm, na_rounds = 0,
     na_snapshot = name, na_interval_ms = 250, na_beat_ms = 100, na_capability = cap, na_roster = example_roster,
     na_scenarios = []\<rparr>) example_roster"

theorem round_trip_runs_once_witness:
  "\<not> runs_itself [] True ROUND_TRIP
   \<and> (\<forall>st. \<exists>a \<in> set example_started. \<exists>Q \<in> set (node_relays example_surroundings id [] ''xmip:///n'' False a). rl_stage Q = st)"
proof -
  have X: "su_capability example_surroundings = plain_capability" "es_node (su_estate example_surroundings) = documented_node"
    by (simp_all add: example_surroundings_def example_estate_def)
  have relayed: "roll_relayed documented_node plain_capability [] example_roster = Inr True" by code_simp
  have started: "started_as [] example_roster example_started"
    by (auto simp: started_as_def example_started_def image_image case_prod_beta)
  have names: "distinct (map to_ascii_lowercase (roster_names example_roster))" by code_simp
  have stages: "\<forall>cap st. st \<in> set (id cap) \<longleftrightarrow> cap_can plain_capability cap st"
    "\<forall>cap. cap_declares_no_stage plain_capability cap \<longleftrightarrow> id cap = []" by (simp_all add: plain_capability_def)
  show ?thesis
    using round_trip_runs_once [of example_surroundings "[]" example_roster True example_started id "[]" "\<lambda>a. ''xmip:///n''" "\<lambda>a. False"]
      message_path_documented relayed started names stages
    by (simp add: X scenario_drives_def runs_itself_def ROUND_TRIP_def)
qed

text \<open>The limit is asked after the round: a roll told no rounds runs one.\<close>

lemma told_zero_it_rolls_one: "roll_loop P (Some 0) (W # Ws) S = Some (roll_run_round P W S)"
  by (simp add: Let_def)

section \<open>A roll told a number of rounds\<close>

abbreviation place_observe :: "('id, 'facts, 'f, 'i, 'r, 'cap) roll_place \<Rightarrow> observe_api" where
  "place_observe P \<equiv> es_observe (is_estate (rp_in P))"

text \<open>What a round leaves of what it does not touch, and what its snapshot has of the cluster's.\<close>

lemma merged_grows: "set snap \<subseteq> set (in_merge X snap ticked)"
  and merged_has: "RecordHealth ` set (health_records (es_observe (is_estate X)) ticked) \<subseteq> set (in_merge X snap ticked)"
  by (auto simp: in_merge_def merge_snapshots_def)

lemma published_into_grows: "set snap \<subseteq> set (all_published_into A O' counts_of root now real snap)"
proof (induction real arbitrary: snap)
  case (Cons node real)
  have "set snap \<subseteq> set (real_published_into A O' counts_of scope now node snap)" for scope
    by (auto simp: real_published_into_def Let_def merge_snapshots_def split: sum.splits prod.splits)
  with Cons.IH show ?case by (force simp: all_published_into_def)
qed (simp add: all_published_into_def)

lemma gathered_has:
  "RecordHealth ` set (health_records (es_observe (is_estate X)) ticked)
     \<subseteq> set (all_published_into A O' counts_of root now real (in_merge X snap ticked))"
  using merged_has published_into_grows by (rule subset_trans)

definition kept_beside :: "('s, 'f) roll \<Rightarrow> ('s, 'f) roll \<Rightarrow> bool" where
  "kept_beside S S' \<longleftrightarrow> rr_history S' = rr_history S \<and> rr_files S' = rr_files S \<and> rr_failures S' = rr_failures S"

lemma gather_keeps:
  assumes "roll_gather P W S = (S', snap)"
  shows "kept_beside S S' \<and> rr_round S' = rr_round S \<and> rr_carried S' = rr_carried S
    \<and> (\<forall>C. rr_spawned S' = Some C \<longrightarrow> RecordHealth ` set (health_records (place_observe P) (sp_published C)) \<subseteq> set snap)"
proof -
  obtain world ticked where "in_process_tick (rp_in P) (rm_in W) (rm_simulated W) (rr_world S) = (world, ticked)"
    by (metis surj_pair)
  with gathered_has show ?thesis
    using assms by (fastforce simp: roll_gather_def Let_def kept_beside_def)
qed

lemma carry_keeps:
  assumes "roll_carry P W (S, snap) = (S', snap')"
  shows "kept_beside S S' \<and> rr_round S' = rr_round S \<and> rr_spawned S' = rr_spawned S \<and> rr_drawn S' = rr_drawn S \<and> set snap \<subseteq> set snap'"
  using assms by (auto simp: roll_carry_def kept_beside_def split: option.splits prod.splits)

lemma drop_keeps:
  assumes "roll_drop P W (S, snap) = (S', snap')"
  shows "kept_beside S S' \<and> rr_round S' = rr_round S \<and> rr_spawned S' = rr_spawned S \<and> rr_drawn S' = rr_drawn S \<and> set snap \<subseteq> set snap'"
  using assms by (auto simp: roll_drop_def kept_beside_def split: option.splits prod.splits)

lemma snapshot_keeps:
  assumes "roll_round_snapshot P W S = (S', snap)"
  shows "kept_beside S S' \<and> rr_round S' = rr_round S + 1
    \<and> (\<forall>C. rr_spawned S' = Some C \<longrightarrow> RecordHealth ` set (health_records (place_observe P) (sp_published C)) \<subseteq> set snap)"
proof -
  obtain S1 snap1 where gather: "roll_gather P W (S\<lparr>rr_round := rr_round S + 1\<rparr>) = (S1, snap1)" by (metis surj_pair)
  let ?S1 = "S1\<lparr>rr_drawn := roll_drawn P (rm_now W) snap1 (rr_spawned S1) (rr_drawn S1)\<rparr>"
  obtain S2 snap2 where carry: "roll_carry P W (?S1, snap1) = (S2, snap2)" by (metis surj_pair)
  have drop: "roll_drop P W (S2, snap2) = (S', snap)"
    using assms gather carry by (simp add: roll_round_snapshot_def Let_def)
  from gather_keeps [OF gather] carry_keeps [OF carry] drop_keeps [OF drop] show ?thesis
    unfolding kept_beside_def by (auto dest: subsetD)
qed

text \<open>What is in the file after a round that was written: a snapshot with all the cluster holds.\<close>

definition holds_snapshot :: "('id, 'facts, 'f, 'i, 'r, 'cap) roll_place \<Rightarrow> ('s, 'f) roll \<Rightarrow> bool" where
  "holds_snapshot P S \<longleftrightarrow> (\<exists>snap.
     btree_get (rr_files S) (pg_snapshot (rp_publishing P)) = Some (rp_snapshot_text P snap (rr_drawn S))
     \<and> (\<forall>C. rr_spawned S = Some C \<longrightarrow>
          RecordHealth ` set (health_records (place_observe P) (sp_published C)) \<subseteq> set snap))"

definition own_paths :: "publishing \<Rightarrow> bool" where
  "own_paths G \<longleftrightarrow> distinct [pg_snapshot G, pg_history G, pg_activity G]"

lemma round_publishes:
  assumes "own_paths (rp_publishing P)" and "rm_written W = (\<lambda>path. None)"
  shows "holds_snapshot P (roll_run_round P W S) \<and> rr_round (roll_run_round P W S) = rr_round S + 1
    \<and> length (rr_history (roll_run_round P W S)) = length (rr_history S) + 2
    \<and> rr_failures (roll_run_round P W S) = rr_failures S"
proof -
  obtain S1 snap where S1: "roll_round_snapshot P W S = (S1, snap)" by (metis surj_pair)
  note kept = snapshot_keeps [OF S1, unfolded kept_beside_def]
  have "btree_get (rr_files (roll_publish P W (S1, snap))) (pg_snapshot (rp_publishing P))
      = Some (rp_snapshot_text P snap (rr_drawn (roll_publish P W (S1, snap))))"
    using assms by (simp add: roll_publish_def publish_round_def publish_write_def Let_def own_paths_def btree_get_insert)
  moreover have "rr_spawned (roll_publish P W (S1, snap)) = rr_spawned S1"
    by (simp add: roll_publish_def Let_def case_prod_beta)
  ultimately have "holds_snapshot P (roll_run_round P W S)"
    unfolding holds_snapshot_def roll_run_round_def S1 using kept by (intro exI [of _ snap]) simp
  moreover have "rr_round (roll_publish P W (S1, snap)) = rr_round S1"
    "length (rr_history (roll_publish P W (S1, snap))) = length (rr_history S1) + 2"
    "rr_failures (roll_publish P W (S1, snap)) = rr_failures S1"
    using assms(2) by (simp_all add: roll_publish_def publish_round_def publish_write_def record_round_def Let_def)
  ultimately show ?thesis using kept by (simp add: roll_run_round_def S1)
qed

lemma loop_runs:
  assumes "own_paths (rp_publishing P)"
  shows "rr_round S < n \<Longrightarrow> n \<le> rr_round S + length Ws \<Longrightarrow>
    list_all (\<lambda>W. \<not> rm_expired W \<and> rm_written W = (\<lambda>path. None)) Ws \<Longrightarrow>
    \<exists>S'. roll_loop P (Some n) Ws S = Some S' \<and> rr_round S' = n \<and> holds_snapshot P S'
      \<and> length (rr_history S') = length (rr_history S) + 2 * (n - rr_round S) \<and> rr_failures S' = rr_failures S"
proof (induction Ws arbitrary: S)
  case (Cons W Ws)
  let ?S = "roll_run_round P W S"
  have W: "\<not> rm_expired W" "rm_written W = (\<lambda>path. None)" using Cons.prems(3) by simp_all
  note after = round_publishes [OF assms W(2), of S]
  show ?case
  proof (cases "n \<le> rr_round ?S")
    case True
    with Cons.prems(1) after have "n = rr_round S + 1" by simp
    with True after show ?thesis by (simp add: Let_def)
  next
    case False
    with Cons.prems after Cons.IH [of ?S] W(1) obtain S' where "roll_loop P (Some n) Ws ?S = Some S'" "rr_round S' = n"
      "holds_snapshot P S'" "length (rr_history S') = length (rr_history ?S) + 2 * (n - rr_round ?S)"
      "rr_failures S' = rr_failures ?S" by auto
    with False W(1) after Cons.prems(1) show ?thesis by (simp add: Let_def)
  qed
qed simp


definition example_roll_place :: "(string, string, nat, unit, unit, stage list) roll_place" where
  "example_roll_place =
     \<lparr>rp_in = example_in_surroundings, rp_machine = watched_machine, rp_reach = example_reach, rp_real = [],
      rp_root = ''xmip:///c'', rp_draw = plain_draw, rp_rate_since = \<lambda>drawn before. drawn, rp_capability = plain_capability,
      rp_roster = example_roster, rp_relayed = True, rp_spread = example_spread, rp_kinds = [], rp_measured = \<lambda>snap at k. None,
      rp_far_ends = \<lparr>far_builds = \<lambda>p a. None, far_sends = \<lambda>p a n b. None\<rparr>, rp_shows = decimal,
      rp_publishing = \<lparr>pg_snapshot = ''s'', pg_history = ''h'', pg_activity = ''a''\<rparr>,
      rp_snapshot_text = \<lambda>snap T. decimal (length snap), rp_history_text = \<lambda>history. decimal (length history),
      rp_activity_text = \<lambda>items. decimal (length items)\<rparr>"

definition example_roll :: "(unit, nat) roll" where
  "example_roll =
     (case in_process_new (is_estate example_in_surroundings) ''xmip:///c'' [] [] [] [] 7 ''claim'' None [] Calm
         [''daily-backlog''] True of
       (P, d) \<Rightarrow> \<lparr>rr_round = 0, rr_world = (P, (), d), rr_spawned = Some (spawned_start 7 ''c''), rr_carried = None,
         rr_dropping = None, rr_drop_box = drop_box_empty, rr_drawn = None, rr_history = [], rr_files = [],
         rr_failures = []\<rparr>)"

definition example_roll_round :: roll_round where
  "example_roll_round =
     \<lparr>rm_in = example_in_round, rm_simulated = 0, rm_started = 9, rm_looks = [10], rm_now = 0, rm_told = id,
      rm_refuses = \<lambda>name p. None, rm_at = 0, rm_judged = 0, rm_written = \<lambda>path. None, rm_expired = False\<rparr>"


end
