(* ===== verification/Far_Ends.thy ===== *)
theory Far_Ends
  imports Drop_Box
begin

text \<open>
  The far ends of the drop box and what is said of them (\<open>src/drop_box/far_ends.rs\<close>,
  \<open>src/login.rs\<close>, the paths of \<open>src/drop_box.rs\<close>): a server for every Party and protocol, the
  password it admits the Party with and the address it listens at, each written as a file the nodes
  read while the roll is still writing. The servers, the certificate, the gates and the transports
  are other crates', the parameter \<open>F\<close>; how the operating system divides one write is a part of it.
\<close>

section \<open>What is written, step by step\<close>

text \<open>\<open>fs::write\<close> opens the file empty and then writes, so a reader can find it anywhere between.\<close>

datatype server_write = Opened string | Wrote string bytes

fun write_path :: "server_write \<Rightarrow> string" where
  "write_path (Opened path) = path"
| "write_path (Wrote path part) = path"

fun write_step :: "server_write \<Rightarrow> dir \<Rightarrow> dir" where
  "write_step (Opened path) d = btree_insert path [] d"
| "write_step (Wrote path part) d = btree_upsert path [] (\<lambda>old. old @ part) d"

definition dir_after :: "server_write list \<Rightarrow> dir \<Rightarrow> dir" where
  "dir_after ws d = fold write_step ws d"

definition address_path :: "string \<Rightarrow> string \<Rightarrow> string" where
  "address_path protocol party = protocol @ ''-'' @ party"

definition secret_path :: "string \<Rightarrow> string \<Rightarrow> string" where
  "secret_path protocol party = protocol @ ''-'' @ party @ ''.secret''"

definition anchor_path :: string where
  "anchor_path = ''anchor.pem''"

section \<open>What a far end asks of a login\<close>

datatype offer = OfferPassword string string | OfferKey string bytes

datatype speaking =
    OverFile string
  | OverFtp string string string "bytes option"
  | OverSftp string string string

record 'n far_api =
  fr_certificate :: "string + bytes \<times> bytes \<times> bytes"
  fr_made :: "string option"
  fr_guard :: "bytes \<Rightarrow> bytes \<Rightarrow> string option"
  fr_bind :: "nat \<Rightarrow> string + string"
  fr_minted :: "nat \<Rightarrow> string"
  fr_serve :: "string \<Rightarrow> string \<Rightarrow> string option"
  fr_parts :: "bytes \<Rightarrow> bytes list"
  fr_stops :: "string \<Rightarrow> (nat \<times> string) option"
  fr_passwords :: "(string \<times> string) list \<Rightarrow> string \<Rightarrow> string \<Rightarrow> bool"
  fr_keys :: "bytes list \<Rightarrow> string \<Rightarrow> bytes \<Rightarrow> bool"
  fr_unread :: "string \<Rightarrow> string"
  fr_trusting :: "bytes \<Rightarrow> string option"
  fr_on_node :: "'n \<Rightarrow> speaking \<Rightarrow> string option"

definition login_checking :: "'n far_api \<Rightarrow> (string \<times> string) list \<Rightarrow> bytes list \<Rightarrow> offer \<Rightarrow> bool" where
  "login_checking F passwords keys offer =
     (case offer of
        OfferPassword user secret \<Rightarrow> fr_passwords F passwords user secret
      | OfferKey user key \<Rightarrow> fr_keys F keys user key)"

section \<open>Starting them\<close>

definition whole_write :: "'n far_api \<Rightarrow> string \<Rightarrow> bytes \<Rightarrow> server_write list" where
  "whole_write F path contents = Opened path # map (Wrote path) (fr_parts F contents)"

definition fs_write :: "'n far_api \<Rightarrow> string \<Rightarrow> bytes \<Rightarrow> server_write list \<times> string option" where
  "fs_write F path contents =
     (case fr_stops F path of
        None \<Rightarrow> (whole_write F path contents, None)
      | Some (n, e) \<Rightarrow> (take n (whole_write F path contents), Some e))"

record far_end =
  fe_protocol :: string
  fe_party :: string
  fe_address :: string
  fe_check :: "offer \<Rightarrow> bool"

text \<open>The loop of \<open>FarEnds::start\<close>, from its \<open>n\<close>th far end on: what it writes, the far ends it stood
  up, and the error that ended it.\<close>

fun start_each ::
    "'n far_api \<Rightarrow> nat \<Rightarrow> (string \<times> string) list \<Rightarrow> server_write list \<times> far_end list \<times> string option" where
  "start_each F n [] = ([], [], None)"
| "start_each F n ((party, protocol) # rest) =
     (case fr_bind F n of
        Inl e \<Rightarrow> ([], [], Some e)
      | Inr address \<Rightarrow>
          (let secret = fr_minted F n in
           case fr_serve F protocol party of
             Some e \<Rightarrow> ([], [], Some (protocol @ '' for '' @ party @ '': '' @ e))
           | None \<Rightarrow>
               (let far = \<lparr>fe_protocol = protocol, fe_party = party, fe_address = address,
                           fe_check = login_checking F [(party, secret)] []\<rparr> in
                case fs_write F (secret_path protocol party) secret of
                  (ws, Some e) \<Rightarrow> (ws, [far], Some e)
                | (ws, None) \<Rightarrow>
                    (case fs_write F (address_path protocol party) address of
                       (vs, Some e) \<Rightarrow> (ws @ vs, [far], Some e)
                     | (vs, None) \<Rightarrow>
                         (let (us, stood, r) = start_each F (n + 1) rest in
                          (ws @ vs @ us, far # stood, r))))))"

definition far_ends_start ::
    "'n far_api \<Rightarrow> string list \<Rightarrow> server_write list \<times> far_end list \<times> string option" where
  "far_ends_start F parties =
     (case fr_certificate F of
        Inl e \<Rightarrow> ([], [], Some e)
      | Inr (chain, key, anchor) \<Rightarrow>
          (case fr_made F of
             Some e \<Rightarrow> ([], [], Some e)
           | None \<Rightarrow>
               (case fs_write F anchor_path anchor of
                  (ws, Some e) \<Rightarrow> (ws, [], Some e)
                | (ws, None) \<Rightarrow>
                    (case fr_guard F chain key of
                       Some e \<Rightarrow> (ws, [], Some e)
                     | None \<Rightarrow>
                         (let (vs, stood, r) = start_each F 0 (List.product parties (filter remote_protocol PROTOCOLS)) in
                          (ws @ vs, stood, r))))))"

section \<open>Speaking to one\<close>

text \<open>\<open>fs::read_to_string\<close>: a file that is not there or not UTF-8 is an error.\<close>

definition read_text :: "'n far_api \<Rightarrow> dir \<Rightarrow> string \<Rightarrow> string + string" where
  "read_text F d path =
     (case btree_get d path of
        None \<Rightarrow> Inl (fr_unread F path)
      | Some b \<Rightarrow> if utf8_error 0 b = None then Inr b else Inl (fr_unread F path))"

definition on_node :: "'n far_api \<Rightarrow> 'n option \<Rightarrow> speaking \<Rightarrow> string + speaking" where
  "on_node F node built =
     (case node of
        None \<Rightarrow> Inr built
      | Some node \<Rightarrow> (case fr_on_node F node built of None \<Rightarrow> Inr built | Some e \<Rightarrow> Inl e))"

definition trusted :: "'n far_api \<Rightarrow> dir \<Rightarrow> string + bytes" where
  "trusted F d =
     (case btree_get d anchor_path of
        None \<Rightarrow> Inl (fr_unread F anchor_path)
      | Some pem \<Rightarrow> (case fr_trusting F pem of None \<Rightarrow> Inr pem | Some e \<Rightarrow> Inl e))"

text \<open>\<open>transport\<close>, its three reads each of the directory as it is then.\<close>

definition far_transport ::
    "'n far_api \<Rightarrow> string \<Rightarrow> string \<Rightarrow> string \<Rightarrow> 'n option \<Rightarrow> dir \<times> dir \<times> dir \<Rightarrow> (string + speaking) option" where
  "far_transport F location protocol party node = (\<lambda>(first, second, third).
     if protocol = ''file'' then Some (on_node F node (OverFile location))
     else (case read_text F first (address_path protocol party) of
         Inl _ \<Rightarrow> None
       | Inr address \<Rightarrow>
           (let address = trim address in
            case read_text F second (secret_path protocol party) of
              Inl e \<Rightarrow> Some (Inl (protocol @ '' for '' @ party @ '''s secret: '' @ e))
            | Inr secret \<Rightarrow>
                Some (if protocol = ''sftp'' then on_node F node (OverSftp address party secret)
                  else if protocol = ''ftps''
                  then (case trusted F third of
                      Inl e \<Rightarrow> Inl e
                    | Inr secured \<Rightarrow> on_node F node (OverFtp address party secret (Some secured)))
                  else on_node F node (OverFtp address party secret None)))))"

section \<open>What a reader finds\<close>

lemma dir_after_append: "dir_after (ws @ vs) d = dir_after vs (dir_after ws d)"
  by (simp add: dir_after_def)

lemma untouched: "path \<notin> write_path ` set ws \<Longrightarrow> btree_get (dir_after ws d) path = btree_get d path"
proof (induction ws arbitrary: d)
  case (Cons w ws)
  then show ?case by (cases w) (simp_all add: dir_after_def store_simps)
qed (simp add: dir_after_def)

lemma take_untouched: "path \<notin> write_path ` set ws \<Longrightarrow> path \<notin> write_path ` set (take i ws)"
  by (meson image_mono set_take_subset subsetD)

lemma wrote_parts:
  "btree_get d path = Some old \<Longrightarrow> btree_get (dir_after (map (Wrote path) bs) d) path = Some (old @ concat bs)"
  by (induction bs arbitrary: d old) (simp_all add: dir_after_def store_simps)

lemma whole_write_read:
  "concat (fr_parts F contents) = contents \<Longrightarrow>
     btree_get (dir_after (whole_write F path contents) d) path = Some contents"
  using wrote_parts [of "btree_insert path [] d" path "[]" "fr_parts F contents"]
  by (simp add: whole_write_def dir_after_def store_simps)

lemma part_write_read:
  assumes "concat (fr_parts F contents) = contents" and "prefix ws (whole_write F path contents)" and "ws \<noteq> []"
  shows "\<exists>part. btree_get (dir_after ws d) path = Some part \<and> prefix part contents"
proof -
  from assms(2,3) obtain vs where vs: "ws = Opened path # vs" "prefix vs (map (Wrote path) (fr_parts F contents))"
    by (cases ws) (auto simp: whole_write_def)
  then have "vs = map (Wrote path) (take (length vs) (fr_parts F contents))"
    by (metis prefix_def append_eq_conv_conj take_map)
  then have "btree_get (dir_after ws d) path = Some (concat (take (length vs) (fr_parts F contents)))"
    using wrote_parts [of "btree_insert path [] d" path "[]" "take (length vs) (fr_parts F contents)"] vs(1)
    by (metis (no_types, lifting) append_Nil btree_get_insert dir_after_def fold_simps(2) write_step.simps(1))
  moreover have "prefix (concat (take (length vs) (fr_parts F contents))) contents"
    using assms(1) by (metis append_take_drop_id concat_append prefixI)
  ultimately show ?thesis by blast
qed

lemma whole_write_paths [simp]: "write_path ` set (whole_write F path contents) = {path}"
  by (auto simp: whole_write_def)

lemma fs_write_paths: "write_path ` set (fst (fs_write F path contents)) \<subseteq> {path}"
  using set_take_subset by (fastforce simp: fs_write_def whole_write_def split: option.splits)

lemma fs_write_whole: "fs_write F path contents = (ws, None) \<Longrightarrow> ws = whole_write F path contents"
  by (auto simp: fs_write_def split: option.splits)

lemma fs_write_prefix: "fs_write F path contents = (ws, r) \<Longrightarrow> prefix ws (whole_write F path contents)"
  by (auto simp: fs_write_def take_is_prefix split: option.splits)

section \<open>No file is another's\<close>

definition clean :: "string list \<Rightarrow> bool" where
  "clean parties \<longleftrightarrow> distinct parties \<and> (\<forall>a \<in> set parties. \<forall>b \<in> set parties. a \<noteq> b @ ''.secret'')"

abbreviation far_protocols :: "string set" where
  "far_protocols \<equiv> {''ftp'', ''ftps'', ''sftp''}"

lemma far_protocols: "protocol \<in> set PROTOCOLS \<and> remote_protocol protocol \<longleftrightarrow> protocol \<in> far_protocols"
  by (auto simp: PROTOCOLS_def remote_protocol_def)

lemma paths_apart:
  assumes "p \<in> far_protocols" "q \<in> far_protocols"
  shows "address_path p a = address_path q b \<longleftrightarrow> p = q \<and> a = b"
    and "secret_path p a = secret_path q b \<longleftrightarrow> p = q \<and> a = b"
    and "address_path p a = secret_path q b \<longleftrightarrow> p = q \<and> a = b @ ''.secret''"
    and "address_path p a \<noteq> anchor_path" "secret_path p a \<noteq> anchor_path"
  using assms by (auto simp: address_path_def secret_path_def anchor_path_def)

definition end_paths :: "string \<times> string \<Rightarrow> string set" where
  "end_paths = (\<lambda>(party, protocol). {secret_path protocol party, address_path protocol party})"

lemma start_each_paths:
  "write_path ` set (fst (start_each F n ends)) \<subseteq> \<Union> (end_paths ` set ends)"
proof (induction F n ends rule: start_each.induct)
  case (2 F n party protocol rest)
  note paths = fs_write_paths [of F "secret_path protocol party" "fr_minted F n"]
    fs_write_paths [of F "address_path protocol party"]
  show ?case
  proof (cases "fr_bind F n")
    case (Inr address)
    with 2 paths(1) paths(2) [of address] show ?thesis
      by (fastforce simp: Let_def end_paths_def split: option.splits prod.splits)
  qed simp
qed simp

lemma end_paths_apart:
  assumes "clean parties" "fst e \<in> set parties" "fst f \<in> set parties"
    and "snd e \<in> far_protocols" "snd f \<in> far_protocols" "e \<noteq> f"
  shows "end_paths e \<inter> end_paths f = {}"
proof -
  obtain a p b q where e: "e = (a, p)" and f: "f = (b, q)" by (cases e, cases f)
  have far: "p \<in> far_protocols" "q \<in> far_protocols" and other: "\<not> (p = q \<and> a = b)"
    using assms(4-6) by (auto simp: e f)
  have "a \<noteq> b @ ''.secret''" "b \<noteq> a @ ''.secret''" using assms(1-3) by (auto simp: e f clean_def)
  then have "address_path p a \<noteq> secret_path q b" "address_path q b \<noteq> secret_path p a"
    unfolding paths_apart(3) [OF far] paths_apart(3) [OF far(2,1)] by simp_all
  moreover have "address_path p a \<noteq> address_path q b" "secret_path p a \<noteq> secret_path q b"
    using paths_apart(1,2) [OF far, of a b] other by blast+
  ultimately show ?thesis by (auto simp: e f end_paths_def)
qed

lemma start_each_apart:
  assumes "clean parties" "\<forall>e \<in> set (f # ends). fst e \<in> set parties \<and> snd e \<in> far_protocols" "f \<notin> set ends"
  shows "end_paths f \<inter> write_path ` set (fst (start_each F n ends)) = {}"
proof -
  have "end_paths f \<inter> end_paths e = {}" if "e \<in> set ends" for e
    using that assms(2,3) by (intro end_paths_apart [OF assms(1)]) auto
  then show ?thesis using start_each_paths [of F n ends] by blast
qed

text \<open>What is written of one far end: nothing at its address, or the whole of its secret, then its
  address, and neither file again.\<close>

definition told :: "'n far_api \<Rightarrow> string \<Rightarrow> string \<Rightarrow> server_write list \<Rightarrow> far_end list \<Rightarrow> bool \<Rightarrow> bool" where
  "told F protocol party ws stood ok \<longleftrightarrow>
     (\<exists>pre vs post secret far. ws = pre @ whole_write F (secret_path protocol party) secret @ vs @ post
        \<and> secret \<in> range (fr_minted F)
        \<and> far \<in> set stood \<and> fe_protocol far = protocol \<and> fe_party far = party
        \<and> fe_check far = login_checking F [(party, secret)] []
        \<and> prefix vs (whole_write F (address_path protocol party) (fe_address far))
        \<and> (ok \<longrightarrow> vs = whole_write F (address_path protocol party) (fe_address far))
        \<and> end_paths (party, protocol) \<inter> write_path ` set (pre @ post) = {})"

lemma told_later:
  assumes "told F protocol party ws some ok" and "end_paths (party, protocol) \<inter> write_path ` set us = {}"
    and "set some \<subseteq> set stood"
  shows "told F protocol party (us @ ws) stood ok"
proof -
  from assms(1) obtain pre vs post secret one where
    "ws = pre @ whole_write F (secret_path protocol party) secret @ vs @ post"
    "secret \<in> range (fr_minted F)" "one \<in> set some" "fe_protocol one = protocol" "fe_party one = party"
    "fe_check one = login_checking F [(party, secret)] []"
    "prefix vs (whole_write F (address_path protocol party) (fe_address one))"
    "ok \<longrightarrow> vs = whole_write F (address_path protocol party) (fe_address one)"
    and apart: "end_paths (party, protocol) \<inter> write_path ` set (pre @ post) = {}"
    unfolding told_def by blast
  moreover have "end_paths (party, protocol) \<inter> write_path ` set ((us @ pre) @ post) = {}"
    using apart assms(2) by (auto simp: disjoint_iff)
  moreover have "one \<in> set stood" using \<open>one \<in> set some\<close> assms(3) by blast
  ultimately show ?thesis
    unfolding told_def
    by (intro exI [of _ "us @ pre"] exI [of _ vs] exI [of _ post] exI [of _ secret] exI [of _ one]) simp
qed

lemma start_each_tells:
  assumes "clean parties" "\<forall>e \<in> set ends. fst e \<in> set parties \<and> snd e \<in> far_protocols" "distinct ends"
    and "(party, protocol) \<in> set ends" "start_each F n ends = (ws, stood, r)"
  shows "told F protocol party ws stood (r = None)
    \<or> r \<noteq> None \<and> address_path protocol party \<notin> write_path ` set ws"
  using assms(2-)
proof (induction ends arbitrary: n ws stood r)
  case (Cons e0 rest)
  obtain a p where e0: "e0 = (a, p)" by (cases e0)
  note Cons = Cons [unfolded e0]
  show ?case
  proof (cases "fst (snd (start_each F n ((a, p) # rest))) = []")
    case True
    with Cons(5) have "ws = []" "r \<noteq> None" by (auto simp: Let_def split: sum.splits option.splits prod.splits)
    then show ?thesis by simp
  next
    case False
    then obtain address where bind: "fr_bind F n = Inr address" and serve: "fr_serve F p a = None"
      by (auto simp: Let_def split: sum.splits option.splits)
    define far where "far = \<lparr>fe_protocol = p, fe_party = a, fe_address = address,
        fe_check = login_checking F [(a, fr_minted F n)] []\<rparr>"
    obtain us e where us: "fs_write F (secret_path p a) (fr_minted F n) = (us, e)" by fastforce
    obtain vs e' where vs: "fs_write F (address_path p a) address = (vs, e')" by fastforce
    obtain later stood' r' where rest: "start_each F (Suc n) rest = (later, stood', r')" by (metis prod_cases3)
    have run: "(ws, stood, r) =
        (if e \<noteq> None then (us, [far], e) else if e' \<noteq> None then (us @ vs, [far], e')
         else (us @ vs @ later, far # stood', r'))"
      using Cons(5) by (auto simp: bind serve us vs rest far_def Let_def split: option.splits)
    have paths: "write_path ` set us \<subseteq> {secret_path p a}" "write_path ` set vs \<subseteq> {address_path p a}"
      using fs_write_paths [of F "secret_path p a" "fr_minted F n"] fs_write_paths [of F "address_path p a" address]
      by (simp_all add: us vs)
    show ?thesis
    proof (cases "(party, protocol) = (a, p)")
      case True
      have later: "end_paths (party, protocol) \<inter> write_path ` set later = {}"
        using start_each_apart [of parties "(a, p)" rest F "Suc n"] assms(1) Cons(2,3) rest True by simp
      have "address_path p a \<noteq> secret_path p a" by (simp add: address_path_def secret_path_def)
      then have none: "address_path protocol party \<notin> write_path ` set us" using paths(1) True by auto
      have "told F protocol party (us @ vs @ post) (far # some) (r = None)"
        if "e = None" "end_paths (party, protocol) \<inter> write_path ` set post = {}" "e' = None \<or> r \<noteq> None" for post some
        unfolding told_def
      proof (intro exI conjI)
        show "us @ vs @ post = [] @ whole_write F (secret_path protocol party) (fr_minted F n) @ vs @ post"
          using us that(1) True by (simp add: fs_write_whole)
        show "far \<in> set (far # some)" by simp
        show "prefix vs (whole_write F (address_path protocol party) (fe_address far))"
          using fs_write_prefix [OF vs] True by (simp add: far_def)
        show "r = None \<longrightarrow> vs = whole_write F (address_path protocol party) (fe_address far)"
          using that(3) vs True by (auto simp: far_def fs_write_whole)
      qed (use that True in \<open>simp_all add: far_def\<close>)
      from this [of "[]" "[]"] this [of later stood'] run later none show ?thesis by (auto split: if_splits)
    next
      case False
      then have mine: "(party, protocol) \<in> set rest" using Cons(4) by auto
      have "end_paths (party, protocol) \<inter> end_paths (a, p) = {}"
        by (rule end_paths_apart [OF assms(1)]) (use Cons(2) mine False in auto)
      moreover have "write_path ` set (us @ vs) \<subseteq> end_paths (a, p)" using paths by (auto simp: end_paths_def)
      ultimately have head: "end_paths (party, protocol) \<inter> write_path ` set (us @ vs) = {}" by blast
      have rest_told: "told F protocol party later stood' (r' = None)
          \<or> r' \<noteq> None \<and> address_path protocol party \<notin> write_path ` set later"
        using Cons(1) [OF _ _ mine rest] Cons(2,3) by simp
      have "address_path protocol party \<in> end_paths (party, protocol)" by (simp add: end_paths_def)
      with head have none: "address_path protocol party \<notin> write_path ` set (us @ vs)" by blast
      from rest_told show ?thesis
      proof
        assume "told F protocol party later stood' (r' = None)"
        from told_later [OF this head, of "far # stood'"] run none show ?thesis by (auto simp: append_assoc split: if_splits)
      qed (use run none in \<open>auto split: if_splits\<close>)
    qed
  qed
qed simp

lemma far_ends_start_tells:
  assumes "clean parties" "party \<in> set parties" "protocol \<in> far_protocols"
    and "far_ends_start F parties = (ws, stood, r)"
  shows "told F protocol party ws stood (r = None)
    \<or> r \<noteq> None \<and> address_path protocol party \<notin> write_path ` set ws"
proof -
  let ?ends = "List.product parties (filter remote_protocol PROTOCOLS)"
  have anchor: "end_paths (party, protocol) \<inter> {anchor_path} = {}"
    using paths_apart(4,5) [OF assms(3,3)] by (auto simp: end_paths_def)
  then have mine: "address_path protocol party \<noteq> anchor_path" by (auto simp: end_paths_def)
  have ends: "\<forall>e \<in> set ?ends. fst e \<in> set parties \<and> snd e \<in> far_protocols" "(party, protocol) \<in> set ?ends"
    using assms(2,3) far_protocols by auto
  have distinct: "distinct ?ends"
    using assms(1) by (simp add: clean_def distinct_product PROTOCOLS_def)
  obtain chain key pem where certificate: "fr_certificate F = Inr (chain, key, pem) \<or> ws = [] \<and> r \<noteq> None"
    using assms(4) by (auto simp: far_ends_start_def split: sum.splits)
  obtain us e where us: "fs_write F anchor_path pem = (us, e)" by fastforce
  then have paths: "write_path ` set us \<subseteq> {anchor_path}" using fs_write_paths [of F anchor_path pem] by simp
  obtain vs some q where each: "start_each F 0 ?ends = (vs, some, q)" by (metis prod_cases3)
  have "(ws = [] \<or> ws = us) \<and> r \<noteq> None \<or> ws = us @ vs \<and> stood = some \<and> r = q"
  proof (cases "ws = [] \<and> r \<noteq> None")
    case False
    with certificate have "fr_certificate F = Inr (chain, key, pem)" by blast
    then have "far_ends_start F parties =
        (case fr_made F of Some x \<Rightarrow> ([], [], Some x)
         | None \<Rightarrow> (case e of Some x \<Rightarrow> (us, [], Some x)
         | None \<Rightarrow> (case fr_guard F chain key of Some x \<Rightarrow> (us, [], Some x) | None \<Rightarrow> (us @ vs, some, q))))"
      by (cases "fr_made F"; cases e; cases "fr_guard F chain key") (simp_all add: far_ends_start_def us each)
    with assms(4) show ?thesis by (cases "fr_made F"; cases e; cases "fr_guard F chain key") auto
  qed blast
  then consider "ws = [] \<or> ws = us" "r \<noteq> None" | "ws = us @ vs" "stood = some" "r = q" by blast
  then show ?thesis
  proof cases
    case 1
    then show ?thesis using paths mine by auto
  next
    case 2
    from start_each_tells [OF assms(1) ends(1) distinct ends(2) each]
    show ?thesis
    proof
      assume "told F protocol party vs some (q = None)"
      moreover have "end_paths (party, protocol) \<inter> write_path ` set us = {}" using paths anchor by blast
      ultimately show ?thesis using told_later [of F protocol party vs some "q = None" us some] 2 by simp
    qed (use 2 paths mine in auto)
  qed
qed

section \<open>A far end that says where it listens has said what it admits\<close>

definition far_documented :: "'n far_api \<Rightarrow> bool" where
  "far_documented F \<longleftrightarrow>
     (\<forall>b. concat (fr_parts F b) = b)
     \<and> (\<forall>n. utf8_error 0 (fr_minted F n) = None)
     \<and> (\<forall>entries user secret. fr_passwords F entries user secret \<longleftrightarrow> (user, secret) \<in> set entries)"

text \<open>What is read at an instant of writes that tell of a far end.\<close>

lemma told_is_read:
  assumes "told F protocol party ws stood ok" and "\<And>b. concat (fr_parts F b) = b" and "protocol \<in> far_protocols"
    and "btree_get d (address_path protocol party) = None" and "i \<le> j"
    and "btree_get (dir_after (take i ws) d) (address_path protocol party) = Some part"
  shows "\<exists>far \<in> set stood. \<exists>secret \<in> range (fr_minted F). fe_protocol far = protocol \<and> fe_party far = party
    \<and> fe_check far = login_checking F [(party, secret)] []
    \<and> btree_get (dir_after (take j ws) d) (secret_path protocol party) = Some secret
    \<and> prefix part (fe_address far) \<and> (ok \<and> length ws \<le> i \<longrightarrow> part = fe_address far)"
proof -
  let ?at = "address_path protocol party" and ?by = "secret_path protocol party"
  from assms(1) obtain pre vs post secret far where
    ws: "ws = pre @ whole_write F ?by secret @ vs @ post" and minted: "secret \<in> range (fr_minted F)"
    and far: "far \<in> set stood" "fe_protocol far = protocol" "fe_party far = party"
      "fe_check far = login_checking F [(party, secret)] []"
    and vs: "prefix vs (whole_write F ?at (fe_address far))" "ok \<longrightarrow> vs = whole_write F ?at (fe_address far)"
    and apart: "end_paths (party, protocol) \<inter> write_path ` set (pre @ post) = {}"
    unfolding told_def by blast
  let ?n = "length (pre @ whole_write F ?by secret)"
  have ne: "?at \<noteq> ?by" by (simp add: address_path_def secret_path_def)
  have only: "write_path ` set vs \<subseteq> {?at}"
    using vs(1) whole_write_paths [of F ?at "fe_address far"] by (metis image_mono set_mono_prefix)
  have post: "?at \<notin> write_path ` set post" "?by \<notin> write_path ` set post"
    and "?at \<notin> write_path ` set pre"
    using apart by (simp_all add: end_paths_def image_Un)
  then have out: "?at \<notin> write_path ` set (pre @ whole_write F ?by secret)"
    using ne by (simp add: image_Un)
  have vs_out: "?by \<notin> write_path ` set vs" using only ne by (metis singletonD subsetD)
  have later: "?n < i"
  proof (rule ccontr)
    assume "\<not> ?n < i"
    then have "take i ws = take i (pre @ whole_write F ?by secret)" by (simp add: ws)
    then have "?at \<notin> write_path ` set (take i ws)" using take_untouched [OF out] by simp
    then show False using untouched [of ?at "take i ws" d] assms(4,6) by simp
  qed
  define D where "D = dir_after (pre @ whole_write F ?by secret) d"
  have cut: "dir_after (take k ws) d = dir_after (take (k - ?n - length vs) post) (dir_after (take (k - ?n) vs) D)"
    if "?n < k" for k
    using that by (simp add: ws D_def dir_after_append)
  have start: "btree_get D ?at = None" unfolding D_def using untouched [OF out] assms(4) by simp
  have part: "btree_get (dir_after (take (i - ?n) vs) D) ?at = Some part"
    using assms(6) cut [OF later] untouched [OF take_untouched [OF post(1)]] by simp
  then have "take (i - ?n) vs \<noteq> []" using start by (auto simp: dir_after_def)
  moreover have "prefix (take (i - ?n) vs) (whole_write F ?at (fe_address far))"
    using vs(1) take_is_prefix by (metis prefix_order.order_trans)
  ultimately have pre: "prefix part (fe_address far)"
    using part_write_read [OF assms(2), of "take (i - ?n) vs" ?at _ D] part by auto
  have whole: "part = fe_address far" if "ok" "length ws \<le> i"
    using that vs(2) part whole_write_read [of F "fe_address far" ?at D] assms(2) by (simp add: ws)
  have "btree_get (dir_after (take j ws) d) ?by = btree_get D ?by"
    using cut [of j] later assms(5) untouched [OF take_untouched [OF vs_out]] untouched [OF take_untouched [OF post(2)]]
    by simp
  also have "\<dots> = Some secret" by (simp add: D_def dir_after_append whole_write_read assms(2))
  finally show ?thesis using minted far pre whole by blast
qed

text \<open>C27: A far end that says where it listens has said what it admits. However the writes of the roll
  and the reads of a node interleave, even where a write is seen half done or the start ends in an
  error, a node that finds an address finds, from then on, the whole secret of that very far end: its
  check admits the Party with that secret and nobody with anything else; what the node speaks to is a
  beginning of the address the far end listens at, and all of it once everything is written.\<close>

theorem said_address_is_admitted:
  assumes "far_documented F" "far_ends_start F parties = (ws, stood, r)" "clean parties"
    and "party \<in> set parties" "protocol \<in> set PROTOCOLS" "remote_protocol protocol"
    and "btree_get d (address_path protocol party) = None" "i \<le> j"
    and "far_transport F location protocol party node (dir_after (take i ws) d, dir_after (take j ws) d, third) = Some res"
  shows "\<exists>far \<in> set stood. \<exists>secret part. fe_protocol far = protocol \<and> fe_party far = party
    \<and> (\<forall>user word. fe_check far (OfferPassword user word) \<longleftrightarrow> user = party \<and> word = secret)
    \<and> read_text F (dir_after (take j ws) d) (secret_path protocol party) = Inr secret
    \<and> prefix part (fe_address far) \<and> (r = None \<and> length ws \<le> i \<longrightarrow> part = fe_address far)
    \<and> (\<forall>how. res = Inr how \<longrightarrow>
         (\<exists>secured. how = (if protocol = ''sftp'' then OverSftp (trim part) party secret
                           else OverFtp (trim part) party secret secured)))"
proof -
  have far: "protocol \<in> far_protocols" using assms(5,6) far_protocols by blast
  from assms(6,9) obtain part where part: "btree_get (dir_after (take i ws) d) (address_path protocol party) = Some part"
    "read_text F (dir_after (take i ws) d) (address_path protocol party) = Inr part"
    by (auto simp: far_transport_def remote_protocol_def read_text_def split: option.splits if_splits sum.splits)
  then have "address_path protocol party \<in> write_path ` set ws"
    using assms(7) untouched [of "address_path protocol party" "take i ws" d] take_untouched by fastforce
  with far_ends_start_tells [OF assms(3,4) far assms(2)] have "told F protocol party ws stood (r = None)" by blast
  from told_is_read [OF this _ far assms(7,8) part(1)] assms(1) obtain one secret where
    one: "one \<in> set stood" "fe_protocol one = protocol" "fe_party one = party"
      "fe_check one = login_checking F [(party, secret)] []" "secret \<in> range (fr_minted F)"
      "btree_get (dir_after (take j ws) d) (secret_path protocol party) = Some secret"
      "prefix part (fe_address one)" "r = None \<and> length ws \<le> i \<longrightarrow> part = fe_address one"
    unfolding far_documented_def by blast
  have secret: "read_text F (dir_after (take j ws) d) (secret_path protocol party) = Inr secret"
    using one(5,6) assms(1) by (auto simp: read_text_def far_documented_def)
  have "\<exists>secured. how = (if protocol = ''sftp'' then OverSftp (trim part) party secret
      else OverFtp (trim part) party secret secured)" if "res = Inr how" for how
    using assms(6,9) that part(2) secret
    by (auto simp: far_transport_def remote_protocol_def on_node_def Let_def split: option.splits if_splits sum.splits)
  moreover have "fe_check one (OfferPassword user word) \<longleftrightarrow> user = party \<and> word = secret" for user word
    using assms(1) one(4) by (simp add: login_checking_def far_documented_def)
  ultimately show ?thesis using one secret by blast
qed

text \<open>Once everything is written, every far end is found: where its address is text, \<open>transport\<close> answers
  for it.\<close>

lemma every_far_end_is_found:
  assumes "far_documented F" "far_ends_start F parties = (ws, stood, None)" "clean parties"
    and "party \<in> set parties" "protocol \<in> far_protocols" "btree_get d (address_path protocol party) = None"
    and "\<forall>far \<in> set stood. utf8_error 0 (fe_address far) = None"
  shows "far_transport F location protocol party node (dir_after ws d, second, third) \<noteq> None"
proof -
  from far_ends_start_tells [OF assms(3-5,2)] have told: "told F protocol party ws stood True" by simp
  then obtain pre post secret far where ws: "ws = pre @ whole_write F (secret_path protocol party) secret
      @ whole_write F (address_path protocol party) (fe_address far) @ post"
    and far: "far \<in> set stood" and apart: "end_paths (party, protocol) \<inter> write_path ` set (pre @ post) = {}"
    unfolding told_def by blast
  have "address_path protocol party \<notin> write_path ` set post" using apart by (simp add: end_paths_def image_Un)
  then have "btree_get (dir_after ws d) (address_path protocol party) = Some (fe_address far)"
    using assms(1) by (simp add: ws dir_after_append untouched whole_write_read far_documented_def)
  then have "read_text F (dir_after ws d) (address_path protocol party) = Inr (fe_address far)"
    using far assms(7) by (simp add: read_text_def)
  then show ?thesis
    by (cases "read_text F second (secret_path protocol party)") (simp_all add: far_transport_def Let_def)
qed

section \<open>The drop box over them\<close>

text \<open>What the roll's own drop box builds its senders with: the far ends it stood up, found where it
  wrote them. Once they are started, none of its senders is refused for want of a server.\<close>

definition dropping_far_ends ::
    "'n far_api \<Rightarrow> (string \<Rightarrow> string) \<Rightarrow> dir \<Rightarrow> (string \<Rightarrow> string \<Rightarrow> string \<Rightarrow> bytes \<Rightarrow> string option) \<Rightarrow> far_ends" where
  "dropping_far_ends F location d sends =
     \<lparr>far_builds = (\<lambda>protocol party.
        map_option (map_sum id (\<lambda>_. ())) (far_transport F (location party) protocol party None (d, d, d))),
      far_sends = sends\<rparr>"

lemma every_sender_has_a_server:
  assumes "far_documented F" "far_ends_start F parties = (ws, stood, None)" "clean parties"
    and "party \<in> set parties" "protocol \<in> set PROTOCOLS" "btree_get d (address_path protocol party) = None"
    and "\<forall>far \<in> set stood. utf8_error 0 (fe_address far) = None"
  shows "far_builds (dropping_far_ends F location (dir_after ws d) sends) protocol party \<noteq> None"
proof (cases "protocol = ''file''")
  case False
  then have "protocol \<in> far_protocols" using assms(5) far_protocols [of protocol] by (simp add: remote_protocol_def)
  from every_far_end_is_found [OF assms(1-4) this assms(6,7)] show ?thesis
    by (simp add: dropping_far_ends_def)
qed (simp add: dropping_far_ends_def far_transport_def)

section \<open>One Party's far ends\<close>

definition example_far :: "unit far_api" where
  "example_far =
     \<lparr>fr_certificate = Inr (''chain'', ''key'', ''anchor''), fr_made = None, fr_guard = (\<lambda>_ _. None),
      fr_bind = (\<lambda>n. Inr (''127.0.0.1:500'' @ decimal n)), fr_minted = (\<lambda>n. ''word'' @ decimal n),
      fr_serve = (\<lambda>_ _. None), fr_parts = (\<lambda>b. [b]), fr_stops = (\<lambda>_. None),
      fr_passwords = (\<lambda>entries user secret. (user, secret) \<in> set entries), fr_keys = (\<lambda>_ _ _. False),
      fr_unread = (\<lambda>path. path @ '': not there''), fr_trusting = (\<lambda>_. None), fr_on_node = (\<lambda>_ _. None)\<rparr>"

lemma example_far_documented: "far_documented example_far"
proof -
  have "utf8_error 0 (''word'' @ decimal n) = None" for n
    by (rule utf8_error_ascii) (use ascii_digits [of "decimal n"] list_all_is_digit_decimal in simp)
  then show ?thesis unfolding far_documented_def example_far_def by simp
qed

theorem said_address_is_admitted_witness:
  "\<exists>ws stood. far_ends_start example_far [''A''] = (ws, stood, None)
     \<and> (\<exists>far \<in> set stood. fe_protocol far = ''sftp'' \<and> fe_check far (OfferPassword ''A'' ''word2'')
          \<and> far_transport example_far ''in'' ''sftp'' ''A'' None (dir_after ws [], dir_after ws [], [])
              = Some (Inr (OverSftp (trim (fe_address far)) ''A'' ''word2'')))"
proof -
  define ws where "ws = fst (far_ends_start example_far [''A''])"
  define stood where "stood = fst (snd (far_ends_start example_far [''A'']))"
  have "snd (snd (far_ends_start example_far [''A''])) = None" by code_simp
  then have run: "far_ends_start example_far [''A''] = (ws, stood, None)"
    by (simp add: ws_def stood_def prod_eq_iff)
  have "far_transport example_far ''in'' ''sftp'' ''A'' None (dir_after ws [], dir_after ws [], [])
      = Some (Inr (OverSftp ''127.0.0.1:5002'' ''A'' ''word2''))"
    unfolding ws_def by code_simp
  then have read: "far_transport example_far ''in'' ''sftp'' ''A'' None
      (dir_after (take (length ws) ws) [], dir_after (take (length ws) ws) [], [])
      = Some (Inr (OverSftp ''127.0.0.1:5002'' ''A'' ''word2''))"
    by simp
  have "clean [''A'']" "''sftp'' \<in> set PROTOCOLS" "remote_protocol ''sftp''"
    by (simp_all add: clean_def PROTOCOLS_def remote_protocol_def)
  from said_address_is_admitted [OF example_far_documented run this(1) _ this(2,3) btree_get_Nil order_refl read]
  show ?thesis using run read by auto
qed

text \<open>A node that reads while the address is being written speaks to no address at all.\<close>

lemma half_said_address:
  "far_transport example_far ''in'' ''ftp'' ''A'' None
     (let d = dir_after (take 5 (fst (far_ends_start example_far [''A'']))) [] in (d, d, d))
   = Some (Inr (OverFtp [] ''A'' ''word0'' None))"
  by code_simp

end
