(* ===== verification/Remote.thy ===== *)
theory Remote
  imports Filing Files
begin

text \<open>
  The remote cabinets (\<open>src/remote.rs\<close>): a store whose far end is served for the length of one
  filing. The far end of PostgreSQL keeps the literals of the \<open>INSERT\<close> it is sent and answers the
  \<open>SELECT\<close> with them; the object stores serve the four requests of one filing. The sessions, the
  archives that write and read over them and \<open>Delimiter::STRING.unquote_prefix\<close> are other crates',
  parameters here.
\<close>

section \<open>One filing served\<close>

text \<open>\<open>serve_filing\<close>, of what the filing gave and what serving it did.\<close>

definition serve_filing :: "filed \<Rightarrow> string + unit \<Rightarrow> filed" where
  "serve_filing filed served =
     (case (filed, served) of
        (FiledFailed why, _) \<Rightarrow> FiledFailed why
      | (ReturnedItem item, Inr _) \<Rightarrow> ReturnedItem item
      | (ReturnedItem _, Inl e) \<Rightarrow> FiledFailed (''the far end failed: '' @ e))"

definition OBJECT_REQUESTS :: nat where
  "OBJECT_REQUESTS = 4"

datatype object_event = Accepted | RefusedWith string

text \<open>The loop of the three object stores' \<open>serve\<close>, over what one request did to the session.\<close>

fun serve_requests :: "('s \<Rightarrow> (string + object_event) \<times> 's) \<Rightarrow> nat \<Rightarrow> 's \<Rightarrow> (string + unit) \<times> 's" where
  "serve_requests one 0 s = (Inr (), s)"
| "serve_requests one (Suc n) s =
     (case one s of
        (Inl e, s) \<Rightarrow> (Inl e, s)
      | (Inr (RefusedWith code), s) \<Rightarrow> (Inl (''the session refused: '' @ code), s)
      | (Inr Accepted, s) \<Rightarrow> serve_requests one n s)"

text \<open>A session is the step of one request and the state it starts in; one that cannot be made serves
  nothing.\<close>

type_synonym 's session = "('s \<Rightarrow> (string + object_event) \<times> 's) \<times> 's"

definition object_serve :: "string + 's session \<Rightarrow> string + unit" where
  "object_serve session =
     (case session of
        Inl e \<Rightarrow> Inl e
      | Inr (one, s) \<Rightarrow> fst (serve_requests one OBJECT_REQUESTS s))"

section \<open>The literals of a statement\<close>

text \<open>\<open>literals\<close>, what it found so far in its first argument. What \<open>unquote_prefix\<close> leaves is its own
  business, so that the loop ends is proved and not built in.\<close>

partial_function (option) literals_from ::
    "(string \<Rightarrow> (string \<times> string) option) \<Rightarrow> string list \<Rightarrow> string \<Rightarrow> string list option" where
  "literals_from unquote found rest =
     (case position (\<lambda>c. c = CHR 0x27) rest of
        None \<Rightarrow> Some found
      | Some at \<Rightarrow>
          (case unquote (drop at rest) of
             None \<Rightarrow> Some found
           | Some (literal, after) \<Rightarrow> literals_from unquote (found @ [literal]) after))"

definition literals :: "(string \<Rightarrow> (string \<times> string) option) \<Rightarrow> string \<Rightarrow> string list option" where
  "literals unquote sql = literals_from unquote [] sql"

section \<open>PostgreSQL\<close>

type_synonym row = "string option list"

record 'r postgresql_api =
  pq_unquote :: "string \<Rightarrow> (string \<times> string) option"
  pq_insert :: "filed_item \<Rightarrow> string"
  pq_receipt :: "(string list \<times> row list) option \<Rightarrow> string + 'r"
  pq_item :: "'r \<Rightarrow> string list \<times> row list \<Rightarrow> string + filed_item"

definition ROW_ID :: nat where
  "ROW_ID = 1"

text \<open>What the inserting session answers a statement with, and the row it keeps of it.\<close>

definition inserting :: "'r postgresql_api \<Rightarrow> string \<Rightarrow> row \<Rightarrow> (string list \<times> row list) option \<times> row" where
  "inserting P sql row =
     (if \<not> prefix ''INSERT'' sql then (None, row)
      else (Some ([''id''], [[Some (decimal ROW_ID)]]),
            map Some (take 4 (case literals (pq_unquote P) sql of Some found \<Rightarrow> found | None \<Rightarrow> []))))"

definition selecting :: "row \<Rightarrow> string list \<times> row list" where
  "selecting row = ([''data_type'', ''identifier'', ''bytes'', ''metadata''], [row])"

text \<open>The archive over its two connections, the far end's row between them.\<close>

definition postgresql_archive :: "'r postgresql_api \<Rightarrow> (row, 'r) archive_api" where
  "postgresql_archive P =
     \<lparr>aa_archive = (\<lambda>item row. (case inserting P (pq_insert P item) row of (answer, row) \<Rightarrow> (pq_receipt P answer, row))),
      aa_restore = (\<lambda>receipt row. (pq_item P receipt (selecting row), row))\<rparr>"

text \<open>The cabinet binds a port of its own for each filing, its world the number of filings so far: what
  binding it and serving its two sessions did.\<close>

definition postgresql_cabinet ::
    "'r postgresql_api \<Rightarrow> (nat \<Rightarrow> string + unit) \<Rightarrow> (nat \<Rightarrow> string + unit) \<Rightarrow> nat cabinet" where
  "postgresql_cabinet P bound served =
     \<lparr>cb_technology = ''postgresql'',
      cb_file = (\<lambda>item n. (case bound n of
          Inl e \<Rightarrow> FiledFailed (''bind failed: '' @ e)
        | Inr _ \<Rightarrow> serve_filing (fst (file_through (postgresql_archive P) item [])) (served n), n + 1))\<rparr>"

definition object_cabinet ::
    "string \<Rightarrow> (nat \<Rightarrow> ('o, 'r) archive_api \<times> 'o) \<Rightarrow> (nat \<Rightarrow> string + unit) \<Rightarrow> (nat \<Rightarrow> string + 's session) \<Rightarrow> nat cabinet" where
  "object_cabinet tech store bound session =
     \<lparr>cb_technology = tech,
      cb_file = (\<lambda>item n. (case bound n of
          Inl e \<Rightarrow> FiledFailed (''bind failed: '' @ e)
        | Inr _ \<Rightarrow> serve_filing (fst (file_through (fst (store n)) item (snd (store n)))) (object_serve (session n)), n + 1))\<rparr>"

definition s3_cabinet ::
    "(nat \<Rightarrow> ('o, 'r) archive_api \<times> 'o) \<Rightarrow> (nat \<Rightarrow> string + unit) \<Rightarrow> (nat \<Rightarrow> 's session) \<Rightarrow> nat cabinet" where
  "s3_cabinet store bound session = object_cabinet ''s3'' store bound (\<lambda>n. Inr (session n))"

definition azure_blob_cabinet ::
    "(nat \<Rightarrow> ('o, 'r) archive_api \<times> 'o) \<Rightarrow> (nat \<Rightarrow> string + unit) \<Rightarrow> (nat \<Rightarrow> string + 's session) \<Rightarrow> nat cabinet" where
  "azure_blob_cabinet store bound session = object_cabinet ''azure-blob'' store bound session"

definition gcs_cabinet ::
    "(nat \<Rightarrow> ('o, 'r) archive_api \<times> 'o) \<Rightarrow> (nat \<Rightarrow> string + unit) \<Rightarrow> (nat \<Rightarrow> 's session) \<Rightarrow> nat cabinet" where
  "gcs_cabinet store bound session = object_cabinet ''google-cloud-storage'' store bound (\<lambda>n. Inr (session n))"

section \<open>The literals come out in their order\<close>

text \<open>A statement of quoted literals, each followed by something that holds no quote.\<close>

fun quoted_text :: "(string \<Rightarrow> string) \<Rightarrow> (string \<times> string) list \<Rightarrow> string" where
  "quoted_text quote [] = []"
| "quoted_text quote ((literal, between) # rest) = quote literal @ between @ quoted_text quote rest"

definition between_ok :: "(string \<times> string) list \<Rightarrow> bool" where
  "between_ok parts \<longleftrightarrow> list_all (\<lambda>(_, between). between \<noteq> [] \<and> CHR 0x27 \<notin> set between) parts"

text \<open>What is relied on of a quoting: it opens with the quote, and unquoting answers the literal and
  leaves what follows, unless that opens with a quote too.\<close>

definition quotes :: "(string \<Rightarrow> string) \<Rightarrow> (string \<Rightarrow> (string \<times> string) option) \<Rightarrow> bool" where
  "quotes quote unquote \<longleftrightarrow>
     (\<forall>literal. \<exists>rest. quote literal = CHR 0x27 # rest)
     \<and> (\<forall>literal after. (after = [] \<or> hd after \<noteq> CHR 0x27) \<longrightarrow> unquote (quote literal @ after) = Some (literal, after))"

lemma first_quote:
  assumes "quotes quote unquote" "CHR 0x27 \<notin> set head"
  shows "position (\<lambda>c. c = CHR 0x27) (head @ quote literal @ rest) = Some (length head)"
proof -
  obtain q where "quote literal = CHR 0x27 # q" using assms(1) unfolding quotes_def by blast
  then show ?thesis using assms(2) position_append [of head "\<lambda>c. c = CHR 0x27" "CHR 0x27" "q @ rest"] by auto
qed

lemma literals_from_text:
  assumes "quotes quote unquote"
  shows "CHR 0x27 \<notin> set head \<Longrightarrow> between_ok parts \<Longrightarrow>
     literals_from unquote found (head @ quoted_text quote parts) = Some (found @ map fst parts)"
proof (induction parts arbitrary: head found)
  case Nil
  then have "position (\<lambda>c. c = CHR 0x27) head = None" by (auto simp: position_None)
  then show ?case by (subst literals_from.simps) simp
next
  case (Cons part parts)
  obtain literal between where part: "part = (literal, between)" by (cases part)
  from Cons.prems have between: "between \<noteq> []" "CHR 0x27 \<notin> set between" "between_ok parts"
    by (simp_all add: part between_ok_def)
  then have "hd (between @ quoted_text quote parts) \<noteq> CHR 0x27" by (cases between) auto
  then have "unquote (quote literal @ between @ quoted_text quote parts) = Some (literal, between @ quoted_text quote parts)"
    using assms unfolding quotes_def by blast
  then show ?case
    using Cons.IH [OF between(2,3), of "found @ [literal]"] first_quote [OF assms Cons.prems(1), of literal]
    by (subst literals_from.simps) (simp add: part)
qed

text \<open>Every literal of a statement, in its order; and the loop ends.\<close>

lemma literals_in_order:
  "quotes quote unquote \<Longrightarrow> CHR 0x27 \<notin> set head \<Longrightarrow> between_ok parts \<Longrightarrow>
     literals unquote (head @ quoted_text quote parts) = Some (map fst parts)"
  by (simp add: literals_def literals_from_text)

section \<open>What comes back went over the wire\<close>

text \<open>What is relied on of the PostgreSQL archive: its \<open>INSERT\<close> carries five literals, it takes the row
  id for a receipt, and the row of the first four is its item.\<close>

definition files_item :: "'r postgresql_api \<Rightarrow> filed_item \<Rightarrow> bool" where
  "files_item P item \<longleftrightarrow>
     (\<exists>quote head parts a b c d stamp. quotes quote (pq_unquote P)
        \<and> pq_insert P item = head @ quoted_text quote parts
        \<and> prefix ''INSERT'' head \<and> CHR 0x27 \<notin> set head \<and> between_ok parts \<and> map fst parts = [a, b, c, d, stamp]
        \<and> (\<exists>r. pq_receipt P (Some ([''id''], [[Some ''1'']])) = Inr r
             \<and> pq_item P r (selecting [Some a, Some b, Some c, Some d]) = Inr item))"

lemma postgresql_archive_files:
  assumes "files_item P item"
  shows "fst (file_through (postgresql_archive P) item row) = ReturnedItem item"
proof -
  from assms obtain quote head parts a b c d stamp r where
    sql: "quotes quote (pq_unquote P)" "pq_insert P item = head @ quoted_text quote parts"
      "CHR 0x27 \<notin> set head" "between_ok parts" "map fst parts = [a, b, c, d, stamp]"
    and insert: "prefix ''INSERT'' head"
    and row: "pq_receipt P (Some ([''id''], [[Some ''1'']])) = Inr r"
      "pq_item P r (selecting [Some a, Some b, Some c, Some d]) = Inr item"
    unfolding files_item_def by (elim exE conjE) (rule that)
  have "literals (pq_unquote P) (pq_insert P item) = Some [a, b, c, d, stamp]"
    using literals_in_order [OF sql(1,3,4)] sql(2,5) by simp
  moreover have "prefix ''INSERT'' (pq_insert P item)" using insert sql(2) by (metis prefix_prefix)
  moreover have "decimal ROW_ID = ''1''" by code_simp
  ultimately show ?thesis
    using row by (simp add: file_through_def postgresql_archive_def inserting_def numeral_eq_Suc)
qed


text \<open>A quoting that doubles the quotes inside.\<close>

fun undoubled :: "string \<Rightarrow> (string \<times> string) option" where
  "undoubled [] = None"
| "undoubled [c] = (if c = CHR 0x27 then Some ([], []) else None)"
| "undoubled (c # d # s) =
     (if c \<noteq> CHR 0x27 then map_option (\<lambda>(l, r). (c # l, r)) (undoubled (d # s))
      else if d = CHR 0x27 then map_option (\<lambda>(l, r). (CHR 0x27 # l, r)) (undoubled s)
      else Some ([], d # s))"

definition doubling :: "string \<Rightarrow> string" where
  "doubling literal = CHR 0x27 # concat (map (\<lambda>c. if c = CHR 0x27 then [c, c] else [c]) literal) @ [CHR 0x27]"

definition undoubling :: "string \<Rightarrow> (string \<times> string) option" where
  "undoubling s = (case s of [] \<Rightarrow> None | c # rest \<Rightarrow> if c = CHR 0x27 then undoubled rest else None)"

lemma undoubled_body:
  "after = [] \<or> hd after \<noteq> CHR 0x27 \<Longrightarrow>
     undoubled (concat (map (\<lambda>c. if c = CHR 0x27 then [c, c] else [c]) literal) @ CHR 0x27 # after) = Some (literal, after)"
proof (induction literal)
  case Nil
  then show ?case by (cases after) simp_all
next
  case (Cons c literal)
  obtain x xs where rest: "concat (map (\<lambda>c. if c = CHR 0x27 then [c, c] else [c]) literal) @ CHR 0x27 # after = x # xs"
    by (cases "concat (map (\<lambda>c. if c = CHR 0x27 then [c, c] else [c]) literal)") auto
  then show ?case using Cons by simp
qed

lemma doubling_quotes: "quotes doubling undoubling"
  by (simp add: quotes_def doubling_def undoubling_def undoubled_body)

definition example_parts :: "filed_item \<Rightarrow> (string \<times> string) list" where
  "example_parts item =
     [(fi_data_type item, '', ''), (fi_identifier item, '', ''), (fi_bytes item, '', ''),
      (snd (fi_metadata item ! 1), '', ''), (''now'', '')'')]"

definition example_postgresql :: "unit postgresql_api" where
  "example_postgresql =
     \<lparr>pq_unquote = undoubling,
      pq_insert = (\<lambda>item. ''INSERT INTO archive VALUES ('' @ quoted_text doubling (example_parts item)),
      pq_receipt = (\<lambda>answer. if answer = Some ([''id''], [[Some ''1'']]) then Inr () else Inl ''no row id''),
      pq_item = (\<lambda>_ (_, rows). case rows of
          [[Some a, Some b, Some c, Some d]] \<Rightarrow>
            Inr \<lparr>fi_data_type = a, fi_identifier = b, fi_bytes = c,
                 fi_metadata = [(''source'', ''essentials''), (''round'', d)]\<rparr>
        | _ \<Rightarrow> Inl ''no such row'')\<rparr>"

lemma example_files: "files_item example_postgresql (filing_probe W F c)"
proof -
  have "quotes doubling (pq_unquote example_postgresql)" by (simp add: example_postgresql_def doubling_quotes)
  moreover have "pq_insert example_postgresql (filing_probe W F c) = ''INSERT INTO archive VALUES ('' @ quoted_text doubling (example_parts (filing_probe W F c))"
    by (simp add: example_postgresql_def)
  moreover have "between_ok (example_parts (filing_probe W F c))" by (simp add: example_parts_def between_ok_def)
  moreover have "pq_receipt example_postgresql (Some ([''id''], [[Some ''1'']])) = Inr ()"
    by (simp add: example_postgresql_def)
  moreover have "map fst (example_parts (filing_probe W F c)) =
      [fi_data_type (filing_probe W F c), fi_identifier (filing_probe W F c), fi_bytes (filing_probe W F c),
       decimal (fl_round F), ''now'']"
    by (simp add: example_parts_def filing_probe_def)
  moreover have "pq_item example_postgresql () (selecting [Some (fi_data_type (filing_probe W F c)),
      Some (fi_identifier (filing_probe W F c)), Some (fi_bytes (filing_probe W F c)), Some (decimal (fl_round F))])
      = Inr (filing_probe W F c)"
    by (simp add: example_postgresql_def selecting_def filing_probe_def)
  moreover have "prefix ''INSERT'' ''INSERT INTO archive VALUES (''" "CHR 0x27 \<notin> set ''INSERT INTO archive VALUES (''"
    by simp_all
  ultimately show ?thesis unfolding files_item_def by - (intro exI conjI, assumption+)
qed


section \<open>An object store serves its four requests\<close>

text \<open>Serving ends well exactly when four requests were accepted, one after another; the first that is
  refused or fails ends it with its words.\<close>

lemma serve_requests_ok:
  "fst (serve_requests one n s) = Inr () \<longleftrightarrow>
     (\<forall>k < n. fst (one (((\<lambda>s. snd (one s)) ^^ k) s)) = Inr Accepted)"
proof (induction one n s rule: serve_requests.induct)
  case (2 one n s)
  obtain r t where one: "one s = (r, t)" by (cases "one s")
  have "(\<forall>k < Suc n. fst (one (((\<lambda>s. snd (one s)) ^^ k) s)) = Inr Accepted) \<longleftrightarrow>
      r = Inr Accepted \<and> (\<forall>k < n. fst (one (((\<lambda>s. snd (one s)) ^^ k) t)) = Inr Accepted)"
    by (auto simp: one All_less_Suc2 funpow_swap1 funpow_Suc_right simp del: funpow.simps)
  then show ?case using 2 one by (auto split: sum.splits object_event.splits)
qed simp

lemma object_cabinet_files:
  assumes "bound n = Inr u" "gives_back (fst (store n))" "session n = Inr (one, s)"
    and "\<forall>k < 4. fst (one (((\<lambda>s. snd (one s)) ^^ k) s)) = Inr Accepted"
  shows "cb_file (object_cabinet tech store bound session) item n = (ReturnedItem item, n + 1)"
proof -
  have "object_serve (session n) = Inr ()"
    using serve_requests_ok [of one 4 s] assms(3,4) by (simp add: object_serve_def OBJECT_REQUESTS_def)
  moreover have "fst (file_through (fst (store n)) item (snd (store n))) = ReturnedItem item"
    using cabinet_gives_back [OF assms(2)] by (simp add: cabinet_over_def)
  ultimately show ?thesis using assms(1) by (simp add: object_cabinet_def serve_filing_def)
qed

lemmas object_cabinets = s3_cabinet_def azure_blob_cabinet_def gcs_cabinet_def

text \<open>A store whose far end ends early is not green, whatever the store gave back.\<close>

lemma object_cabinet_unserved:
  assumes "bound n = Inr u" "object_serve (session n) = Inl e"
  shows "\<exists>why. fst (cb_file (object_cabinet tech store bound session) item n) = FiledFailed why"
  using assms by (cases "fst (file_through (fst (store n)) item (snd (store n)))")
    (simp_all add: object_cabinet_def serve_filing_def)

end
