(* ===== verification/Headroom.thy ===== *)
theory Headroom
  imports Pickup
begin

text \<open>
  The headroom (\<open>src/headroom.rs\<close>), as Linux has it read: the counters of \<open>/proc/stat\<close>, the ticks of the
  process itself, what two readings say of the machine between them, and the measure every scenario
  shares. The counters are 64-bit words, their sums wrapping as a release build's do; the fraction
  \<open>f64\<close> computes of two of them, and the rounding of a share, are parameters.
\<close>

section \<open>Reading the counters\<close>

text \<open>\<open>str::split_whitespace\<close>.\<close>

lemma length_strip_front: "length (strip_front ws s) \<le> length s"
proof (induction ws s rule: strip_front.induct)
  case (1 ws s)
  show ?case
  proof (cases "find (\<lambda>w. w \<noteq> [] \<and> prefix w s) ws")
    case None
    then show ?thesis by (subst strip_front.simps) simp
  next
    case (Some w)
    from 1 [OF Some] have "length (strip_front ws (drop (length w) s)) \<le> length s" by simp
    then show ?thesis by (subst strip_front.simps) (simp add: Some)
  qed
qed

function split_words :: "string \<Rightarrow> string list" where
  "split_words s =
     (let t = strip_front white_space s; w = until_white t in
      if w = [] then [] else w # split_words (drop (length w) t))"
  by pat_completeness auto
termination
proof (relation "measure length", goal_cases)
  case (2 s t w)
  moreover have "until_white [] = []" by simp
  ultimately have "t \<noteq> []" by metis
  with 2 have "length (drop (length w) t) < length t" by simp
  then show ?case using 2(1) length_strip_front [of white_space s] by simp
qed simp

declare split_words.simps [simp del]

text \<open>The lines of a text, as \<open>str::lines\<close> has them but for an empty last one: the first that starts
  as \<open>/proc/stat\<close>'s first does.\<close>

definition cpu_line :: "string option \<Rightarrow> u64 list option" where
  "cpu_line stat =
     (case stat of
        None \<Rightarrow> None
      | Some text \<Rightarrow>
          (case find (prefix ''cpu '') (split_on (CHR 0x0A) text) of
             None \<Rightarrow> None
           | Some line \<Rightarrow> Some (map word_of_nat (List.map_filter (parse_unsigned 64) (drop 1 (split_words line))))))"

text \<open>What follows the last parenthesis: the text of a process after its name.\<close>

definition after_name :: "string \<Rightarrow> string" where
  "after_name stat = rev (takeWhile (\<lambda>c. c \<noteq> CHR '')'') (rev stat))"

definition tick_field :: "string list \<Rightarrow> nat \<Rightarrow> u64" where
  "tick_field read i =
     (if i < length read then (case parse_unsigned 64 (read ! i) of Some n \<Rightarrow> word_of_nat n | None \<Rightarrow> 0) else 0)"

definition own_ticks :: "string option \<Rightarrow> u64" where
  "own_ticks stat =
     (let read = split_words (after_name (case stat of Some text \<Rightarrow> text | None \<Rightarrow> [])) in
      tick_field read 11 + tick_field read 12)"

section \<open>What is free of others\<close>

definition checked_sub :: "u64 \<Rightarrow> u64 \<Rightarrow> u64 option" where
  "checked_sub a b = (if b \<le> a then Some (a - b) else None)"

definition saturating_sub :: "u64 \<Rightarrow> u64 \<Rightarrow> u64" where
  "saturating_sub a b = (if b \<le> a then a - b else 0)"

text \<open>\<open>free_of_others\<close>, from its two readings: what was free of others and the whole, in ticks, that the
  fraction is computed of.\<close>

definition free_ticks :: "u64 list \<times> u64 \<Rightarrow> u64 list \<times> u64 \<Rightarrow> (u64 \<times> u64) option" where
  "free_ticks = (\<lambda>(first, own_first) (second, own_second).
     (case checked_sub (sum_list second) (sum_list first) of
        None \<Rightarrow> None
      | Some whole \<Rightarrow>
          if length second \<le> 3 \<or> length first \<le> 3 then None
          else (case checked_sub (second ! 3) (first ! 3) of
              None \<Rightarrow> None
            | Some idle \<Rightarrow>
                let own = saturating_sub own_second own_first in
                if whole = 0 then None else Some (idle + own, whole))))"

definition free_of_others ::
    "(u64 \<Rightarrow> u64 \<Rightarrow> 'f) \<Rightarrow> string option \<times> string option \<Rightarrow> string option \<times> string option \<Rightarrow> 'f option" where
  "free_of_others fraction = (\<lambda>(stat, own) (stat', own').
     (case (cpu_line stat, cpu_line stat') of
        (Some first, Some second) \<Rightarrow>
          map_option (\<lambda>(free, whole). fraction free whole) (free_ticks (first, own_ticks own) (second, own_ticks own'))
      | _ \<Rightarrow> None))"

text \<open>The machine is taken as free where it cannot be read.\<close>

definition headroom_measure ::
    "'f \<Rightarrow> (u64 \<Rightarrow> u64 \<Rightarrow> 'f) \<Rightarrow> string option \<times> string option \<Rightarrow> string option \<times> string option \<Rightarrow> 'f" where
  "headroom_measure whole fraction first second =
     (case free_of_others fraction first second of Some free \<Rightarrow> free | None \<Rightarrow> whole)"

text \<open>The measure every scenario shares: \<open>current\<close> takes it where none has been, \<open>make_current\<close> and
  \<open>refresh\<close> replace it.\<close>

definition headroom_current :: "'f \<Rightarrow> 'f option \<Rightarrow> 'f \<times> 'f option" where
  "headroom_current measured kept = (case kept of Some free \<Rightarrow> (free, kept) | None \<Rightarrow> (measured, Some measured))"

definition make_current :: "'f \<Rightarrow> 'f option \<Rightarrow> 'f \<times> 'f option" where
  "make_current free kept = (free, Some free)"

definition headroom_refresh :: "'f \<Rightarrow> 'f option \<Rightarrow> 'f \<times> 'f option" where
  "headroom_refresh measured kept = make_current measured kept"

definition headroom_share :: "('f \<Rightarrow> nat \<Rightarrow> nat) \<Rightarrow> 'f \<Rightarrow> nat \<Rightarrow> nat" where
  "headroom_share scaled free whole = max (scaled free whole) 1"

section \<open>A process as it is read\<close>

lemma until_white_visible:
  "list_all visible w \<Longrightarrow> rest = [] \<or> hd rest = CHR '' '' \<Longrightarrow> until_white (w @ rest) = w"
proof (induction w)
  case Nil
  then show ?case by (cases rest) (simp_all add: white_space_def)
next
  case (Cons c w)
  then have "\<not> list_ex (\<lambda>p. prefix p (c # w @ rest)) white_space"
    by (auto simp: white_space_def visible_def)
  with Cons show ?case by simp
qed

lemma strip_front_space: "strip_front white_space (CHR '' '' # s) = strip_front white_space s"
  by (subst strip_front.simps) (simp add: white_space_def)

lemma split_words_Nil: "split_words [] = []" "split_words '' '' = []"
  by (simp_all add: split_words.simps [of "[]"] split_words.simps [of "'' ''"] strip_front_space strip_front_visible Let_def)

definition word_ok :: "string \<Rightarrow> bool" where
  "word_ok w \<longleftrightarrow> w \<noteq> [] \<and> list_all visible w"

lemma split_words_word:
  assumes "word_ok w" "rest = [] \<or> hd rest = CHR '' ''"
  shows "split_words (CHR '' '' # w @ rest) = w # split_words rest"
proof -
  obtain c v where w: "w = c # v" "visible c" using assms(1) by (cases w) (auto simp: word_ok_def)
  then have "strip_front white_space (CHR '' '' # w @ rest) = w @ rest"
    using strip_front_starts [OF visible_not_white(1)] by (simp add: strip_front_space)
  moreover have "until_white (w @ rest) = w"
    using assms by (intro until_white_visible) (simp_all add: word_ok_def)
  ultimately show ?thesis using w by (subst split_words.simps) (simp add: Let_def)
qed

lemma split_words_join: "list_all word_ok ws \<Longrightarrow> split_words (CHR '' '' # join '' '' ws) = ws"
proof (induction ws)
  case (Cons w ws)
  show ?case
  proof (cases ws)
    case Nil
    then show ?thesis using split_words_word [of w "[]"] Cons.prems by (simp add: split_words_Nil)
  next
    case (Cons v vs)
    then show ?thesis
      using split_words_word [of w "CHR '' '' # join '' '' ws"] Cons.prems Cons.IH by simp
  qed
qed (simp add: split_words_Nil)

lemma word_ok_decimal: "word_ok (decimal n)"
proof -
  have "is_digit c \<Longrightarrow> visible c" for c by (simp add: is_digit_def visible_def)
  then show ?thesis using list_all_is_digit_decimal [of n] by (auto simp: word_ok_def list_all_iff)
qed

text \<open>A process's text: its number, its name in parentheses and its fields, the first its state.\<close>

definition stat_text :: "nat \<Rightarrow> string \<Rightarrow> nat list \<Rightarrow> string" where
  "stat_text pid name rest = decimal pid @ '' ('' @ name @ '') '' @ join '' '' (''S'' # map decimal rest)"

lemma join_no: "(\<And>w. w \<in> set ws \<Longrightarrow> c \<notin> set w) \<Longrightarrow> c \<notin> set sep \<Longrightarrow> c \<notin> set (join sep ws)"
  by (induction sep ws rule: join.induct) auto

lemma decimal_no: "\<not> is_digit c \<Longrightarrow> c \<notin> set (decimal n)"
  using list_all_is_digit_decimal [of n] by (auto simp: list_all_iff)

lemma after_name_stat: "after_name (stat_text pid name rest) = CHR '' '' # join '' '' (''S'' # map decimal rest)"
proof -
  let ?tail = "CHR '' '' # join '' '' (''S'' # map decimal rest)"
  have "CHR '')'' \<notin> set w" if "w \<in> set (''S'' # map decimal rest)" for w
    using that decimal_no [of "CHR '')''"] by (auto simp: is_digit_def)
  then have "CHR '')'' \<notin> set (join '' '' (''S'' # map decimal rest))" by (rule join_no) simp_all
  then have "CHR '')'' \<notin> set ?tail" by simp
  then have "takeWhile (\<lambda>c. c \<noteq> CHR '')'') (rev ?tail @ CHR '')'' # rev (decimal pid @ '' ('' @ name)) = rev ?tail"
    by (subst takeWhile_append2) auto
  then show ?thesis by (simp add: after_name_def stat_text_def)
qed

text \<open>What a process is taken to have used is the user's and the system's ticks of its own, the eleventh
  and the twelfth after its state; the next two, its children's, are not read.\<close>

lemma own_ticks_stat:
  assumes "12 \<le> length rest" "rest ! 10 < 2 ^ 64" "rest ! 11 < 2 ^ 64"
  shows "own_ticks (Some (stat_text pid name rest)) = word_of_nat (rest ! 10 + rest ! 11)"
proof -
  have "list_all word_ok (''S'' # map decimal rest)"
    using word_ok_decimal by (simp add: list_all_iff word_ok_def visible_def)
  then have "split_words (after_name (stat_text pid name rest)) = ''S'' # map decimal rest"
    unfolding after_name_stat by (rule split_words_join)
  then show ?thesis
    using assms by (simp add: own_ticks_def tick_field_def parse_unsigned_decimal)
qed

lemma children_go_uncounted:
  assumes "12 \<le> length rest" "rest ! 10 < 2 ^ 64" "rest ! 11 < 2 ^ 64"
    and "length rest = length other" "\<forall>i < 12. other ! i = rest ! i"
  shows "own_ticks (Some (stat_text pid name other)) = own_ticks (Some (stat_text pid name rest))"
  using own_ticks_stat [of rest pid name] own_ticks_stat [of other pid name] assms by simp

text \<open>Between two readings that do not run back, what is free of others is the idle time and the
  process's own, of the time that passed.\<close>

lemma free_ticks_between:
  assumes "4 \<le> length first" "4 \<le> length second" "sum_list first < sum_list second"
    and "first ! 3 \<le> second ! 3" "own \<le> own'"
  shows "free_ticks (first, own) (second, own') =
    Some ((second ! 3 - first ! 3) + (own' - own), sum_list second - sum_list first)"
  using assms by (auto simp: free_ticks_def checked_sub_def saturating_sub_def Let_def)

text \<open>A measure made current is every scenario's until the next.\<close>

lemma current_is_the_last_made:
  "snd (headroom_current m (snd (make_current free kept))) = Some free"
  "fst (headroom_current m (snd (make_current free kept))) = free"
  "fst (headroom_current m' (snd (headroom_current m None))) = m"
  by (simp_all add: headroom_current_def make_current_def)

end
