(* ===== verification/Spec2Isabelle.thy ===== *)
theory Spec2Isabelle
  imports Relay Low_Latency Retention Exclusive_Claim Daily_Backlog Cluster Heavy_Load Storm Topology Filing
    Subscribing Carried Real_Nodes Heartbeat Eventing Roll Far_Ends Remote Headroom
begin

text \<open>
  The Essentials' test rig (\<open>src/\<close>, a Rust crate) drives every transport with every content contract
  across the three stages of a message path, over one process or a cluster of node processes, injects
  faults by a deterministic rule, and publishes what it saw as health records. This library models that
  rig, component by component, and proves of it what an operator relies on when reading a run.

  How the code is modelled. A Rust \<open>String\<close> and a \<open>Vec<u8>\<close> are lists of bytes (HOL's \<open>char\<close>); counters are
  natural numbers; rates are 8-bit words, hashes and the mixing of the rotation 64-bit words with the
  source's wrap-around. A struct is a record, an enum a datatype, a \<open>BTreeMap\<close> an ordered association list
  (\<open>btree\<close>, \<open>Prelude\<close>), a directory its files by name (\<open>Files\<close>), a \<open>Result\<close> a sum whose left is the error.
  What another crate does is a field of a parameter record (\<open>node_api\<close>, \<open>observe_api\<close>, \<open>contract_api\<close>,
  \<open>codec_api\<close>, \<open>configure_api\<close>, \<open>gates_api\<close>, \<open>capability_api\<close>, \<open>runtime_api\<close>, \<open>archive_api\<close>, \<open>draw_api\<close>, \<open>reach\<close>,
  \<open>machine\<close>); what is documented of it is a named hypothesis (\<open>message_path\<close>, \<open>records_scopes\<close>, \<open>rolls_up\<close>,
  \<open>fields_read_back\<close>, \<open>gives_back\<close>, \<open>ceiling_documented\<close>), and each theorem with one has a witness over a
  concrete instance. Elapsed times and clocks are arguments. A snapshot is the sequence of records made on
  it. No model uses fuel: loops over lists are structural, the two that are not have measures, and threads
  and processes that share state are step relations, so a theorem holds for every interleaving of them.

  The theories, with the sources they translate:

  \<^item> \<open>Prelude\<close>, \<open>Files\<close>, \<open>Estate\<close>: the parts of the standard library, the file system and the estate's
    other crates the sources use; the interface \<open>accumulating_store\<close> every ledger and standing rests on.
  \<^item> \<open>Verdict\<close> (\<open>verdict.rs\<close>, \<open>contracts.rs\<close>), \<open>Payload\<close> (\<open>heavy_load/payload.rs\<close> and the probes): the
    twenty contracts, their probes and large payloads byte for byte; interchanges declare the segments
    they hold, payloads reach the size asked.
  \<^item> \<open>Stress\<close> (\<open>stress.rs\<close>), \<open>Fault\<close> (\<open>fault.rs\<close>), \<open>Rotation\<close> (\<open>rotation.rs\<close>), \<open>Parties\<close> (\<open>parties.rs\<close>): levels,
    keyed firing (the interface \<open>rated_firing\<close>), the turn that strikes each Party, and who is on which
    transport; a calm level injects nothing, a harsher one whatever a milder one does, the rotation
    reaches every Party.
  \<^item> \<open>Round_Trip\<close> (\<open>round_trip.rs\<close>, the adapter of \<open>exchange.rs\<close>), \<open>Identity\<close> (\<open>identity.rs\<close> and its parts),
    \<open>Workers\<close> (\<open>schedule/workers.rs\<close>), \<open>Ledger\<close> (\<open>standing.rs\<close>, \<open>schedule/tally.rs\<close>, \<open>schedule/ledger.rs\<close>; the
    interface \<open>judged_over_time\<close>), \<open>Schedule\<close> (\<open>schedule.rs\<close>): one round over one transport, the gates it
    passes, the threads that drive a round, what verdicts add up to over time, and the tick. Any
    interleaving of the threads gives the verdicts in order; the ledger is the history of the verdicts;
    every pair has its turn; a calm tick is green.
  \<^item> \<open>Roster\<close> (\<open>roster.rs\<close>), \<open>Handoff\<close> (\<open>handoff.rs\<close>), \<open>Relay\<close> (\<open>relay.rs\<close>, \<open>relay/judging.rs\<close>), \<open>Subscribing\<close>
    (\<open>subscribing.rs\<close>, \<open>subscribing/configured.rs\<close>, \<open>operator_orders.rs\<close>), \<open>Topology\<close> (\<open>topology.rs\<close> and its
    parts): a path split over node processes. A handoff is written and read back whole, half a file is
    none, and the inbox, a step relation over a directory, neither loses nor duplicates one; a roster
    that is accepted never strands a pair; a relay says delivered only what it handed on; what a paused
    Subscription held comes back as it was and in order; and the drawing is the handoffs delivered.
  \<^item> \<open>Pickup\<close>, \<open>Pickup_Race\<close>, \<open>Exclusive_Claim\<close> (\<open>exclusive_claim.rs\<close> and its parts): readers of one lane,
    their file operations interleaved in every way; each item has one holder and honest readers are
    judged to have held the claim.
  \<^item> \<open>Drop_Box\<close> (\<open>drop_box.rs\<close> and its parts), \<open>Daily_Backlog\<close> (\<open>daily_backlog.rs\<close>), \<open>Retention\<close>
    (\<open>retention.rs\<close>), \<open>Low_Latency\<close> (\<open>low_latency.rs\<close>), \<open>Heavy_Load\<close> (\<open>heavy_load.rs\<close>), \<open>Storm\<close> (\<open>storm.rs\<close>),
    \<open>Filing\<close> (\<open>filing.rs\<close>, \<open>cabinet.rs\<close>), \<open>Carried\<close> (\<open>carried.rs\<close>): the other scenarios, each with the
    judgment it publishes: when it is green, that it is never green over a failure, and that it forgets
    nothing.
  \<^item> \<open>Orders\<close> (\<open>cluster/orders.rs\<close>, \<open>scenario.rs\<close>, \<open>switch.rs\<close>, \<open>image.rs\<close>, \<open>environment.rs\<close>), \<open>Cluster\<close>
    (\<open>cluster.rs\<close>, \<open>cluster/liveness.rs\<close>, \<open>cluster/member.rs\<close>, \<open>cluster/rollup.rs\<close>), \<open>Real_Nodes\<close>
    (\<open>real.rs\<close>): what a run is told and refuses, the processes it watches and restarts, and the machines
    it uses in their place. A node that beats is never restarted, a silent one is, and a name that
    resolves is never replaced with a spawned process.

  \<^item> \<open>Command_Lines\<close> (\<open>cluster/spawned.rs\<close>, \<open>bin/cluster.rs\<close>, \<open>bin/node.rs\<close>): the flags a roll starts its
    cluster process with and a cluster its nodes, and how each reads them. What was written is what is
    read.
  \<^item> \<open>Cluster_Program\<close> (\<open>bin/cluster.rs\<close>), \<open>Spawned\<close> (\<open>cluster/spawned.rs\<close>): the cluster process, and that
    process as the roll holds it. It ends where it was told to and leaves no node behind; and from a
    node's file to what the roll holds nothing is out of date where the writes were kept.
  \<^item> \<open>Node_Program\<close> (\<open>bin/node.rs\<close>), \<open>Heartbeat\<close> (\<open>heartbeat.rs\<close>), \<open>Eventing\<close> (\<open>eventing.rs\<close>): a node's
    process, the two threads that beat as a step relation, and the Events it raises. No interleaving
    takes a round back, the round a cluster has read is one the node published, and on-call hears of
    every change in what fails.
  \<^item> \<open>Given\<close> (\<open>served/given.rs\<close>), \<open>Served\<close> (\<open>served.rs\<close>), \<open>Run_Nodes\<close> (\<open>far_end.rs\<close>, \<open>bin/roll.rs\<close>): the nodes
    a run starts as services, their order and their end, and the sorting of a roster into real, started
    and simulated nodes. Storage is started first and stopped last, a refused start leaves nothing
    running, and every node runs in one way.
  \<^item> \<open>Boards\<close> (\<open>run.rs\<close>, \<open>board.rs\<close>, \<open>curve.rs\<close>, \<open>publication.rs\<close>), \<open>In_Process\<close> (\<open>in_process.rs\<close>; the
    interface \<open>scenario\<close>, which each of the seven meets), \<open>Roll\<close> (\<open>bin/roll.rs\<close>, \<open>environment.rs\<close>,
    \<open>support.rs\<close>): the roll itself, which composes what the theories above model. No two of its scenarios
    publish into one scope, RoundTrip is run either by the roll or by its nodes and never by both, and a
    roll told a number of rounds runs them and leaves its last snapshot in its file.
  \<^item> \<open>Far_Ends\<close> (\<open>drop_box/far_ends.rs\<close>, \<open>login.rs\<close>): the servers of the drop box, what is written of them
    and what a node reads of it, write by write. A far end that says where it listens has said what it
    admits.
  \<^item> \<open>Remote\<close> (\<open>remote.rs\<close>): the cabinets whose store is served for the length of one filing. What
    PostgreSQL gives back is what went over the wire.
  \<^item> \<open>Headroom\<close> (\<open>headroom.rs\<close>): what Linux is read for, and what is free of others between two readings.

  How the parts interact. The roll (\<open>Roll\<close>) reads the environment, sorts its nodes (\<open>Run_Nodes\<close>), starts one
  cluster process with its orders (\<open>Orders\<close>, \<open>Command_Lines\<close>) and runs its own scenarios (\<open>In_Process\<close>);
  the cluster process (\<open>Cluster_Program\<close>) starts the nodes, reads what they publish and restarts those that
  fall silent (\<open>Cluster\<close>); a node (\<open>Node_Program\<close>) runs a relay for each of its stages (\<open>Relay\<close>), hands on
  through the inboxes its cluster shares (\<open>Handoff\<close>), publishes and beats (\<open>Heartbeat\<close>); and the roll reads
  the cluster's file (\<open>Spawned\<close>) and publishes all of it with its topology (\<open>Topology\<close>).

  Not modelled, and why. The budget of time (\<open>budget.rs\<close>), and what \<open>headroom.rs\<close> computes of its ticks, are
  floating point arithmetic over the wall clock and the machine. The containers of the database servers
  (\<open>database.rs\<close>), the lists of transports and cabinets (\<open>exchange.rs\<close>, \<open>cabinet.rs\<close>) and the texts of the
  files (\<open>report.rs\<close>, \<open>ledger_stream.rs\<close>, \<open>process_audit.rs\<close>) construct or
  call other crates' objects and hold no logic of their own. Of what is modelled in part, each component's
  entry of the manifest says what is left out; failures of the file system are modelled where the sources
  branch on them.
\<close>

end
